(* ===== verification/Prelude.thy ===== *)
theory Prelude
  imports Main "HOL-Library.Word"
begin

text \<open>
  Shared vocabulary of the development: bytes and little-endian memory images of C integers,
  sequencing of fallible operations, pointer chains through a table of next pointers, and the
  list facts that several components use.

  The collections: \<open>codec\<close> gathers the rewrite rules that carry the encode/decode proofs,
  \<open>chain\<close> those about pointer chains.
\<close>

named_theorems codec
named_theorems chain

section \<open>Bytes and little-endian integers\<close>

type_synonym byte = "8 word"
type_synonym bytes = "byte list"

text \<open>
  The C code copies integers to and from byte buffers with \<open>memcpy\<close> on a little-endian
  machine. \<open>le_bytes n v\<close> is the memory image of the unsigned value \<open>v\<close> in an object of
  \<open>n\<close> bytes, \<open>le_val\<close> reads such an image back.
\<close>

fun le_bytes :: "nat \<Rightarrow> nat \<Rightarrow> bytes" where
  "le_bytes 0 v = []"
| "le_bytes (Suc n) v = word_of_nat v # le_bytes n (v div 256)"

fun le_val :: "bytes \<Rightarrow> nat" where
  "le_val [] = 0"
| "le_val (b # bs) = unat b + 256 * le_val bs"

lemma length_le_bytes [simp]: "length (le_bytes n v) = n"
  by (induction n arbitrary: v) simp_all

lemma unat_byte_of_nat [simp]: "unat (word_of_nat v :: byte) = v mod 256"
  by (simp add: unat_of_nat)

lemma unat_byte_lt [simp]: "unat (b :: byte) < 256"
  using unsigned_less [of b] by simp

lemma le_val_le_bytes [codec]: "le_val (le_bytes n v) = v mod 256 ^ n"
proof (induction n arbitrary: v)
  case 0
  then show ?case by simp
next
  case (Suc n)
  have "v mod 256 ^ Suc n = v mod 256 + 256 * (v div 256 mod 256 ^ n)"
    by (simp add: mod_mult2_eq)
  with Suc show ?case by simp
qed

lemma le_val_less: "le_val bs < 256 ^ length bs"
proof (induction bs)
  case Nil
  then show ?case by simp
next
  case (Cons b bs)
  have "unat b + 256 * le_val bs < 256 * (1 + le_val bs)"
    using unat_byte_lt [of b] by simp
  also have "\<dots> \<le> 256 * 256 ^ length bs"
    using Cons by (intro mult_le_mono) simp_all
  finally show ?case by simp
qed

lemma le_bytes_le_val: "le_bytes (length bs) (le_val bs) = bs"
proof (induction bs)
  case Nil
  then show ?case by simp
next
  case (Cons b bs)
  have "unat (word_of_nat (unat b + 256 * le_val bs) :: byte) = unat b"
    by (simp only: unat_byte_of_nat mod_mult_self2) simp
  then have "word_of_nat (unat b + 256 * le_val bs) = b"
    by (simp only: word_unat_eq_iff)
  moreover have "(unat b + 256 * le_val bs) div 256 = le_val bs"
    by simp
  ultimately show ?case using Cons by simp
qed

lemma le_bytes_mod: "le_bytes n (v mod 256 ^ n) = le_bytes n v"
  by (metis le_bytes_le_val le_val_le_bytes length_le_bytes)

text \<open>The image of a word is exact when the object is as wide as the word.\<close>

lemma le_val_word16 [codec]: "word_of_nat (le_val (le_bytes 2 (unat w))) = (w :: 16 word)"
proof -
  have "unat w < 256 ^ 2" using unsigned_less [of w] by simp
  then show ?thesis by (simp add: le_val_le_bytes)
qed

lemma le_val_word32 [codec]: "word_of_nat (le_val (le_bytes 4 (unat w))) = (w :: 32 word)"
proof -
  have "unat w < 256 ^ 4" using unsigned_less [of w] by simp
  then show ?thesis by (simp add: le_val_le_bytes)
qed

lemma le_val_word64 [codec]: "word_of_nat (le_val (le_bytes 8 (unat w))) = (w :: 64 word)"
proof -
  have "unat w < 256 ^ 8" using unsigned_less [of w] by simp
  then show ?thesis by (simp add: le_val_le_bytes)
qed

section \<open>The range of a C int\<close>

text \<open>
  A C \<open>int\<close> is a 32-bit word read with \<open>sint\<close>. Signed arithmetic whose exact result does not fit
  is undefined: the operations test the exact result with \<open>fits_int\<close>.
\<close>

definition fits_int :: "int \<Rightarrow> bool" where
  "fits_int i \<longleftrightarrow> - 2147483648 \<le> i \<and> i < 2147483648"

lemma sint_word_of_int32: "fits_int i \<Longrightarrow> sint (word_of_int i :: 32 word) = i"
  by (simp add: fits_int_def signed_of_int signed_take_bit_int_eq_self)

lemma sint_fits [simp]: "fits_int (sint (a :: 32 word))"
  using sint_greater_eq [of a] sint_lt [of a] by (simp add: fits_int_def)

lemma sint_add_word: "fits_int (sint a + i) \<Longrightarrow> sint (a + word_of_int i :: 32 word) = sint a + i"
  using sint_word_of_int32 [of "sint a + i"] by simp

lemma sint_sub_word: "fits_int (sint a - i) \<Longrightarrow> sint (a - word_of_int i :: 32 word) = sint a - i"
  using sint_word_of_int32 [of "sint a - i"] by simp

lemma word_of_sint: "sint (a :: 32 word) = i \<Longrightarrow> a = word_of_int i"
  by auto

lemma fits_int_between: "fits_int i \<Longrightarrow> fits_int k \<Longrightarrow> i \<le> j \<Longrightarrow> j \<le> k \<Longrightarrow> fits_int j"
  by (simp add: fits_int_def)

section \<open>Sequencing fallible operations\<close>

text \<open>
  An operation that can fail returns \<open>'e + 'a\<close>, with \<open>Inl\<close> for the raised error; \<open>rbind\<close>
  is the sequencing of the source, which leaves at the first raise.
\<close>

definition rbind :: "'e + 'a \<Rightarrow> ('a \<Rightarrow> 'e + 'b) \<Rightarrow> 'e + 'b" where
  "rbind m f = (case m of Inl e \<Rightarrow> Inl e | Inr x \<Rightarrow> f x)"

lemma rbind_simps [simp]:
  "rbind (Inl e) f = Inl e"
  "rbind (Inr x) f = f x"
  by (simp_all add: rbind_def)

lemma rbind_eq_Inr_iff: "rbind m f = Inr y \<longleftrightarrow> (\<exists>x. m = Inr x \<and> f x = Inr y)"
  by (cases m) simp_all

lemma rbind_cong [fundef_cong]:
  "m = m' \<Longrightarrow> (\<And>x. m' = Inr x \<Longrightarrow> f x = f' x) \<Longrightarrow> rbind m f = rbind m' f'"
  by (cases m') simp_all

text \<open>A loop over a list whose body may fail.\<close>

fun rfold :: "('x \<Rightarrow> 's \<Rightarrow> 'e + 's) \<Rightarrow> 'x list \<Rightarrow> 's \<Rightarrow> 'e + 's" where
  "rfold f [] s = Inr s"
| "rfold f (x # xs) s = rbind (f x s) (rfold f xs)"

lemma rfold_cong [fundef_cong]:
  "xs = ys \<Longrightarrow> s = t \<Longrightarrow> (\<And>x u. x \<in> set ys \<Longrightarrow> f x u = g x u) \<Longrightarrow> rfold f xs s = rfold g ys t"
proof (induction xs arbitrary: ys s t)
  case (Cons x xs)
  have "rfold f xs u = rfold g xs u" for u using Cons by (intro Cons.IH) auto
  then have "rfold f xs = rfold g xs" by (rule ext)
  then show ?case using Cons.prems by auto
qed simp

lemma rfold_append: "rfold f (xs @ ys) s = rbind (rfold f xs s) (rfold f ys)"
proof (induction xs arbitrary: s)
  case (Cons x xs)
  then show ?case by (cases "f x s") simp_all
qed simp

text \<open>An invariant of a loop that ends without an error, and of one that never has an error.\<close>

lemma rfold_invariant:
  assumes "rfold f xs s = Inr t" "I s" "\<And>x s t. x \<in> set xs \<Longrightarrow> I s \<Longrightarrow> f x s = Inr t \<Longrightarrow> I t"
  shows "I t"
  using assms
proof (induction xs arbitrary: s)
  case (Cons x xs)
  then obtain s1 where "f x s = Inr s1" "rfold f xs s1 = Inr t" by (auto simp: rbind_eq_Inr_iff)
  with Cons show ?case by (metis list.set_intros(1,2))
qed simp

lemma rfold_total:
  assumes "\<And>x s. x \<in> set xs \<Longrightarrow> I s \<Longrightarrow> \<exists>s'. f x s = Inr s' \<and> I s'" "I s"
  shows "\<exists>s'. rfold f xs s = Inr s' \<and> I s'"
  using assms
proof (induction xs arbitrary: s)
  case (Cons x xs)
  obtain t where t: "f x s = Inr t" "I t" using Cons.prems by (meson list.set_intros(1))
  have "\<exists>s'. rfold f xs t = Inr s' \<and> I s'" using t(2) Cons.prems(1) by (intro Cons.IH) auto
  then show ?case using t(1) by simp
qed simp

section \<open>Chains of pointers\<close>

text \<open>
  \<open>chain_from nxt p xs\<close>: following the pointers \<open>nxt\<close> from \<open>p\<close> visits exactly the nodes
  \<open>xs\<close> and ends in a null pointer.
\<close>

fun chain_from :: "('p \<Rightarrow> 'p option) \<Rightarrow> 'p option \<Rightarrow> 'p list \<Rightarrow> bool" where
  "chain_from nxt p [] \<longleftrightarrow> p = None"
| "chain_from nxt p (x # xs) \<longleftrightarrow> p = Some x \<and> chain_from nxt (nxt x) xs"

lemma chain_from_None [simp, chain]: "chain_from nxt None xs \<longleftrightarrow> xs = []"
  by (cases xs) simp_all

lemma chain_from_Some [chain]:
  "chain_from nxt (Some x) xs \<longleftrightarrow> (\<exists>ys. xs = x # ys \<and> chain_from nxt (nxt x) ys)"
  by (cases xs) auto

lemma chain_from_unique: "chain_from nxt p xs \<Longrightarrow> chain_from nxt p ys \<Longrightarrow> xs = ys"
  by (induction xs arbitrary: p ys) (auto simp: chain)

lemma chain_from_upd [simp, chain]:
  "u \<notin> set xs \<Longrightarrow> chain_from (nxt(u := v)) p xs \<longleftrightarrow> chain_from nxt p xs"
  by (induction xs arbitrary: p) auto

lemma chain_from_cong:
  "(\<And>x. x \<in> set xs \<Longrightarrow> nxt x = nxt' x) \<Longrightarrow> chain_from nxt p xs \<longleftrightarrow> chain_from nxt' p xs"
  by (induction xs arbitrary: p) auto

section \<open>Arithmetic and lists\<close>

lemma mod_add_zero_unique:
  "(x + u) mod m = 0 \<Longrightarrow> (x + v) mod m = 0 \<Longrightarrow> u mod m = v mod m" for x u v m :: nat
proof (induction u v rule: linorder_wlog)
  case (le u v)
  then have "m dvd (x + v) - (x + u)" by (intro dvd_diff_nat) (simp_all add: mod_eq_0_iff_dvd)
  with le show ?case by (simp add: mod_eq_dvd_iff_nat [symmetric])
next
  case (sym u v)
  then show ?case by simp
qed

lemma mod_add_inj:
  "i < c \<Longrightarrow> j < c \<Longrightarrow> (h + i) mod c = (h + j) mod c \<longleftrightarrow> i = j" for h i j c :: nat
proof (induction i j rule: linorder_wlog)
  case (le i j)
  show ?case
  proof
    assume "(h + i) mod c = (h + j) mod c"
    then have "c dvd j - i" using le(1) by (metis add_diff_cancel_left add_le_cancel_left mod_eq_dvd_iff_nat)
    then show "i = j" using le by (auto dest: dvd_imp_le)
  qed simp
next
  case (sym i j)
  then show ?case by metis
qed

lemma drop_eq_nth_Cons: "i < length xs \<Longrightarrow> drop i xs = xs ! i # drop (Suc i) xs"
  by (simp add: Cons_nth_drop_Suc)

lemma take_Suc_nth: "i < length xs \<Longrightarrow> take (Suc i) xs = take i xs @ [xs ! i]"
  by (simp add: take_Suc_conv_app_nth)

end
