(* ===== verification/Checksum.thy ===== *)
theory Checksum
  imports Prelude
begin

unbundle bit_operations_syntax

text \<open>
  The one's-complement checksum of \<open>src/luaclib/common.c\<close>, at the widths of the C code: a
  32-bit accumulator over little-endian 16-bit words (a trailing odd byte counts as a word), the
  carries folded back until the sum fits in 16 bits, and the complement of the result. The
  packet writer of \<open>lua-util.c\<close> stores it in front of the data; the reader of
  \<open>lua-client.c\<close> accepts a packet whose checksum, stored sum included, is zero.
\<close>

section \<open>The code\<close>

text \<open>The accumulation: the loop over 16-bit words and the trailing byte.\<close>

fun checksum_add :: "bytes \<Rightarrow> 32 word \<Rightarrow> 32 word" where
  "checksum_add (a # b # addr) s = checksum_add addr (s + word_of_nat (le_val [a, b]))"
| "checksum_add [a] s = s + word_of_nat (unat a)"
| "checksum_add [] s = s"

lemma unat_drop_bit_16: "unat (drop_bit 16 s) = unat s div 65536" for s :: "32 word"
  by (simp add: unat_drop_bit_eq drop_bit_eq_div unat_div)

lemma unat_low_16: "unat (s AND 0xffff) = unat s mod 65536" for s :: "32 word"
proof -
  have "s AND 0xffff = take_bit 16 s" by (simp add: take_bit_eq_mask mask_numeral)
  then show ?thesis by (simp add: take_bit_eq_mod unat_mod)
qed

lemma checksum_fold_unat:
  "unat ((s AND 0xffff) + drop_bit 16 s) = unat s mod 65536 + unat s div 65536"
  for s :: "32 word"
proof -
  have "unat s < 4294967296" using unsigned_less [of s] by simp
  then have "unat s div 65536 < 65536" by (simp add: less_mult_imp_div_less)
  moreover have "unat s mod 65536 < 65536" by simp
  ultimately have "unat s mod 65536 + unat s div 65536 < 2 ^ LENGTH(32)" by simp
  then show ?thesis by (simp only: unat_word_ariths unat_low_16 unat_drop_bit_16) simp
qed

lemma drop_bit_16_eq_0_iff: "drop_bit 16 s = 0 \<longleftrightarrow> unat s < 65536" for s :: "32 word"
proof -
  have "drop_bit 16 s = 0 \<longleftrightarrow> unat (drop_bit 16 s) = 0"
    by (simp only: unsigned_eq_0_iff)
  then show ?thesis by (simp only: unat_drop_bit_16) (simp add: div_eq_0_iff)
qed

lemma fold_smaller: "65536 \<le> n \<Longrightarrow> n mod 65536 + n div 65536 < n" for n :: nat
proof -
  assume "65536 \<le> n"
  then have "0 < n div 65536" by (simp add: div_greater_zero_iff)
  then have "n div 65536 < 65536 * (n div 65536)" by simp
  then show ?thesis using div_mult_mod_eq [of n 65536] by linarith
qed

lemma fold_mod: "(n mod 65536 + n div 65536) mod 65535 = n mod 65535" for n :: nat
proof -
  have "n = 65535 * (n div 65536) + (n mod 65536 + n div 65536)"
    using div_mult_mod_eq [of n 65536] by linarith
  then show ?thesis by (metis mod_mult_self4)
qed

text \<open>\<open>while(sum >> 16) sum = (sum & 0xffff) + (sum >> 16)\<close>.\<close>

function checksum_fold :: "32 word \<Rightarrow> 32 word" where
  "checksum_fold s =
     (if drop_bit 16 s \<noteq> 0 then checksum_fold ((s AND 0xffff) + drop_bit 16 s) else s)"
  by pat_completeness auto
termination
proof (relation "measure unat")
  fix s :: "32 word"
  assume "drop_bit 16 s \<noteq> 0"
  then have "65536 \<le> unat s" by (simp add: drop_bit_16_eq_0_iff)
  then have "unat s mod 65536 + unat s div 65536 < unat s" by (rule fold_smaller)
  then show "((s AND 0xffff) + drop_bit 16 s, s) \<in> measure unat"
    by (simp add: checksum_fold_unat)
qed simp

definition checksum :: "bytes \<Rightarrow> 16 word" where
  "checksum addr = ucast (NOT (checksum_fold (checksum_add addr 0)))"

declare checksum_fold.simps [simp del]

section \<open>What the loops compute\<close>

text \<open>The sum of the 16-bit words as a natural number.\<close>

fun word_sum :: "bytes \<Rightarrow> nat" where
  "word_sum (a # b # addr) = le_val [a, b] + word_sum addr"
| "word_sum [a] = unat a"
| "word_sum [] = 0"

lemma le_val_pair_lt: "le_val [a, b] < 65536"
  using le_val_less [of "[a, b]"] by simp

lemma word_sum_bound: "2 * word_sum bs \<le> 65535 * Suc (length bs)"
proof (induction bs rule: word_sum.induct)
  case (1 a b addr)
  then show ?case using le_val_pair_lt [of a b] by simp
next
  case (2 a)
  then show ?case using unat_byte_lt [of a] by (simp del: unat_byte_lt)
qed simp

lemma unat_add_of_nat:
  "unat s + n < 2 ^ LENGTH('a) \<Longrightarrow> unat (s + word_of_nat n) = unat s + n" for s :: "'a::len word"
  by (simp add: unat_word_ariths(1) unat_of_nat mod_add_right_eq)

lemma checksum_add_no_overflow:
  "unat s + word_sum bs < 2 ^ 32 \<Longrightarrow> unat (checksum_add bs s) = unat s + word_sum bs"
proof (induction bs s rule: checksum_add.induct)
  case (1 a b addr s)
  have "unat s + le_val [a, b] < 2 ^ LENGTH(32)"
    using "1.prems" by simp
  then have "unat (s + word_of_nat (le_val [a, b])) = unat s + le_val [a, b]"
    by (rule unat_add_of_nat)
  with 1 show ?case by simp
next
  case (2 a s)
  then have "unat s + unat a < 2 ^ LENGTH(32)" by simp
  then show ?case by (simp only: checksum_add.simps word_sum.simps unat_add_of_nat)
qed simp

text \<open>Folding keeps the value modulo 65535, ends below 65536 and reaches 0 only from 0.\<close>

lemma checksum_fold_spec:
  "unat (checksum_fold s) < 65536 \<and> unat (checksum_fold s) mod 65535 = unat s mod 65535
   \<and> (unat (checksum_fold s) = 0 \<longleftrightarrow> unat s = 0)"
proof (induction s rule: checksum_fold.induct)
  case (1 s)
  show ?case
  proof (cases "drop_bit 16 s = 0")
    case True
    then show ?thesis by (simp add: checksum_fold.simps drop_bit_16_eq_0_iff)
  next
    case False
    let ?s = "unat s mod 65536 + unat s div 65536"
    have "?s mod 65535 = unat s mod 65535" by (rule fold_mod)
    moreover have "?s = 0 \<longleftrightarrow> unat s = 0"
      using False by (auto simp: drop_bit_16_eq_0_iff div_greater_zero_iff)
    ultimately show ?thesis
      using "1.IH" False checksum_fold.simps [of s] by (simp add: checksum_fold_unat)
  qed
qed

lemma unat_checksum: "unat (checksum bs) = 65535 - unat (checksum_fold (checksum_add bs 0))"
proof -
  let ?f = "checksum_fold (checksum_add bs 0)"
  have lt: "unat ?f < 65536" using checksum_fold_spec by blast
  have "NOT ?f = - 1 - ?f" by (simp add: not_eq_complement)
  moreover have "unat (- 1 - ?f) = unat (- 1 :: 32 word) - unat ?f"
    by (rule unat_sub) simp
  ultimately have "unat (NOT ?f) = 4294967295 - unat ?f"
    by (simp add: unsigned_minus_1_eq_mask mask_eq_exp_minus_1)
  moreover have "(4294967295 - unat ?f) mod 65536 = 65535 - unat ?f"
  proof -
    have "4294967295 - unat ?f = 65535 * 65536 + (65535 - unat ?f)" using lt by simp
    then show ?thesis by (simp only: mod_mult_self3) simp
  qed
  ultimately show ?thesis
    by (simp add: checksum_def unsigned_ucast_eq take_bit_eq_mod)
qed

section \<open>Properties\<close>

lemma checksum_zero_iff:
  assumes "length bs \<le> 131072"
  shows "checksum bs = 0 \<longleftrightarrow> 0 < word_sum bs \<and> 65535 dvd word_sum bs"
proof -
  let ?f = "unat (checksum_fold (checksum_add bs 0))"
  have "2 * word_sum bs \<le> 65535 * Suc 131072"
    using word_sum_bound [of bs] assms by (meson Suc_le_mono le_trans mult_le_mono2)
  then have sum: "unat (checksum_add bs 0) = word_sum bs"
    using checksum_add_no_overflow [of 0 bs] by simp
  have f: "?f < 65536" "?f mod 65535 = word_sum bs mod 65535" "?f = 0 \<longleftrightarrow> word_sum bs = 0"
    using checksum_fold_spec [of "checksum_add bs 0"] by (simp_all add: sum)
  have "checksum bs = 0 \<longleftrightarrow> ?f = 65535"
    using f(1) unat_checksum [of bs] unsigned_eq_0_iff [of "checksum bs"] by auto
  also have "\<dots> \<longleftrightarrow> ?f \<noteq> 0 \<and> ?f mod 65535 = 0"
    using f(1) by (auto simp: mod_eq_0_iff_dvd elim!: dvdE) 
  finally show ?thesis using f(2,3) by (auto simp: dvd_eq_mod_eq_0)
qed

lemma checksum_verifies_aux:
  assumes "length data \<le> 131068"
  shows "checksum (le_bytes 2 (unat (checksum data)) @ data) = 0"
proof -
  let ?f = "unat (checksum_fold (checksum_add data 0))"
  have "2 * word_sum data \<le> 65535 * Suc 131068"
    using word_sum_bound [of data] assms by (meson Suc_le_mono le_trans mult_le_mono2)
  then have sum: "unat (checksum_add data 0) = word_sum data"
    using checksum_add_no_overflow [of 0 data] by simp
  have f: "?f < 65536" "?f mod 65535 = word_sum data mod 65535" "?f = 0 \<longleftrightarrow> word_sum data = 0"
    using checksum_fold_spec [of "checksum_add data 0"] by (simp_all add: sum)
  have ws: "word_sum (le_bytes 2 v @ data) = v + word_sum data" if "v < 65536" for v
  proof -
    have "le_bytes 2 v @ data = word_of_nat v # word_of_nat (v div 256) # data"
      by (simp add: numeral_2_eq_2)
    moreover have "le_val [word_of_nat v, word_of_nat (v div 256)] = v"
      using that le_val_le_bytes [of 2 v] by (simp add: numeral_2_eq_2)
    ultimately show ?thesis by (simp only: word_sum.simps)
  qed
  have c: "unat (checksum data) = 65535 - ?f" by (rule unat_checksum)
  have "?f \<le> 65535" using f(1) by simp
  have "(65535 - ?f + word_sum data) mod 65535 = (65535 - ?f + ?f) mod 65535"
    using f(2) by (metis mod_add_right_eq)
  then have "65535 dvd 65535 - ?f + word_sum data"
    using f(1) by (simp add: dvd_eq_mod_eq_0)
  moreover have "0 < 65535 - ?f + word_sum data"
    using f(1,3) by (cases "word_sum data = 0") auto
  ultimately show ?thesis
    using assms c by (subst checksum_zero_iff) (simp_all add: ws)
qed

text \<open>
  C19. The stored checksum makes a packet verify: for any data of at most 131068 bytes,
  the checksum of the two little-endian bytes of \<open>checksum data\<close> followed by the data is 0,
  which is what the packet reader tests.
\<close>

theorem checksum_verifies:
  assumes "length data \<le> 131068"
  shows "checksum (le_bytes 2 (unat (checksum data)) @ data) = 0"
  using assms by (rule checksum_verifies_aux)

theorem checksum_verifies_witness:
  "length [1 :: byte, 2, 3] \<le> 131068
   \<and> checksum (le_bytes 2 (unat (checksum [1, 2, 3])) @ [1, 2, 3]) = 0"
  using checksum_verifies [of "[1, 2, 3]"] by simp

text \<open>
  C24. A packet in which one aligned 16-bit word has been altered is rejected, unless the alteration
  exchanges 0x0000 and 0xffff (the two representations of zero in one's complement): if the packet
  verifies and the word \<open>a, b\<close> at an even offset becomes \<open>a', b'\<close>, with values that differ
  modulo 65535, the altered packet does not verify.
\<close>

theorem checksum_detects_word_change:
  assumes "length pre + length post \<le> 131070" "even (length pre)"
    and "checksum (pre @ [a, b] @ post) = 0"
    and "le_val [a, b] mod 65535 \<noteq> le_val [a', b'] mod 65535"
  shows "checksum (pre @ [a', b'] @ post) \<noteq> 0"
proof -
  have split: "word_sum (pre @ [x, y] @ post) = word_sum pre + (le_val [x, y] + word_sum post)" for x y
    using assms(2) by (induction pre rule: word_sum.induct) simp_all
  have "(word_sum pre + (le_val [a, b] + word_sum post)) mod 65535 = 0"
    using assms(1,3) by (subst (asm) checksum_zero_iff) (simp_all only: split dvd_eq_mod_eq_0, simp_all)
  then have "(word_sum pre + (le_val [a', b'] + word_sum post)) mod 65535 \<noteq> 0"
    using assms(4) mod_add_zero_unique
      [of "word_sum pre + word_sum post" "le_val [a, b]" 65535 "le_val [a', b']"]
    by (auto simp only: ac_simps)
  then show ?thesis
    using assms(1) by (subst checksum_zero_iff) (simp_all only: split dvd_eq_mod_eq_0, simp_all)
qed

theorem checksum_detects_word_change_witness:
  "checksum (le_bytes 2 (unat (checksum [1, 2])) @ [1, 2] @ []) = 0
   \<and> checksum (le_bytes 2 (unat (checksum [1, 2])) @ [1, 3] @ []) \<noteq> 0"
proof -
  let ?pre = "le_bytes 2 (unat (checksum [1, 2]))"
  have ok: "checksum (?pre @ [1, 2] @ []) = 0"
    using checksum_verifies_aux [of "[1, 2]"] by simp
  have "le_val [1, 2] mod 65535 \<noteq> le_val [1, 3] mod 65535" by simp
  from checksum_detects_word_change [OF _ _ ok this] ok show ?thesis by simp
qed

end
