(* ===== verification/Packet.thy ===== *)
theory Packet
  imports Checksum
begin

text \<open>
  The packets between a game client and the server: the client's writer and reader
  (\<open>lpacket_new\<close>, \<open>lpacket_pack\<close> and \<open>lpacket_unpack\<close> of \<open>src/luaclib/lua-util.c\<close>) and the
  deciphering loop of the server's reader (\<open>read_complete\<close> of \<open>lua-client.c\<close>). A packet is the
  total length, then, masked by a running one-byte seed, the checksum, the order number, the message
  id and the payload.
\<close>

section \<open>The code\<close>

record packet =
  rseed :: byte
  rorder :: "16 word"
  wseed :: byte
  worder :: "16 word"

definition lpacket_new :: packet where
  "lpacket_new = \<lparr>rseed = 0, rorder = 0, wseed = 0, worder = 0\<rparr>"

text \<open>The loop of \<open>lpacket_pack\<close>: each byte is masked, then the plain byte is added to the seed.\<close>

fun mask_bytes :: "byte \<Rightarrow> bytes \<Rightarrow> bytes \<times> byte" where
  "mask_bytes sd [] = ([], sd)"
| "mask_bytes sd (b # bs) = (case mask_bytes (sd + b) bs of (out, sd') \<Rightarrow> ((b XOR sd) # out, sd'))"

text \<open>The loop of \<open>read_complete\<close>: the unmasked byte is added to the seed.\<close>

fun unmask_bytes :: "byte \<Rightarrow> bytes \<Rightarrow> bytes \<times> byte" where
  "unmask_bytes sd [] = ([], sd)"
| "unmask_bytes sd (c # cs) =
     (let b = c XOR sd in case unmask_bytes (sd + b) cs of (out, sd') \<Rightarrow> (b # out, sd'))"

text \<open>\<open>memcpy\<close> of the first two bytes of the length and of the ids keeps their low 16 bits.\<close>

definition lpacket_pack :: "packet \<Rightarrow> 32 word \<Rightarrow> bytes \<Rightarrow> bytes \<times> packet" where
  "lpacket_pack p mid payload =
     (let tot = length payload + 8;
          body = le_bytes 2 (unat (worder p)) @ le_bytes 2 (unat mid) @ payload;
          sm = checksum body;
          masked = mask_bytes (wseed p) (le_bytes 2 (unat sm) @ body)
      in (le_bytes 2 tot @ fst masked, p\<lparr>worder := worder p + 1, wseed := snd masked\<rparr>))"

text \<open>The reader of the client: id, payload and payload size; \<open>None\<close> is a read past the data.\<close>

definition lpacket_unpack :: "bytes \<Rightarrow> (16 word \<times> bytes) option" where
  "lpacket_unpack payload =
     (if length payload < 2 then None
      else Some (word_of_nat (le_val (take 2 payload)), drop 2 payload))"

section \<open>Lemmas\<close>

lemma unmask_mask [simp]:
  "unmask_bytes sd (fst (mask_bytes sd bs)) = (bs, snd (mask_bytes sd bs))"
proof (induction bs arbitrary: sd)
  case (Cons b bs)
  have x: "(b XOR sd) XOR sd = b" by (simp add: xor.assoc)
  show ?case using Cons [of "sd + b"] by (simp add: split_beta Let_def x)
qed simp

lemma length_mask [simp]: "length (fst (mask_bytes sd bs)) = length bs"
  by (induction sd bs rule: mask_bytes.induct) (auto simp: split_beta)

lemma length_unmask [simp]: "length (fst (unmask_bytes sd bs)) = length bs"
  by (induction sd bs rule: unmask_bytes.induct) (auto simp: split_beta Let_def)

text \<open>The plain text of a packet: what the masking covers.\<close>

definition packet_plain :: "packet \<Rightarrow> 32 word \<Rightarrow> bytes \<Rightarrow> bytes" where
  "packet_plain p mid payload =
     (let body = le_bytes 2 (unat (worder p)) @ le_bytes 2 (unat mid) @ payload
      in le_bytes 2 (unat (checksum body)) @ body)"

lemma length_packet_plain [simp]: "length (packet_plain p mid payload) = length payload + 6"
  by (simp add: packet_plain_def Let_def)

lemma lpacket_pack_plain:
  "lpacket_pack p mid payload =
     (le_bytes 2 (length payload + 8) @ fst (mask_bytes (wseed p) (packet_plain p mid payload)),
      p\<lparr>worder := worder p + 1, wseed := snd (mask_bytes (wseed p) (packet_plain p mid payload))\<rparr>)"
  by (simp add: lpacket_pack_def packet_plain_def Let_def)

lemma checksum_packet_plain:
  "length payload \<le> 65527 \<Longrightarrow> checksum (packet_plain p mid payload) = 0"
  unfolding packet_plain_def Let_def by (intro checksum_verifies_aux) simp

lemma packet_plain_fields [codec]:
  "word_of_nat (le_val (take 2 (drop 2 (packet_plain p mid payload)))) = worder p"
  "word_of_nat (le_val (take 2 (drop 4 (packet_plain p mid payload)))) = (ucast mid :: 16 word)"
  "drop 6 (packet_plain p mid payload) = payload"
proof -
  have "take 2 (drop 2 (packet_plain p mid payload)) = le_bytes 2 (unat (worder p))"
    by (simp add: packet_plain_def Let_def)
  then show "word_of_nat (le_val (take 2 (drop 2 (packet_plain p mid payload)))) = worder p"
    by (simp only: le_val_word16)
  have "unat mid mod 256 ^ 2 = unat (ucast mid :: 16 word)"
    by (simp add: unsigned_ucast_eq take_bit_eq_mod)
  then show "word_of_nat (le_val (take 2 (drop 4 (packet_plain p mid payload)))) = (ucast mid :: 16 word)"
    by (simp add: packet_plain_def Let_def codec)
  show "drop 6 (packet_plain p mid payload) = payload"
    by (simp add: packet_plain_def Let_def)
qed

end
