(* ===== verification/Floats.thy ===== *)
theory Floats
  imports Prelude
begin

text \<open>
  The IEEE floating-point arithmetic of the C code, on bit patterns: \<open>float\<close> is a 32-bit word and
  \<open>double\<close> a 64-bit word, rounding is to the nearest with ties to even. The results that are not
  numbers all have one pattern. A conversion to \<open>int\<close> that is out of range gives the smallest
  \<open>int\<close>, as the machine instruction does.
\<close>

section \<open>Formats\<close>

text \<open>
  A floating-point format has \<open>p\<close> fraction bits and \<open>e\<close> exponent bits. A finite pattern denotes
  \<open>(-1)^sign * m * 2^x\<close>.
\<close>

datatype fp_class = FP_finite bool nat int | FP_inf bool | FP_nan bool nat

definition fp_decode :: "nat \<Rightarrow> nat \<Rightarrow> nat \<Rightarrow> fp_class" where
  "fp_decode p e b =
     (let f = b mod 2 ^ p; x = b div 2 ^ p mod 2 ^ e; s = (b div 2 ^ (p + e) mod 2 = 1);
          bias = 2 ^ (e - 1) - 1 + int p
      in if x = 2 ^ e - 1 then (if f = 0 then FP_inf s else FP_nan s f)
         else if x = 0 then FP_finite s f (1 - bias)
         else FP_finite s (f + 2 ^ p) (int x - bias))"

fun bit_length :: "nat \<Rightarrow> nat" where
  "bit_length n = (if n = 0 then 0 else Suc (bit_length (n div 2)))"

declare bit_length.simps [simp del]

text \<open>Division rounding to the nearest, ties to even.\<close>

definition round_div :: "nat \<Rightarrow> nat \<Rightarrow> nat" where
  "round_div m d =
     (let q = m div d; r = m mod d
      in if 2 * r > d \<or> (2 * r = d \<and> odd q) then Suc q else q)"

text \<open>The pattern nearest to \<open>(-1)^s * m * 2^x\<close>, infinity on overflow.\<close>

definition fp_encode :: "nat \<Rightarrow> nat \<Rightarrow> bool \<Rightarrow> nat \<Rightarrow> int \<Rightarrow> nat" where
  "fp_encode p e s m x =
     (let bias = 2 ^ (e - 1) - 1; sign = (if s then 2 ^ (p + e) else 0)
      in if m = 0 then sign
         else (let q = max (x + int (bit_length m) - 1 - int p) (1 - bias - int p);
                   n = (if x \<ge> q then m * 2 ^ nat (x - q) else round_div m (2 ^ nat (q - x)));
                   n' = (if n = 2 ^ (p + 1) then 2 ^ p else n);
                   q' = (if n = 2 ^ (p + 1) then q + 1 else q);
                   field = nat (q' + int p + bias)
               in if n' < 2 ^ p then sign + n'
                  else if field \<ge> 2 ^ e - 1 then sign + (2 ^ e - 1) * 2 ^ p
                  else sign + field * 2 ^ p + (n' - 2 ^ p)))"

text \<open>The C conversions between \<open>double\<close>, \<open>float\<close> and 64-bit integers.\<close>

definition double_to_float :: "64 word \<Rightarrow> 32 word" where
  "double_to_float d =
     (case fp_decode 52 11 (unat d) of
        FP_finite s m x \<Rightarrow> word_of_nat (fp_encode 23 8 s m x)
      | FP_inf s \<Rightarrow> word_of_nat ((if s then 2 ^ 31 else 0) + 255 * 2 ^ 23)
      | FP_nan s f \<Rightarrow> word_of_nat ((if s then 2 ^ 31 else 0) + 255 * 2 ^ 23 + 2 ^ 22 + f div 2 ^ 29 mod 2 ^ 22))"

definition float_to_double :: "32 word \<Rightarrow> 64 word" where
  "float_to_double d =
     (case fp_decode 23 8 (unat d) of
        FP_finite s m x \<Rightarrow> word_of_nat (fp_encode 52 11 s m x)
      | FP_inf s \<Rightarrow> word_of_nat ((if s then 2 ^ 63 else 0) + 2047 * 2 ^ 52)
      | FP_nan s f \<Rightarrow> word_of_nat ((if s then 2 ^ 63 else 0) + 2047 * 2 ^ 52 + 2 ^ 51 + f mod 2 ^ 22 * 2 ^ 29))"

definition int_to_double :: "64 word \<Rightarrow> 64 word" where
  "int_to_double i = word_of_nat (fp_encode 52 11 (sint i < 0) (nat \<bar>sint i\<bar>) 0)"

text \<open>An integer when the float has an exact integer value in range.\<close>

definition double_to_int :: "64 word \<Rightarrow> 64 word option" where
  "double_to_int d =
     (case fp_decode 52 11 (unat d) of
        FP_finite s m x \<Rightarrow>
          if x < 0 \<and> m mod 2 ^ nat (- x) \<noteq> 0 then None
          else (let n = (if x < 0 then m div 2 ^ nat (- x) else m * 2 ^ nat x);
                    v = (if s then - int n else int n)
                in if - (2 ^ 63) \<le> v \<and> v < 2 ^ 63 then Some (word_of_int v) else None)
      | _ \<Rightarrow> None)"

section \<open>Arithmetic\<close>

definition fp_quiet_nan :: "nat \<Rightarrow> nat \<Rightarrow> nat" where
  "fp_quiet_nan p e = (2 ^ e - 1) * 2 ^ p + 2 ^ (p - 1)"

definition fp_infinite :: "nat \<Rightarrow> nat \<Rightarrow> bool \<Rightarrow> nat" where
  "fp_infinite p e s = (if s then 2 ^ (p + e) else 0) + (2 ^ e - 1) * 2 ^ p"

text \<open>The pattern of an integer multiple of a power of two, with the sign of a zero given.\<close>

definition fp_round :: "nat \<Rightarrow> nat \<Rightarrow> bool \<Rightarrow> int \<Rightarrow> int \<Rightarrow> nat" where
  "fp_round p e zs v x = (if v = 0 then fp_encode p e zs 0 x else fp_encode p e (v < 0) (nat \<bar>v\<bar>) x)"

definition signed_mant :: "bool \<Rightarrow> nat \<Rightarrow> int" where
  "signed_mant s m = (if s then - int m else int m)"

definition fp_add :: "nat \<Rightarrow> nat \<Rightarrow> nat \<Rightarrow> nat \<Rightarrow> nat" where
  "fp_add p e a b =
     (case (fp_decode p e a, fp_decode p e b) of
        (FP_finite s m x, FP_finite t n y) \<Rightarrow>
          (let z = min x y
           in fp_round p e (s \<and> t) (signed_mant s m * 2 ^ nat (x - z) + signed_mant t n * 2 ^ nat (y - z)) z)
      | (FP_inf s, FP_finite t n y) \<Rightarrow> fp_infinite p e s
      | (FP_finite s m x, FP_inf t) \<Rightarrow> fp_infinite p e t
      | (FP_inf s, FP_inf t) \<Rightarrow> if s = t then fp_infinite p e s else fp_quiet_nan p e
      | _ \<Rightarrow> fp_quiet_nan p e)"

definition fp_mul :: "nat \<Rightarrow> nat \<Rightarrow> nat \<Rightarrow> nat \<Rightarrow> nat" where
  "fp_mul p e a b =
     (case (fp_decode p e a, fp_decode p e b) of
        (FP_finite s m x, FP_finite t n y) \<Rightarrow> fp_encode p e (s \<noteq> t) (m * n) (x + y)
      | (FP_inf s, FP_finite t n y) \<Rightarrow> if n = 0 then fp_quiet_nan p e else fp_infinite p e (s \<noteq> t)
      | (FP_finite s m x, FP_inf t) \<Rightarrow> if m = 0 then fp_quiet_nan p e else fp_infinite p e (s \<noteq> t)
      | (FP_inf s, FP_inf t) \<Rightarrow> fp_infinite p e (s \<noteq> t)
      | _ \<Rightarrow> fp_quiet_nan p e)"

text \<open>The quotient with enough bits and a last bit that tells whether there is a remainder.\<close>

definition fp_div :: "nat \<Rightarrow> nat \<Rightarrow> nat \<Rightarrow> nat \<Rightarrow> nat" where
  "fp_div p e a b =
     (case (fp_decode p e a, fp_decode p e b) of
        (FP_finite s m x, FP_finite t n y) \<Rightarrow>
          if n = 0 then (if m = 0 then fp_quiet_nan p e else fp_infinite p e (s \<noteq> t))
          else (let k = p + 3 + bit_length n; q = m * 2 ^ k div n; r = m * 2 ^ k mod n
                in fp_encode p e (s \<noteq> t) (2 * q + (if r = 0 then 0 else 1)) (x - y - int k - 1))
      | (FP_inf s, FP_finite t n y) \<Rightarrow> fp_infinite p e (s \<noteq> t)
      | (FP_finite s m x, FP_inf t) \<Rightarrow> fp_encode p e (s \<noteq> t) 0 0
      | _ \<Rightarrow> fp_quiet_nan p e)"

definition fp_neg :: "nat \<Rightarrow> nat \<Rightarrow> nat \<Rightarrow> nat" where
  "fp_neg p e a = (if a div 2 ^ (p + e) mod 2 = 1 then a - 2 ^ (p + e) else a + 2 ^ (p + e))"

fun fp_less :: "fp_class \<Rightarrow> fp_class \<Rightarrow> bool" where
  "fp_less (FP_finite s m x) (FP_finite t n y) \<longleftrightarrow>
     (let z = min x y in signed_mant s m * 2 ^ nat (x - z) < signed_mant t n * 2 ^ nat (y - z))"
| "fp_less (FP_inf s) (FP_finite t n y) \<longleftrightarrow> s"
| "fp_less (FP_finite s m x) (FP_inf t) \<longleftrightarrow> \<not> t"
| "fp_less (FP_inf s) (FP_inf t) \<longleftrightarrow> s \<and> \<not> t"
| "fp_less a b \<longleftrightarrow> False"

fun fp_equal :: "fp_class \<Rightarrow> fp_class \<Rightarrow> bool" where
  "fp_equal (FP_finite s m x) (FP_finite t n y) \<longleftrightarrow>
     (let z = min x y in signed_mant s m * 2 ^ nat (x - z) = signed_mant t n * 2 ^ nat (y - z))"
| "fp_equal (FP_inf s) (FP_inf t) \<longleftrightarrow> s = t"
| "fp_equal a b \<longleftrightarrow> False"

section \<open>The type float\<close>

type_synonym cfloat = "32 word"

definition float_class :: "cfloat \<Rightarrow> fp_class" where
  "float_class a = fp_decode 23 8 (unat a)"

definition float_add :: "cfloat \<Rightarrow> cfloat \<Rightarrow> cfloat" where
  "float_add a b = word_of_nat (fp_add 23 8 (unat a) (unat b))"

definition float_sub :: "cfloat \<Rightarrow> cfloat \<Rightarrow> cfloat" where
  "float_sub a b = word_of_nat (fp_add 23 8 (unat a) (fp_neg 23 8 (unat b)))"

definition float_mul :: "cfloat \<Rightarrow> cfloat \<Rightarrow> cfloat" where
  "float_mul a b = word_of_nat (fp_mul 23 8 (unat a) (unat b))"

definition float_div :: "cfloat \<Rightarrow> cfloat \<Rightarrow> cfloat" where
  "float_div a b = word_of_nat (fp_div 23 8 (unat a) (unat b))"

definition float_less :: "cfloat \<Rightarrow> cfloat \<Rightarrow> bool" where
  "float_less a b = fp_less (float_class a) (float_class b)"

definition float_eq :: "cfloat \<Rightarrow> cfloat \<Rightarrow> bool" where
  "float_eq a b = fp_equal (float_class a) (float_class b)"

definition float_le :: "cfloat \<Rightarrow> cfloat \<Rightarrow> bool" where
  "float_le a b \<longleftrightarrow> float_less a b \<or> float_eq a b"

definition int_to_float :: "int \<Rightarrow> cfloat" where
  "int_to_float i = word_of_nat (fp_round 23 8 False i 0)"

definition float_to_int :: "cfloat \<Rightarrow> int" where
  "float_to_int a =
     (case float_class a of
        FP_finite s m x \<Rightarrow>
          (let n = (if x < 0 then m div 2 ^ nat (- x) else m * 2 ^ nat x); v = signed_mant s n
           in if - (2 ^ 31) \<le> v \<and> v < 2 ^ 31 then v else - (2 ^ 31))
      | _ \<Rightarrow> - (2 ^ 31))"

section \<open>The type double\<close>

type_synonym cdouble = "64 word"

definition double_class :: "cdouble \<Rightarrow> fp_class" where
  "double_class a = fp_decode 52 11 (unat a)"

definition double_sub :: "cdouble \<Rightarrow> cdouble \<Rightarrow> cdouble" where
  "double_sub a b = word_of_nat (fp_add 52 11 (unat a) (fp_neg 52 11 (unat b)))"

definition double_less :: "cdouble \<Rightarrow> cdouble \<Rightarrow> bool" where
  "double_less a b = fp_less (double_class a) (double_class b)"

definition double_eq :: "cdouble \<Rightarrow> cdouble \<Rightarrow> bool" where
  "double_eq a b = fp_equal (double_class a) (double_class b)"

end
