(* ===== verification/Socket_Event.thy ===== *)
theory Socket_Event
  imports Prelude "HOL-Library.Sublist"
begin

text \<open>
  The buffered socket session of \<open>src/luaclib/socket_event.c\<close>, with \<open>socket_write\<close> of
  \<open>socket_util.c\<close>. A session keeps a chain of input buffers and a chain of output buffers; the
  chains are lists, in the order of the next pointers, whose last element is what the tail pointer
  names. A buffer holds the bytes that have been written into it (\<open>db_data\<close>, of length
  \<open>wpos\<close>); its unread part starts at \<open>rpos\<close>.

  The system calls \<open>read\<close> and \<open>write\<close> are parameters: each handler takes the list of results
  the kernel gives to the calls it makes, in order, and \<open>None\<close> means that the list was too short,
  an assertion failed, a null pointer was followed or the value of an \<open>int\<close> overflowed.
  Every handler calls a user callback at most once and as its last action; it returns the callback
  to be called. The watchers of libev are reduced to whether they are active.

  The counter \<open>total\<close> is the 32-bit word of the code. Positions and sizes of a buffer are natural
  numbers: \<open>queue_output\<close> refuses a size that an \<open>int\<close> does not hold, input buffers are at most
  \<open>MAX_BUFFER_SIZE\<close> bytes, and every run of a session keeps them in the range of an \<open>int\<close>.
  The sum of position and length in the copy loop of \<open>ev_session_read\<close> is exact: it can leave that
  range only when a single read takes nearly 2 GiB.
\<close>

section \<open>Data\<close>

definition MIN_BUFFER_SIZE :: nat where
  "MIN_BUFFER_SIZE = 256"

definition MAX_BUFFER_SIZE :: nat where
  "MAX_BUFFER_SIZE = 1024 * 1024"

record data_buffer =
  db_data :: bytes
  db_size :: nat
  wpos :: nat
  rpos :: nat

record ev_buffer =
  chunks :: "data_buffer list"
  total :: "32 word"

text \<open>The reclaimed buffer headers kept by the loop: only their number matters.\<close>

record ev_loop_ctx =
  freelist_len :: nat

record 'cb ev_session =
  fd :: int
  alive :: bool
  sess_threshold :: nat
  in_buf :: ev_buffer
  out_buf :: ev_buffer
  rio_active :: bool
  wio_active :: bool
  read_cb :: "'cb option"
  write_cb :: "'cb option"
  event_cb :: "'cb option"

text \<open>Results of the system calls. \<open>Sent n\<close>: the kernel accepts at most \<open>n\<close> of the bytes offered.\<close>

datatype read_result = Received bytes | Read_eof | Read_again | Read_intr | Read_failed | Read_no_errno
datatype write_result = Sent nat | Write_again | Write_intr | Write_failed

section \<open>Buffers\<close>

definition buffer_next :: "ev_loop_ctx \<Rightarrow> data_buffer \<times> ev_loop_ctx" where
  "buffer_next lc =
     (\<lparr>db_data = [], db_size = 0, wpos = 0, rpos = 0\<rparr>, lc\<lparr>freelist_len := freelist_len lc - 1\<rparr>)"

definition buffer_reclaim :: "ev_loop_ctx \<Rightarrow> ev_loop_ctx" where
  "buffer_reclaim lc = lc\<lparr>freelist_len := Suc (freelist_len lc)\<rparr>"

definition buffer_append :: "ev_buffer \<Rightarrow> data_buffer \<Rightarrow> ev_buffer option" where
  "buffer_append b db =
     (let sz = int (wpos db) - int (rpos db)
      in if fits_int (sint (total b) + sz)
         then Some (b\<lparr>total := total b + word_of_int sz, chunks := chunks b @ [db]\<rparr>) else None)"

definition buffer_release :: "ev_buffer \<Rightarrow> ev_buffer" where
  "buffer_release b = b\<lparr>chunks := []\<rparr>"

definition loop_ctx_clean :: "ev_loop_ctx \<Rightarrow> ev_loop_ctx" where
  "loop_ctx_clean lc = lc\<lparr>freelist_len := 0\<rparr>"

section \<open>Life cycle of a session\<close>

definition ev_session_bind :: "int \<Rightarrow> 'cb ev_session" where
  "ev_session_bind f =
     \<lparr>fd = f, alive = True, sess_threshold = MIN_BUFFER_SIZE, in_buf = \<lparr>chunks = [], total = 0\<rparr>,
      out_buf = \<lparr>chunks = [], total = 0\<rparr>, rio_active = False, wio_active = False,
      read_cb = None, write_cb = None, event_cb = None\<rparr>"

datatype connect_status = CONNECTED | CONNECTING | CONNECT_FAIL

text \<open>The parameter is the pair that \<open>socket_connect\<close> gives: descriptor and completion flag.\<close>

definition ev_session_connect :: "int \<times> bool \<Rightarrow> 'cb ev_session option \<times> connect_status" where
  "ev_session_connect r =
     (case r of (f, result) \<Rightarrow>
        if f < 0 then (None, CONNECT_FAIL)
        else (Some (ev_session_bind f), if result then CONNECTED else CONNECTING))"

definition ev_session_setcb ::
  "'cb ev_session \<Rightarrow> 'cb option \<Rightarrow> 'cb option \<Rightarrow> 'cb option \<Rightarrow> 'cb ev_session" where
  "ev_session_setcb s r w e = s\<lparr>read_cb := r, write_cb := w, event_cb := e\<rparr>"

text \<open>\<open>ev\<close> as the pair of its bits \<open>EV_READ\<close>, \<open>EV_WRITE\<close>; starting an active watcher is skipped.\<close>

definition ev_session_enable :: "'cb ev_session \<Rightarrow> bool \<times> bool \<Rightarrow> 'cb ev_session" where
  "ev_session_enable s ev =
     s\<lparr>rio_active := rio_active s \<or> fst ev, wio_active := wio_active s \<or> snd ev\<rparr>"

definition ev_session_disable :: "'cb ev_session \<Rightarrow> bool \<times> bool \<Rightarrow> 'cb ev_session" where
  "ev_session_disable s ev =
     s\<lparr>rio_active := rio_active s \<and> \<not> fst ev, wio_active := wio_active s \<and> \<not> snd ev\<rparr>"

definition ev_session_free :: "'cb ev_session \<Rightarrow> 'cb ev_session" where
  "ev_session_free s =
     (let s = ev_session_disable (s\<lparr>alive := False\<rparr>) (True, True)
      in s\<lparr>in_buf := buffer_release (in_buf s), out_buf := buffer_release (out_buf s)\<rparr>)"

definition ev_session_input_size :: "'cb ev_session \<Rightarrow> int" where
  "ev_session_input_size s = sint (total (in_buf s))"

definition ev_session_output_size :: "'cb ev_session \<Rightarrow> int" where
  "ev_session_output_size s = sint (total (out_buf s))"

text \<open>The common failure path: both watchers off, the session dead, the event callback due.\<close>

definition session_fail :: "'cb ev_session \<Rightarrow> 'cb ev_session \<times> 'cb option" where
  "session_fail s = ((ev_session_disable s (True, True))\<lparr>alive := False\<rparr>, event_cb s)"

section \<open>Input\<close>

text \<open>
  The loop of \<open>_ev_read_cb\<close> around \<open>read\<close>: the flag \<open>fail\<close>, the buffer and the adapted
  threshold. An error return with \<open>errno\<close> zero is the failed assertion.
\<close>

definition adapt_threshold :: "data_buffer \<Rightarrow> nat \<Rightarrow> nat" where
  "adapt_threshold rdb thr =
     (if wpos rdb = db_size rdb
      then (if thr * 2 > MAX_BUFFER_SIZE then MAX_BUFFER_SIZE else thr * 2)
      else (if thr div 2 < MIN_BUFFER_SIZE then MIN_BUFFER_SIZE else thr div 2))"

fun read_loop :: "read_result list \<Rightarrow> data_buffer \<Rightarrow> nat \<Rightarrow> (bool \<times> data_buffer \<times> nat) option" where
  "read_loop [] rdb thr = None"
| "read_loop (Read_intr # rs) rdb thr = read_loop rs rdb thr"
| "read_loop (Read_again # rs) rdb thr = Some (False, rdb, thr)"
| "read_loop (Read_failed # rs) rdb thr = Some (True, rdb, thr)"
| "read_loop (Read_no_errno # rs) rdb thr = None"
| "read_loop (Read_eof # rs) rdb thr = Some (True, rdb, thr)"
| "read_loop (Received bs # rs) rdb thr =
     (let rdb = rdb\<lparr>db_data := db_data rdb @ bs, wpos := wpos rdb + length bs\<rparr>
      in Some (False, rdb, adapt_threshold rdb thr))"

definition ev_read_cb ::
  "ev_loop_ctx \<Rightarrow> 'cb ev_session \<Rightarrow> read_result list \<Rightarrow> (ev_loop_ctx \<times> 'cb ev_session \<times> 'cb option) option" where
  "ev_read_cb lc s rs =
     (case buffer_next lc of (rdb, lc) \<Rightarrow>
      case read_loop rs (rdb\<lparr>db_size := sess_threshold s\<rparr>) (sess_threshold s) of
        None \<Rightarrow> None
      | Some (fail, rdb, thr) \<Rightarrow>
          (case buffer_append (in_buf s) rdb of
             None \<Rightarrow> None
           | Some b \<Rightarrow>
               (let s = s\<lparr>sess_threshold := thr, in_buf := b\<rparr>
                in if fail then (case session_fail s of (s, cb) \<Rightarrow> Some (lc, s, cb))
                   else Some (lc, s, read_cb s))))"

text \<open>
  \<open>check_eol\<close>: does the separator start at position \<open>i\<close> of the first buffer? It may continue
  in the following buffers, which are compared from their first byte.
\<close>

fun check_eol :: "data_buffer list \<Rightarrow> nat \<Rightarrow> bytes \<Rightarrow> bool" where
  "check_eol [] i sep = False"
| "check_eol (db # dbs) i sep =
     (let sz = wpos db - i
      in if sz \<ge> length sep then take (length sep) (drop i (db_data db)) = sep
         else if sz > 0 \<and> take sz (drop i (db_data db)) \<noteq> take sz sep then False
         else check_eol dbs 0 (drop sz sep))"

text \<open>The two loops of \<open>search_eol\<close>; the result \<open>-1\<close> is "not found".\<close>

function search_from :: "data_buffer list \<Rightarrow> nat \<Rightarrow> nat \<Rightarrow> bytes \<Rightarrow> int" where
  "search_from [] i offset sep = -1"
| "search_from (db # dbs) i offset sep =
     (if i < wpos db
      then if check_eol (db # dbs) i sep then int offset + int (length sep)
           else search_from (db # dbs) (Suc i) (Suc offset) sep
      else case dbs of [] \<Rightarrow> -1 | d # _ \<Rightarrow> search_from dbs (rpos d) offset sep)"
  by pat_completeness auto
termination
  by (relation "measures [\<lambda>(dbs, i, offset, sep). length dbs,
        \<lambda>(dbs, i, offset, sep). case dbs of [] \<Rightarrow> 0 | db # _ \<Rightarrow> wpos db - i]") auto

declare search_from.simps [simp del]

definition search_eol :: "'cb ev_session \<Rightarrow> bytes \<Rightarrow> int" where
  "search_eol s sep =
     (case chunks (in_buf s) of [] \<Rightarrow> -1 | d # _ \<Rightarrow> search_from (chunks (in_buf s)) (rpos d) 0 sep)"

text \<open>
  The copy loop of \<open>ev_session_read\<close>: the bytes copied, the remaining chain and the number of
  reclaimed buffers. \<open>None\<close> is a dereference of the null head or the failed assertion.
\<close>

fun read_need :: "nat \<Rightarrow> data_buffer list \<Rightarrow> nat \<Rightarrow> (bytes \<times> data_buffer list \<times> nat) option" where
  "read_need need dbs freed =
     (if need = 0 then Some ([], dbs, freed)
      else case dbs of
        [] \<Rightarrow> None
      | rdb # rest \<Rightarrow>
          if rpos rdb + need < wpos rdb
          then Some (take need (drop (rpos rdb) (db_data rdb)), rdb\<lparr>rpos := rpos rdb + need\<rparr> # rest, freed)
          else (let left = wpos rdb - rpos rdb
                in if rest = [] \<and> need - left \<noteq> 0 then None
                   else map_option (\<lambda>(out, dbs, freed). (take left (drop (rpos rdb) (db_data rdb)) @ out, dbs, freed))
                          (read_need (need - left) rest (Suc freed))))"

declare read_need.simps [simp del]

definition ev_session_read ::
  "ev_loop_ctx \<Rightarrow> 'cb ev_session \<Rightarrow> nat \<Rightarrow> (bytes \<times> ev_loop_ctx \<times> 'cb ev_session) option" where
  "ev_session_read lc s size0 =
     (let size1 = (if int size0 > sint (total (in_buf s)) then nat (sint (total (in_buf s))) else size0)
      in case read_need size1 (chunks (in_buf s)) 0 of
           None \<Rightarrow> None
         | Some (out, dbs, freed) \<Rightarrow>
             Some (out, (buffer_reclaim ^^ freed) lc,
                   s\<lparr>in_buf := \<lparr>chunks = dbs, total = total (in_buf s) - word_of_int (int size1)\<rparr>\<rparr>))"

text \<open>\<open>Some None\<close> is the null result: no separator in the input.\<close>

definition ev_session_read_util ::
  "ev_loop_ctx \<Rightarrow> 'cb ev_session \<Rightarrow> bytes \<Rightarrow> (bytes option \<times> ev_loop_ctx \<times> 'cb ev_session) option" where
  "ev_session_read_util lc s sep =
     (let offset = search_eol s sep
      in if offset < 0 then Some (None, lc, s)
         else map_option (\<lambda>(out, lc, s). (Some out, lc, s)) (ev_session_read lc s (nat offset)))"

section \<open>Output\<close>

text \<open>
  \<open>socket_write\<close>: the result, the bytes the kernel accepted and the unused kernel results. A
  \<open>write\<close> that returns 0 is treated as an error.
\<close>

fun socket_write :: "bytes \<Rightarrow> int \<Rightarrow> write_result list \<Rightarrow> (int \<times> bytes \<times> write_result list) option" where
  "socket_write out tot [] = None"
| "socket_write out tot (Write_intr # ws) = socket_write out tot ws"
| "socket_write out tot (Write_again # ws) = Some (tot, [], ws)"
| "socket_write out tot (Write_failed # ws) = Some (-1, [], ws)"
| "socket_write out tot (Sent n # ws) =
     (let sz = min n (length out)
      in if sz = 0 then Some (-1, [], ws)
         else if \<not> fits_int (tot + int sz) then None
         else if drop sz out = [] then Some (tot + int sz, take sz out, ws)
         else map_option (\<lambda>(r, sent, ws). (r, take sz out @ sent, ws))
                (socket_write (drop sz out) (tot + int sz) ws))"

datatype flush = Flush_failed | Flush_partial | Flush_done

text \<open>The loop of \<open>_ev_write_cb\<close> over the output chain.\<close>

fun write_loop :: "ev_buffer \<Rightarrow> ev_loop_ctx \<Rightarrow> data_buffer list \<Rightarrow> write_result list
    \<Rightarrow> (flush \<times> ev_buffer \<times> ev_loop_ctx \<times> bytes \<times> write_result list) option" where
  "write_loop b lc [] ws = Some (Flush_done, b\<lparr>chunks := []\<rparr>, lc, [], ws)"
| "write_loop b lc (wdb # rest) ws =
     (let left = int (wpos wdb) - int (rpos wdb)
      in case socket_write (drop (rpos wdb) (db_data wdb)) 0 ws of
           None \<Rightarrow> None
         | Some (tot, sent, ws) \<Rightarrow>
             if tot < 0 then Some (Flush_failed, b\<lparr>chunks := wdb # rest\<rparr>, lc, sent, ws)
             else (let b = b\<lparr>total := total b - word_of_int tot\<rparr>
                   in if tot = left
                      then map_option (\<lambda>(f, b, lc, sent', ws). (f, b, lc, sent @ sent', ws))
                             (write_loop b (buffer_reclaim lc) rest ws)
                      else Some (Flush_partial,
                             b\<lparr>chunks := wdb\<lparr>rpos := rpos wdb + nat tot\<rparr> # rest\<rparr>, lc, sent, ws)))"

text \<open>\<open>None\<close> covers the failed assertion that nothing is left after draining the chain.\<close>

definition ev_write_cb ::
  "ev_loop_ctx \<Rightarrow> 'cb ev_session \<Rightarrow> write_result list
   \<Rightarrow> (ev_loop_ctx \<times> 'cb ev_session \<times> 'cb option \<times> bytes \<times> write_result list) option" where
  "ev_write_cb lc s ws =
     (case write_loop (out_buf s) lc (chunks (out_buf s)) ws of
        None \<Rightarrow> None
      | Some (f, b, lc, sent, ws) \<Rightarrow>
          (let s = s\<lparr>out_buf := b\<rparr>
           in case f of
                Flush_failed \<Rightarrow> (case session_fail s of (s, cb) \<Rightarrow> Some (lc, s, cb, sent, ws))
              | Flush_partial \<Rightarrow> Some (lc, s, None, sent, ws)
              | Flush_done \<Rightarrow>
                  (let s = ev_session_disable s (False, True)
                   in if total (out_buf s) \<noteq> 0 then None else Some (lc, s, write_cb s, sent, ws))))"

text \<open>The size is stored in an \<open>int\<close>.\<close>

definition queue_output ::
  "ev_loop_ctx \<Rightarrow> 'cb ev_session \<Rightarrow> bytes \<Rightarrow> nat \<Rightarrow> (ev_loop_ctx \<times> 'cb ev_session) option" where
  "queue_output lc s out pos =
     (if \<not> fits_int (int (length out)) then None
      else case buffer_next lc of (wdb, lc) \<Rightarrow>
        map_option (\<lambda>b. (lc, s\<lparr>out_buf := b\<rparr>))
          (buffer_append (out_buf s)
             (wdb\<lparr>db_data := out, rpos := pos, wpos := length out, db_size := length out\<rparr>)))"

definition ev_session_write ::
  "ev_loop_ctx \<Rightarrow> 'cb ev_session \<Rightarrow> bytes \<Rightarrow> write_result list
   \<Rightarrow> (int \<times> ev_loop_ctx \<times> 'cb ev_session \<times> 'cb option \<times> bytes \<times> write_result list) option" where
  "ev_session_write lc s out ws =
     (if \<not> alive s then Some (-1, lc, s, None, [], ws)
      else if \<not> wio_active s
      then case socket_write out 0 ws of
             None \<Rightarrow> None
           | Some (tot, sent, ws) \<Rightarrow>
               if tot < 0 then (case session_fail s of (s, cb) \<Rightarrow> Some (-1, lc, s, cb, sent, ws))
               else if tot = int (length out) then Some (tot, lc, s, write_cb s, sent, ws)
               else (case queue_output lc s out (nat tot) of
                       None \<Rightarrow> None
                     | Some (lc, s) \<Rightarrow> Some (tot, lc, s\<lparr>wio_active := True\<rparr>, None, sent, ws))
      else (case queue_output lc s out 0 of
              None \<Rightarrow> None
            | Some (lc, s) \<Rightarrow> Some (0, lc, s, None, [], ws)))"


section \<open>Contents and invariants\<close>

definition unread :: "data_buffer \<Rightarrow> bytes" where
  "unread db = drop (rpos db) (db_data db)"

definition chain_bytes :: "data_buffer list \<Rightarrow> bytes" where
  "chain_bytes dbs = concat (map unread dbs)"

abbreviation content :: "ev_buffer \<Rightarrow> bytes" where
  "content b \<equiv> chain_bytes (chunks b)"

definition chunk_ok :: "data_buffer \<Rightarrow> bool" where
  "chunk_ok db \<longleftrightarrow> rpos db \<le> wpos db \<and> length (db_data db) = wpos db \<and> wpos db \<le> db_size db"

definition buffer_inv :: "ev_buffer \<Rightarrow> bool" where
  "buffer_inv b \<longleftrightarrow> list_all chunk_ok (chunks b) \<and> sint (total b) = int (length (content b))"

text \<open>In the input chain only the first buffer has been read from.\<close>

definition input_inv :: "ev_buffer \<Rightarrow> bool" where
  "input_inv b \<longleftrightarrow> buffer_inv b \<and> list_all (\<lambda>db. rpos db = 0) (tl (chunks b))"

definition session_inv :: "'cb ev_session \<Rightarrow> bool" where
  "session_inv s \<longleftrightarrow> input_inv (in_buf s) \<and> buffer_inv (out_buf s)
     \<and> MIN_BUFFER_SIZE \<le> sess_threshold s \<and> sess_threshold s \<le> MAX_BUFFER_SIZE
     \<and> (alive s \<and> chunks (out_buf s) \<noteq> [] \<longrightarrow> wio_active s)"

lemma chain_bytes_simps [simp]:
  "chain_bytes [] = []"
  "chain_bytes (db # dbs) = unread db @ chain_bytes dbs"
  "chain_bytes (xs @ ys) = chain_bytes xs @ chain_bytes ys"
  by (simp_all add: chain_bytes_def)

lemma length_unread [simp]: "chunk_ok db \<Longrightarrow> length (unread db) = wpos db - rpos db"
  by (simp add: unread_def chunk_ok_def)

lemma buffer_append_inv:
  assumes "buffer_inv b" "chunk_ok db" "buffer_append b db = Some b'"
  shows "buffer_inv b'" and "content b' = content b @ unread db"
    and "set (chunks b') = insert db (set (chunks b))"
proof -
  let ?sz = "int (wpos db) - int (rpos db)"
  have b: "fits_int (sint (total b) + ?sz)" "b' = b\<lparr>total := total b + word_of_int ?sz, chunks := chunks b @ [db]\<rparr>"
    using assms(3) by (auto simp: buffer_append_def Let_def split: if_splits)
  then show "buffer_inv b'" "content b' = content b @ unread db" "set (chunks b') = insert db (set (chunks b))"
    using assms(1,2) sint_add_word [OF b(1)] by (auto simp: buffer_inv_def chunk_ok_def simp del: of_int_diff)
qed

lemma input_append_inv:
  assumes "input_inv b" "chunk_ok db" "rpos db = 0" "buffer_append b db = Some b'"
  shows "input_inv b'"
proof -
  have "chunks b' = chunks b @ [db]" using assms(4) by (auto simp: buffer_append_def Let_def split: if_splits)
  then show ?thesis using assms buffer_append_inv(1) [of b db b'] by (cases "chunks b") (auto simp: input_inv_def)
qed

section \<open>Reading\<close>

lemma read_need_spec:
  assumes "list_all chunk_ok dbs" "list_all (\<lambda>db. rpos db = 0) (tl dbs)"
    and "need \<le> length (chain_bytes dbs)"
  shows "\<exists>dbs' f. read_need need dbs freed = Some (take need (chain_bytes dbs), dbs', f)
      \<and> chain_bytes dbs' = drop need (chain_bytes dbs)
      \<and> list_all chunk_ok dbs' \<and> list_all (\<lambda>db. rpos db = 0) (tl dbs')"
  using assms
proof (induction dbs arbitrary: need freed)
  case Nil
  then show ?case by (simp add: read_need.simps)
next
  case (Cons rdb rest)
  note ok = Cons.prems
  have u: "length (unread rdb) = wpos rdb - rpos rdb" "rpos rdb \<le> wpos rdb"
    "length (db_data rdb) = wpos rdb"
    using ok(1) by (auto simp: chunk_ok_def unread_def)
  consider (zero) "need = 0" | (part) "need > 0" "rpos rdb + need < wpos rdb"
    | (whole) "need > 0" "\<not> rpos rdb + need < wpos rdb" by linarith
  then show ?case
  proof cases
    case zero
    then show ?thesis using ok by (simp add: read_need.simps)
  next
    case part
    then show ?thesis using ok u
      by (auto simp: read_need.simps unread_def chunk_ok_def add.commute)
  next
    case whole
    let ?left = "wpos rdb - rpos rdb"
    have rest: "list_all chunk_ok rest" "list_all (\<lambda>db. rpos db = 0) (tl rest)"
      "need - ?left \<le> length (chain_bytes rest)"
      using ok u by (auto simp: list_all_length nth_tl)
    obtain dbs' f where IH: "read_need (need - ?left) rest (Suc freed) =
        Some (take (need - ?left) (chain_bytes rest), dbs', f)"
      "chain_bytes dbs' = drop (need - ?left) (chain_bytes rest)"
      "list_all chunk_ok dbs'" "list_all (\<lambda>db. rpos db = 0) (tl dbs')"
      using Cons.IH [OF rest] by blast
    have last: "\<not> (rest = [] \<and> need - ?left \<noteq> 0)" using rest(3) by auto
    have "take ?left (drop (rpos rdb) (db_data rdb)) = unread rdb"
      using u by (simp add: unread_def)
    with whole last IH u show ?thesis
      by (subst read_need.simps) (auto simp: Let_def)
  qed
qed

lemma ev_session_read_spec:
  assumes "input_inv (in_buf s)"
  shows "\<exists>lc' b. ev_session_read lc s n = Some (take n (content (in_buf s)), lc', s\<lparr>in_buf := b\<rparr>)
      \<and> content b = drop n (content (in_buf s)) \<and> input_inv b"
proof -
  let ?C = "content (in_buf s)"
  let ?n = "if int n > sint (total (in_buf s)) then nat (sint (total (in_buf s))) else n"
  have inv: "list_all chunk_ok (chunks (in_buf s))" "sint (total (in_buf s)) = int (length ?C)"
    "list_all (\<lambda>db. rpos db = 0) (tl (chunks (in_buf s)))"
    using assms by (auto simp: input_inv_def buffer_inv_def)
  have n: "?n = min n (length ?C)" using inv(2) by auto
  obtain dbs f where r: "read_need ?n (chunks (in_buf s)) 0 = Some (take ?n ?C, dbs, f)"
    "chain_bytes dbs = drop ?n ?C" "list_all chunk_ok dbs" "list_all (\<lambda>db. rpos db = 0) (tl dbs)"
    using read_need_spec [OF inv(1,3), of ?n 0] n by auto
  have tot: "sint (total (in_buf s) - word_of_int (int ?n)) = int (length ?C) - int ?n"
    using sint_sub_word [of "total (in_buf s)" "int ?n"] sint_fits [of "total (in_buf s)"] unfolding inv(2) n by (simp add: fits_int_def)
  have "take ?n ?C = take n ?C" "drop ?n ?C = drop n ?C" by (auto simp: n min_def)
  then show ?thesis using r tot n
    by (auto simp: ev_session_read_def Let_def input_inv_def buffer_inv_def)
qed

lemma prefix_append_cases:
  "prefix sep (xs @ ys) \<longleftrightarrow>
     (if length sep \<le> length xs then take (length sep) xs = sep
      else take (length xs) sep = xs \<and> prefix (drop (length xs) sep) ys)"
proof (cases "length sep \<le> length xs")
  case True
  have "prefix sep (xs @ ys) \<longleftrightarrow> take (length sep) (xs @ ys) = sep"
    by (metis append_eq_conv_conj append_take_drop_id prefix_def)
  with True show ?thesis by simp
next
  case False
  have "prefix sep (xs @ ys) \<longleftrightarrow> prefix (take (length xs) sep @ drop (length xs) sep) (xs @ ys)" by simp
  also have "\<dots> \<longleftrightarrow> take (length xs) sep = xs \<and> prefix (drop (length xs) sep) ys"
    using False unfolding prefix_def by (auto simp del: append_take_drop_id)
  finally show ?thesis using False by simp
qed

lemma check_eol_spec:
  assumes "list_all chunk_ok (db # dbs)" "list_all (\<lambda>db. rpos db = 0) dbs" "i \<le> wpos db" "sep \<noteq> []"
  shows "check_eol (db # dbs) i sep \<longleftrightarrow> prefix sep (drop i (db_data db) @ chain_bytes dbs)"
  using assms
proof (induction dbs arbitrary: db i sep)
  case Nil
  then have len: "length (drop i (db_data db)) = wpos db - i" by (auto simp: chunk_ok_def)
  have "drop (wpos db - i) sep \<noteq> []" if "\<not> length sep \<le> wpos db - i" using that by simp
  then show ?case unfolding prefix_append_cases len by (auto simp: Let_def)
next
  case (Cons d dbs)
  let ?sz = "wpos db - i"
  have len: "length (drop i (db_data db)) = ?sz" using Cons.prems by (auto simp: chunk_ok_def)
  have IH: "check_eol (d # dbs) 0 (drop ?sz sep) \<longleftrightarrow> prefix (drop ?sz sep) (chain_bytes (d # dbs))"
    if "\<not> length sep \<le> ?sz"
    using Cons.prems that Cons.IH [of d 0 "drop ?sz sep"] by (simp add: unread_def)
  have "take ?sz (drop i (db_data db)) = drop i (db_data db)" using len by simp
  then show ?case unfolding prefix_append_cases [of sep "drop i (db_data db)"] len
    using IH by (subst check_eol.simps) (auto simp: Let_def)
qed

text \<open>Reference search: the index of the first occurrence of the separator.\<close>

fun find_sep :: "bytes \<Rightarrow> bytes \<Rightarrow> nat option" where
  "find_sep sep [] = None"
| "find_sep sep (x # xs) = (if prefix sep (x # xs) then Some 0 else map_option Suc (find_sep sep xs))"

lemma find_sep_None: "sep \<noteq> [] \<Longrightarrow> find_sep sep xs = None \<longleftrightarrow> \<not> sublist sep xs"
  by (induction xs) (auto simp: sublist_Cons_right)

lemma find_sep_Some:
  "find_sep sep xs = Some k \<Longrightarrow> prefix sep (drop k xs) \<and> k \<le> length xs \<and> (\<forall>j < k. \<not> prefix sep (drop j xs))"
proof (induction xs arbitrary: k)
  case (Cons x xs)
  show ?case
  proof (cases "prefix sep (x # xs)")
    case False
    then obtain k' where k: "find_sep sep xs = Some k'" "k = Suc k'" using Cons.prems by auto
    have "\<not> prefix sep (drop j (x # xs))" if "j < k" for j
      using Cons.IH [OF k(1)] False that k(2) by (cases j) auto
    then show ?thesis using Cons.IH [OF k(1)] k(2) by auto
  qed (use Cons.prems in auto)
qed simp

definition found :: "nat \<Rightarrow> bytes \<Rightarrow> nat option \<Rightarrow> int" where
  "found offset sep r = (case r of None \<Rightarrow> -1 | Some k \<Rightarrow> int (offset + k) + int (length sep))"

lemma search_from_spec:
  assumes "list_all chunk_ok (db # dbs)" "list_all (\<lambda>db. rpos db = 0) dbs" "i \<le> wpos db" "sep \<noteq> []"
  shows "search_from (db # dbs) i offset sep =
           found offset sep (find_sep sep (drop i (db_data db) @ chain_bytes dbs))"
  using assms
proof (induction "db # dbs" i offset sep arbitrary: db dbs rule: search_from.induct)
  case (2 db dbs i offset sep)
  have len: "length (db_data db) = wpos db" using 2(3) by (simp add: chunk_ok_def)
  show ?case
  proof (cases "i < wpos db")
    case True
    then have split: "drop i (db_data db) = db_data db ! i # drop (Suc i) (db_data db)"
      using len by (metis Cons_nth_drop_Suc)
    have eol: "check_eol (db # dbs) i sep \<longleftrightarrow> prefix sep (drop i (db_data db) @ chain_bytes dbs)"
      using 2(3-6) by (intro check_eol_spec) auto
    show ?thesis
    proof (cases "check_eol (db # dbs) i sep")
      case True
      with eol \<open>i < wpos db\<close> show ?thesis by (simp add: search_from.simps(2) [of db dbs i] split found_def)
    next
      case False
      then have "search_from (db # dbs) (Suc i) (Suc offset) sep =
          found (Suc offset) sep (find_sep sep (drop (Suc i) (db_data db) @ chain_bytes dbs))"
        using 2(1) \<open>i < wpos db\<close> 2(3-6) by auto
      with False eol \<open>i < wpos db\<close> show ?thesis
        by (subst search_from.simps) (simp add: split found_def split: option.split)
    qed
  next
    case False
    show ?thesis
    proof (cases dbs)
      case Nil
      then show ?thesis using False len by (simp add: search_from.simps found_def)
    next
      case (Cons d ds)
      then have "search_from (d # ds) (rpos d) offset sep =
          found offset sep (find_sep sep (drop (rpos d) (db_data d) @ chain_bytes ds))"
        using 2(2) False 2(3-6) by (auto simp: chunk_ok_def)
      then show ?thesis using False len Cons by (subst search_from.simps) (simp add: unread_def)
    qed
  qed
qed

lemma search_eol_spec:
  assumes "input_inv (in_buf s)" "sep \<noteq> []"
  shows "search_eol s sep = found 0 sep (find_sep sep (content (in_buf s)))"
proof (cases "chunks (in_buf s)")
  case Nil
  then show ?thesis by (simp add: search_eol_def found_def)
next
  case (Cons d ds)
  then have "search_from (d # ds) (rpos d) 0 sep = found 0 sep (find_sep sep (drop (rpos d) (db_data d) @ chain_bytes ds))"
    using assms by (intro search_from_spec) (auto simp: input_inv_def buffer_inv_def chunk_ok_def)
  then show ?thesis using Cons by (simp add: search_eol_def unread_def)
qed

text \<open>A prefix of the content that ends in the separator ends no earlier than its first occurrence.\<close>

lemma first_line:
  assumes "find_sep sep C = Some k" "sep \<noteq> []"
  shows "suffix sep (take (k + length sep) C)"
    and "\<And>p. strict_prefix p (take (k + length sep) C) \<Longrightarrow> \<not> suffix sep p"
proof -
  have k: "prefix sep (drop k C)" "k \<le> length C" "\<forall>j<k. \<not> prefix sep (drop j C)"
    using find_sep_Some [OF assms(1)] by auto
  then obtain r where r: "drop k C = sep @ r" by (auto simp: prefix_def)
  have C: "C = take k C @ sep @ r" by (metis append_take_drop_id r)
  have line: "take (k + length sep) C = take k C @ sep"
    using k(2) by (subst C) simp
  then show "suffix sep (take (k + length sep) C)" by (simp add: suffix_def)
  fix p assume p: "strict_prefix p (take (k + length sep) C)"
  show "\<not> suffix sep p"
  proof
    assume "suffix sep p"
    then obtain q where q: "p = q @ sep" by (auto simp: suffix_def)
    have "length p < k + length sep"
      using prefix_length_less [OF p] by simp
    then have "length q < k" using q by simp
    moreover have "prefix p C" using p line
      by (metis C append_assoc prefix_def prefix_order.less_imp_le prefix_order.trans)
    then have "prefix sep (drop (length q) C)" using q by (auto simp: prefix_def)
    ultimately show False using k(3) by blast
  qed
qed

section \<open>Writing\<close>

lemma socket_write_spec:
  assumes "socket_write out tot ws = Some (r, sent, ws')" "tot \<ge> 0"
  shows "prefix sent out \<and> (r = -1 \<or> r = tot + int (length sent))"
  using assms
proof (induction out tot ws arbitrary: r sent ws' rule: socket_write.induct)
  case (5 out tot n ws)
  let ?sz = "min n (length out)"
  show ?case
  proof (cases "?sz = 0 \<or> drop ?sz out = []")
    case True
    then show ?thesis using 5(2) by (auto simp: Let_def split: if_splits)
  next
    case False
    then obtain sent' where s: "socket_write (drop ?sz out) (tot + int ?sz) ws = Some (r, sent', ws')"
      "sent = take ?sz out @ sent'"
      using 5(2) by (auto simp: Let_def split: if_splits)
    then have IH: "prefix sent' (drop ?sz out)" "r = -1 \<or> r = tot + int ?sz + int (length sent')"
      using 5(1) [OF refl _ _ _ s(1)] 5(2) False 5(3) by (auto simp: Let_def split: if_splits)
    have "prefix (take ?sz out @ sent') (take ?sz out @ drop ?sz out)"
      using IH(1) by (subst same_prefix_prefix)
    then show ?thesis using IH(2) s(2) by auto
  qed
qed auto

lemma write_loop_spec:
  assumes "write_loop b lc dbs ws = Some (f, b', lc', sent, ws')"
    and "list_all chunk_ok dbs" "sint (total b) = int (length (chain_bytes dbs))"
  shows "prefix sent (chain_bytes dbs)
      \<and> (f \<noteq> Flush_failed \<longrightarrow> sent @ content b' = chain_bytes dbs)
      \<and> (f = Flush_done \<longrightarrow> chunks b' = []) \<and> (f = Flush_partial \<longrightarrow> chunks b' \<noteq> [])
      \<and> buffer_inv b'"
  using assms
proof (induction dbs arbitrary: b lc ws f b' lc' sent ws')
  case Nil
  then show ?case by (auto simp: buffer_inv_def)
next
  case (Cons wdb rest)
  obtain tot sent1 ws1 where w: "socket_write (unread wdb) 0 ws = Some (tot, sent1, ws1)"
    using Cons.prems(1) by (auto simp: Let_def unread_def split: option.splits)
  have ok: "chunk_ok wdb" "rpos wdb \<le> wpos wdb" "length (db_data wdb) = wpos wdb"
    "length (unread wdb) = wpos wdb - rpos wdb"
    using Cons.prems(2) by (auto simp: chunk_ok_def unread_def)
  have sp: "prefix sent1 (unread wdb)" "tot = -1 \<or> tot = int (length sent1)"
    using socket_write_spec [OF w] by auto
  have w': "socket_write (drop (rpos wdb) (db_data wdb)) 0 ws = Some (tot, sent1, ws1)"
    using w by (simp add: unread_def)
  consider (fail) "tot < 0" | (all) "tot \<ge> 0" "tot = int (wpos wdb) - int (rpos wdb)"
    | (part) "tot \<ge> 0" "tot \<noteq> int (wpos wdb) - int (rpos wdb)" by linarith
  then show ?case
  proof cases
    case fail
    then show ?thesis using Cons.prems w' sp by (auto simp: buffer_inv_def)
  next
    case all
    then have "length sent1 = length (unread wdb)" using sp(2) ok(2,4) by linarith
    then have full: "sent1 = unread wdb"
      using sp(1) by (auto simp: prefix_def)
    have tot: "sint (total b - word_of_int tot) = int (length (chain_bytes rest))"
      using sint_sub_word [of "total b" tot] sint_fits [of "total b"] Cons.prems(3) all ok by (simp add: fits_int_def of_nat_diff)
    obtain sent2 where r: "write_loop (b\<lparr>total := total b - word_of_int tot\<rparr>) (buffer_reclaim lc) rest ws1 = Some (f, b', lc', sent2, ws')"
      "sent = sent1 @ sent2"
      using Cons.prems(1) all w' by auto
    show ?thesis using Cons.IH [OF r(1)] Cons.prems(2) r(2) full tot by auto
  next
    case part
    have eq: "f = Flush_partial" "sent = sent1" "total b' = total b - word_of_int tot"
      "chunks b' = wdb\<lparr>rpos := rpos wdb + nat tot\<rparr> # rest"
      using Cons.prems(1) part w' by auto
    have l: "tot = int (length sent1)" "unread wdb = sent1 @ drop (length sent1) (unread wdb)"
      "length sent1 \<le> length (unread wdb)"
      using sp part by (auto simp: prefix_def)
    have u: "unread (wdb\<lparr>rpos := rpos wdb + nat tot\<rparr>) = drop (length sent1) (unread wdb)"
      using l(1) by (simp add: unread_def add.commute)
    have "chunk_ok (wdb\<lparr>rpos := rpos wdb + nat tot\<rparr>)" using ok l by (auto simp: chunk_ok_def)
    moreover have "sint (total b - word_of_int tot) = sint (total b) - tot"
      using sint_fits [of "total b"] Cons.prems(3) l by (intro sint_sub_word) (simp add: fits_int_def)
    ultimately show ?thesis using eq u l sp(1) ok Cons.prems(2,3)
      by (auto simp: buffer_inv_def)
  qed
qed

text \<open>The assertion of \<open>_ev_write_cb\<close> never fires, and what a flush does to a session.\<close>

lemma ev_write_cb_spec:
  assumes "buffer_inv (out_buf s)"
  shows "ev_write_cb lc s ws = None \<longleftrightarrow> write_loop (out_buf s) lc (chunks (out_buf s)) ws = None"
    and "ev_write_cb lc s ws = Some (lc', s', cb, sent, ws') \<Longrightarrow>
           prefix sent (content (out_buf s)) \<and> buffer_inv (out_buf s') \<and> in_buf s' = in_buf s
           \<and> sess_threshold s' = sess_threshold s \<and> (alive s' \<longrightarrow> alive s)
           \<and> (alive s' \<longrightarrow> sent @ content (out_buf s') = content (out_buf s)
                \<and> (chunks (out_buf s') \<noteq> [] \<longrightarrow> wio_active s' = wio_active s))"
proof -
  have inv: "list_all chunk_ok (chunks (out_buf s))" "sint (total (out_buf s)) = int (length (content (out_buf s)))"
    using assms by (auto simp: buffer_inv_def)
  note spec = write_loop_spec [OF _ inv]
  have tot: "total b = 0" if "write_loop (out_buf s) lc (chunks (out_buf s)) ws = Some (Flush_done, b, lc', sent, ws')"
    for b lc' sent ws'
    using spec [OF that] by (auto simp: buffer_inv_def dest: word_of_sint)
  show "ev_write_cb lc s ws = None \<longleftrightarrow> write_loop (out_buf s) lc (chunks (out_buf s)) ws = None"
    using tot by (auto simp: ev_write_cb_def session_fail_def ev_session_disable_def Let_def
        split: option.splits flush.splits)
  assume "ev_write_cb lc s ws = Some (lc', s', cb, sent, ws')"
  then show "prefix sent (content (out_buf s)) \<and> buffer_inv (out_buf s') \<and> in_buf s' = in_buf s
           \<and> sess_threshold s' = sess_threshold s \<and> (alive s' \<longrightarrow> alive s)
           \<and> (alive s' \<longrightarrow> sent @ content (out_buf s') = content (out_buf s)
                \<and> (chunks (out_buf s') \<noteq> [] \<longrightarrow> wio_active s' = wio_active s))"
    by (auto simp: ev_write_cb_def session_fail_def ev_session_disable_def Let_def
        split: option.splits flush.splits if_splits dest!: spec)
qed

lemma queue_output_spec:
  assumes "buffer_inv (out_buf s)" "queue_output lc s out pos = Some (lc', s')" "pos \<le> length out"
  shows "\<exists>b. s' = s\<lparr>out_buf := b\<rparr> \<and> buffer_inv b \<and> content b = content (out_buf s) @ drop pos out"
proof -
  let ?wdb = "\<lparr>db_data = out, db_size = length out, wpos = length out, rpos = pos\<rparr>"
  have "chunk_ok ?wdb" "unread ?wdb = drop pos out"
    using assms(3) by (auto simp: chunk_ok_def unread_def)
  then show ?thesis using assms(2) buffer_append_inv(1,2) [OF assms(1)]
    by (auto simp: queue_output_def buffer_next_def split: if_splits)
qed

lemma ev_session_write_spec:
  assumes "session_inv s" "ev_session_write lc s out ws = Some (r, lc', s', cb, sent, ws')"
  shows "session_inv s' \<and> (alive s' \<longrightarrow> alive s)
    \<and> (if \<not> alive s then sent = [] \<and> s' = s \<and> r = -1
       else if \<not> alive s' then r = -1 \<and> prefix (sent) (content (out_buf s) @ out)
              \<and> content (out_buf s) = []
       else sent @ content (out_buf s') = content (out_buf s) @ out)"
proof (cases "alive s \<and> \<not> wio_active s")
  case True
  then have e: "chunks (out_buf s) = []" using assms(1) by (auto simp: session_inv_def)
  obtain tot ws1 where w: "socket_write out 0 ws = Some (tot, sent, ws1)"
    using assms(2) True by (auto simp: ev_session_write_def session_fail_def split: option.splits if_splits prod.splits)
  have sp: "prefix sent out" "tot = -1 \<or> tot = int (length sent)" using socket_write_spec [OF w] by auto
  have le: "length sent \<le> length out" using sp(1) by (rule prefix_length_le)
  consider "tot < 0" | "tot \<ge> 0" "tot = int (length out)" | "tot \<ge> 0" "tot \<noteq> int (length out)" by linarith
  then show ?thesis
  proof cases
    case 1
    then show ?thesis using assms w True e sp
      by (auto simp: ev_session_write_def session_fail_def ev_session_disable_def session_inv_def)
  next
    case 2
    then have "sent = out" using sp by (auto simp: prefix_def)
    then show ?thesis using 2 assms w True e by (auto simp: ev_session_write_def)
  next
    case 3
    have d: "nat tot = length sent" "sent @ drop (length sent) out = out" using 3 sp by (auto simp: prefix_def)
    obtain lc1 s1 where q: "queue_output lc s out (nat tot) = Some (lc1, s1)"
      using 3 assms(2) w True by (auto simp: ev_session_write_def split: option.splits)
    obtain b where b: "s1 = s\<lparr>out_buf := b\<rparr>" "buffer_inv b" "content b = drop (nat tot) out"
      using queue_output_spec [OF _ q] assms(1) e d le by (auto simp: session_inv_def)
    then have "s' = s\<lparr>out_buf := b, wio_active := True\<rparr>"
      using 3 assms(2) w True q by (auto simp: ev_session_write_def)
    then show ?thesis using b d e assms(1) True by (auto simp: session_inv_def)
  qed
next
  case False
  show ?thesis
  proof (cases "alive s")
    case True
    obtain lc1 s1 where q: "queue_output lc s out 0 = Some (lc1, s1)"
      using assms(2) True False by (auto simp: ev_session_write_def split: option.splits)
    obtain b where b: "s1 = s\<lparr>out_buf := b\<rparr>" "buffer_inv b" "content b = content (out_buf s) @ out"
      using queue_output_spec [OF _ q] assms(1) by (auto simp: session_inv_def)
    then show ?thesis using assms False True q by (auto simp: ev_session_write_def session_inv_def)
  qed (use assms in \<open>auto simp: ev_session_write_def\<close>)
qed

section \<open>Histories of a session\<close>

text \<open>The bytes that the \<open>read\<close> calls of one \<open>_ev_read_cb\<close> deliver.\<close>

fun delivered :: "read_result list \<Rightarrow> bytes" where
  "delivered (Read_intr # rs) = delivered rs"
| "delivered (Received bs # rs) = bs"
| "delivered _ = []"

lemma read_loop_spec:
  "read_loop rs rdb thr = Some (fail, rdb', thr') \<Longrightarrow>
     rdb' = rdb\<lparr>db_data := db_data rdb @ delivered rs, wpos := wpos rdb + length (delivered rs)\<rparr>
     \<and> (MIN_BUFFER_SIZE \<le> thr \<and> thr \<le> MAX_BUFFER_SIZE
          \<longrightarrow> MIN_BUFFER_SIZE \<le> thr' \<and> thr' \<le> MAX_BUFFER_SIZE)"
  by (induction rs rdb thr rule: read_loop.induct)
     (auto simp: Let_def adapt_threshold_def MIN_BUFFER_SIZE_def MAX_BUFFER_SIZE_def)

text \<open>
  A run of one session, with four histories: the bytes handed to \<open>ev_session_write\<close> while the
  session was alive, those the kernel accepted, those the kernel delivered, and those the user
  read. The kernel never delivers more than the buffer has room for. A user that disables the write
  watcher does so only when nothing is pending, as the callers in \<open>lua-ev.c\<close> do.
\<close>

inductive session_run :: "'cb ev_session \<Rightarrow> bytes \<Rightarrow> bytes \<Rightarrow> bytes \<Rightarrow> bytes \<Rightarrow> bool" where
  run_bind: "session_run (ev_session_bind f) [] [] [] []"
| run_write: "session_run s W V R C \<Longrightarrow> ev_session_write lc s out ws = Some (r, lc', s', cb, sent, ws')
    \<Longrightarrow> session_run s' (if alive s then W @ out else W) (V @ sent) R C"
| run_flush: "session_run s W V R C \<Longrightarrow> wio_active s \<Longrightarrow> alive s
    \<Longrightarrow> ev_write_cb lc s ws = Some (lc', s', cb, sent, ws') \<Longrightarrow> session_run s' W (V @ sent) R C"
| run_receive: "session_run s W V R C \<Longrightarrow> length (delivered rs) \<le> sess_threshold s
    \<Longrightarrow> ev_read_cb lc s rs = Some (lc', s', cb) \<Longrightarrow> session_run s' W V (R @ delivered rs) C"
| run_read: "session_run s W V R C \<Longrightarrow> ev_session_read lc s n = Some (out, lc', s')
    \<Longrightarrow> session_run s' W V R (C @ out)"
| run_read_util: "session_run s W V R C \<Longrightarrow> ev_session_read_util lc s sep = Some (Some out, lc', s')
    \<Longrightarrow> session_run s' W V R (C @ out)"
| run_setcb: "session_run s W V R C \<Longrightarrow> session_run (ev_session_setcb s a b c) W V R C"
| run_enable: "session_run s W V R C \<Longrightarrow> session_run (ev_session_enable s ev) W V R C"
| run_disable: "session_run s W V R C \<Longrightarrow> (snd ev \<longrightarrow> chunks (out_buf s) = [])
    \<Longrightarrow> session_run (ev_session_disable s ev) W V R C"

lemma ev_read_cb_spec:
  assumes "session_inv s" "length (delivered rs) \<le> sess_threshold s"
    and "ev_read_cb lc s rs = Some (lc', s', cb)"
  shows "session_inv s' \<and> content (in_buf s') = content (in_buf s) @ delivered rs
    \<and> out_buf s' = out_buf s \<and> (alive s' \<longrightarrow> alive s)"
proof -
  let ?rdb = "\<lparr>db_data = delivered rs, db_size = sess_threshold s,
    wpos = length (delivered rs), rpos = 0\<rparr>"
  obtain fail thr where l: "read_loop rs \<lparr>db_data = [], db_size = sess_threshold s, wpos = 0, rpos = 0\<rparr>
      (sess_threshold s) = Some (fail, ?rdb, thr)"
    "MIN_BUFFER_SIZE \<le> thr" "thr \<le> MAX_BUFFER_SIZE"
    using assms(1,3) by (auto simp: ev_read_cb_def buffer_next_def session_inv_def
        split: option.splits dest!: read_loop_spec)
  have ok: "chunk_ok ?rdb" "unread ?rdb = delivered rs"
    using assms(2) by (auto simp: chunk_ok_def unread_def)
  obtain b where b: "buffer_append (in_buf s) ?rdb = Some b"
    using assms(3) l(1) by (auto simp: ev_read_cb_def buffer_next_def split: option.splits)
  have app: "input_inv b" "content b = content (in_buf s) @ delivered rs"
    using assms(1) ok b input_append_inv [of "in_buf s" ?rdb] buffer_append_inv(2) [of "in_buf s" ?rdb]
    by (auto simp: session_inv_def input_inv_def)
  show ?thesis
    using assms(1,3) l b app
    by (auto simp: ev_read_cb_def buffer_next_def session_fail_def ev_session_disable_def
        session_inv_def Let_def split: if_splits)
qed

definition session_history :: "'cb ev_session \<Rightarrow> bytes \<Rightarrow> bytes \<Rightarrow> bytes \<Rightarrow> bytes \<Rightarrow> bool" where
  "session_history s W V R C \<longleftrightarrow> session_inv s \<and> prefix V W
     \<and> (alive s \<longrightarrow> V @ content (out_buf s) = W) \<and> C @ content (in_buf s) = R"

lemma session_read_keeps:
  assumes "session_inv s" "ev_session_read lc s n = Some (out, lc', s')"
  shows "session_inv s' \<and> out @ content (in_buf s') = content (in_buf s)
     \<and> out_buf s' = out_buf s \<and> alive s' = alive s"
  using assms ev_session_read_spec [of s lc n] by (auto simp: session_inv_def)

lemma session_run_history: "session_run s W V R C \<Longrightarrow> session_history s W V R C"
proof (induction rule: session_run.induct)
  case (run_bind f)
  then show ?case
    by (simp add: session_history_def session_inv_def input_inv_def buffer_inv_def
        ev_session_bind_def MIN_BUFFER_SIZE_def MAX_BUFFER_SIZE_def)
next
  case (run_write s W V R C lc out ws r lc' s' cb sent ws')
  have i: "in_buf s' = in_buf s"
    using run_write.hyps(2) by (auto simp: ev_session_write_def session_fail_def ev_session_disable_def
        queue_output_def split: if_splits option.splits prod.splits)
  have inv: "session_inv s" using run_write.IH by (simp add: session_history_def)
  note sp = ev_session_write_spec [OF inv run_write.hyps(2)]
  have pre: "prefix sent (content (out_buf s) @ out)" if "alive s"
    using sp that by (cases "alive s'") (auto intro: prefixI [OF sym])
  show ?case
  proof (cases "alive s")
    case True
    then have W: "W = V @ content (out_buf s)" "R = C @ content (in_buf s)"
      using run_write.IH by (auto simp: session_history_def)
    have "session_inv s'" "alive s' \<Longrightarrow> sent @ content (out_buf s') = content (out_buf s) @ out"
      using sp True by auto
    then show ?thesis using W i True pre [OF True] by (simp add: session_history_def)
  qed (use sp run_write.IH i in \<open>auto simp: session_history_def\<close>)
next
  case (run_flush s W V R C lc ws lc' s' cb sent ws')
  have "buffer_inv (out_buf s)" "prefix V W" "V @ content (out_buf s) = W"
    using run_flush by (auto simp: session_history_def session_inv_def)
  then show ?case using ev_write_cb_spec(2) [OF _ run_flush.hyps(4)] run_flush.IH run_flush.hyps(2)
    by (auto simp: session_history_def session_inv_def prefix_def)
next
  case (run_receive s W V R C rs lc lc' s' cb)
  then show ?case using ev_read_cb_spec [OF _ run_receive.hyps(2,3)]
    by (auto simp: session_history_def)
next
  case (run_read s W V R C lc n out lc' s')
  then show ?case using session_read_keeps [OF _ run_read.hyps(2)]
    by (auto simp: session_history_def)
next
  case (run_read_util s W V R C lc sep out lc' s')
  then obtain n where "ev_session_read lc s n = Some (out, lc', s')"
    by (auto simp: ev_session_read_util_def Let_def split: if_splits)
  then show ?case using session_read_keeps run_read_util.IH
    by (fastforce simp: session_history_def)
qed (auto simp: session_history_def session_inv_def ev_session_setcb_def ev_session_enable_def
    ev_session_disable_def)

section \<open>The input of a session as a source of bytes\<close>

text \<open>
  What the protocol readers above a session rely on: the reported size is the number of available
  bytes, and a read removes exactly the bytes it returns.
\<close>

locale byte_source =
  fixes src_inv :: "'s \<Rightarrow> bool"
    and src_bytes :: "'s \<Rightarrow> bytes"
    and src_size :: "'s \<Rightarrow> int"
    and src_read :: "'s \<Rightarrow> nat \<Rightarrow> (bytes \<times> 's) option"
  assumes size_law: "src_inv s \<Longrightarrow> src_size s = int (length (src_bytes s))"
    and read_law: "src_inv s \<Longrightarrow> \<exists>s'. src_read s n = Some (take n (src_bytes s), s')
          \<and> src_bytes s' = drop n (src_bytes s) \<and> src_inv s'"
begin

lemma read_exact:
  assumes "src_inv s" "src_bytes s = xs @ ys"
  shows "\<exists>s'. src_read s (length xs) = Some (xs, s') \<and> src_bytes s' = ys \<and> src_inv s'"
  using read_law [OF assms(1), of "length xs"] assms(2) by simp

lemma read_determined:
  assumes "src_inv s" "src_read s n = Some (out, s')"
  shows "out = take n (src_bytes s) \<and> src_bytes s' = drop n (src_bytes s) \<and> src_inv s'"
  using read_law [OF assms(1), of n] assms(2) by auto

text \<open>Reading in two steps is reading once: readers may cut the stream anywhere.\<close>

lemma read_split:
  assumes "src_inv s" "src_read s m = Some (out1, s1)" "src_read s1 n = Some (out2, s2)"
    and "src_read s (m + n) = Some (out, s3)"
  shows "out = out1 @ out2 \<and> src_bytes s3 = src_bytes s2"
  using read_determined [OF assms(1,2)] read_determined [OF assms(1,4)] assms(3)
    read_determined [of s1 n out2 s2] by (simp add: take_add add.commute)

lemma enough_iff: "src_inv s \<Longrightarrow> int n \<le> src_size s \<longleftrightarrow> n \<le> length (src_bytes s)"
  by (simp add: size_law)

end

definition session_source_read :: "ev_loop_ctx \<times> 'cb ev_session \<Rightarrow> nat \<Rightarrow> (bytes \<times> ev_loop_ctx \<times> 'cb ev_session) option" where
  "session_source_read p n = ev_session_read (fst p) (snd p) n"

interpretation ss: byte_source
  "\<lambda>p :: ev_loop_ctx \<times> 'cb ev_session. session_inv (snd p)" "\<lambda>p. content (in_buf (snd p))"
  "\<lambda>p. ev_session_input_size (snd p)" session_source_read
proof
  fix p :: "ev_loop_ctx \<times> 'cb ev_session" and n
  assume inv: "session_inv (snd p)"
  then show "ev_session_input_size (snd p) = int (length (content (in_buf (snd p))))"
    by (simp add: session_inv_def input_inv_def buffer_inv_def ev_session_input_size_def)
  show "\<exists>p'. session_source_read p n = Some (take n (content (in_buf (snd p))), p')
      \<and> content (in_buf (snd p')) = drop n (content (in_buf (snd p))) \<and> session_inv (snd p')"
    using ev_session_read_spec [of "snd p" "fst p" n] inv
    by (fastforce simp: session_source_read_def session_inv_def)
qed

section \<open>Properties\<close>

lemma socket_write_all:
  "out \<noteq> [] \<Longrightarrow> length out \<le> n \<Longrightarrow> fits_int (tot + int (length out)) \<Longrightarrow> socket_write out tot (Sent n # ws) = Some (tot + int (length out), out, ws)"
  by (simp add: min_def)

lemma write_loop_all:
  assumes "list_all chunk_ok dbs" "\<forall>db \<in> set dbs. rpos db < wpos db" "length (chain_bytes dbs) \<le> n"
    and "fits_int (int (length (chain_bytes dbs)))"
  shows "\<exists>lc'. write_loop b lc dbs (replicate (length dbs) (Sent n)) =
     Some (Flush_done, \<lparr>chunks = [], total = total b - word_of_int (int (length (chain_bytes dbs)))\<rparr>, lc', chain_bytes dbs, [])"
  using assms
proof (induction dbs arbitrary: b lc)
  case (Cons db dbs)
  have u: "unread db \<noteq> []" "length (unread db) \<le> n" "length (unread db) = wpos db - rpos db"
    "rpos db < wpos db"
    using Cons.prems by (auto simp: chunk_ok_def unread_def)
  have "fits_int (0 + int (length (unread db)))" "fits_int (int (length (chain_bytes dbs)))"
    using Cons.prems(4) by (simp_all add: fits_int_def)
  note fit = this
  note w = socket_write_all [OF u(1,2) fit(1), of "replicate (length dbs) (Sent n)", unfolded unread_def]
  have l: "int (length (drop (rpos db) (db_data db))) = int (wpos db) - int (rpos db)"
    using u(3,4) by (simp add: unread_def)
  obtain lc' where IH: "write_loop (b\<lparr>total := total b - word_of_int (int (length (unread db)))\<rparr>) (buffer_reclaim lc) dbs
      (replicate (length dbs) (Sent n)) = Some (Flush_done,
        \<lparr>chunks = [], total = total b - word_of_int (int (length (unread db))) - word_of_int (int (length (chain_bytes dbs)))\<rparr>,
        lc', chain_bytes dbs, [])"
    using Cons.IH [of "b\<lparr>total := total b - word_of_int (int (length (unread db)))\<rparr>"] Cons.prems fit(2) by fastforce
  have "(word_of_nat (length (db_data db) - rpos db) :: 32 word) = word_of_nat (wpos db) - word_of_nat (rpos db)"
    using u(3,4) by (simp add: unread_def of_nat_diff)
  then show ?case using IH w l by (simp add: unread_def Let_def diff_diff_eq del: socket_write.simps)
qed (simp add: ev_buffer.equality)

text \<open>
  C2. Neither direction of a session loses, duplicates or reorders bytes, whatever the kernel
  accepts or delivers per call: what the kernel accepted is a prefix of what was written and, while
  the session is alive, the pending output is exactly the rest; what the user read followed by the
  buffered input is what the kernel delivered.
\<close>

theorem session_streams:
  assumes "session_run s W V R C"
  shows "prefix V W \<and> (alive s \<longrightarrow> V @ content (out_buf s) = W) \<and> C @ content (in_buf s) = R"
  using session_run_history [OF assms] by (simp add: session_history_def)

theorem session_streams_witness:
  "\<exists>s :: unit ev_session. session_run s [1, 2, 3] [1] [] [] \<and> alive s \<and> [1] @ content (out_buf s) = [1, 2, 3]"
proof -
  obtain lc and s :: "unit ev_session" where
    w: "ev_session_write \<lparr>freelist_len = 0\<rparr> (ev_session_bind 5 :: unit ev_session) [1, 2, 3] [Sent 1, Write_again]
        = Some (1, lc, s, None, [1], [])" and a: "alive s"
    by (simp add: ev_session_write_def ev_session_bind_def queue_output_def buffer_next_def buffer_append_def
        fits_int_def Let_def)
  have r: "session_run s [1, 2, 3] [1] [] []"
    using run_write [OF run_bind w] by (simp add: ev_session_bind_def)
  show ?thesis using session_streams [OF r] r a by blast
qed

text \<open>
  C7. \<open>ev_session_read\<close> returns the first \<open>n\<close> bytes of the input (all of it when there are
  fewer), across any number of buffers, without tripping its assertions, and leaves the rest.
\<close>

theorem session_read_prefix:
  assumes "session_inv s"
  shows "\<exists>lc' s'. ev_session_read lc s n = Some (take n (content (in_buf s)), lc', s')
     \<and> content (in_buf s') = drop n (content (in_buf s))
     \<and> ev_session_input_size s' = ev_session_input_size s - int (min n (length (content (in_buf s))))
     \<and> session_inv s'"
proof -
  have i: "input_inv (in_buf s)" using assms by (simp add: session_inv_def)
  obtain lc' b where r: "ev_session_read lc s n = Some (take n (content (in_buf s)), lc', s\<lparr>in_buf := b\<rparr>)"
    "content b = drop n (content (in_buf s))" "input_inv b"
    using ev_session_read_spec [OF i] by blast
  have "sint (total b) = int (length (content b))" "sint (total (in_buf s)) = int (length (content (in_buf s)))"
    using i r(3) by (auto simp: input_inv_def buffer_inv_def)
  then show ?thesis using r assms
    by (intro exI [of _ lc'] exI [of _ "s\<lparr>in_buf := b\<rparr>"])
       (auto simp: session_inv_def ev_session_input_size_def)
qed

definition two_chunk_session :: "unit ev_session" where
  "two_chunk_session = (ev_session_bind 5)\<lparr>in_buf := \<lparr>chunks =
     [\<lparr>db_data = [9, 10, 11, 13], db_size = 256, wpos = 4, rpos = 1\<rparr>,
      \<lparr>db_data = [10, 12], db_size = 256, wpos = 2, rpos = 0\<rparr>], total = 5\<rparr>\<rparr>"

lemma two_chunk_session_ok:
  "session_inv two_chunk_session" "content (in_buf two_chunk_session) = [10, 11, 13, 10, 12]"
  by (simp_all add: two_chunk_session_def session_inv_def input_inv_def buffer_inv_def chunk_ok_def
      unread_def ev_session_bind_def MIN_BUFFER_SIZE_def MAX_BUFFER_SIZE_def)

theorem session_read_prefix_witness:
  "session_inv two_chunk_session \<and> (\<exists>lc' s'. ev_session_read \<lparr>freelist_len = 0\<rparr> two_chunk_session 4
     = Some ([10, 11, 13, 10], lc', s') \<and> content (in_buf s') = [12])"
  using session_read_prefix [of two_chunk_session "\<lparr>freelist_len = 0\<rparr>" 4] two_chunk_session_ok by auto

text \<open>
  C6. \<open>ev_session_read_util\<close> returns a line when the separator occurs in the input: the shortest
  prefix of the input that ends in the separator, even when the separator straddles buffers. When
  it does not occur, the result is null and nothing changes.
\<close>

theorem session_read_util_line:
  assumes "session_inv s" "sep \<noteq> []"
  shows "if sublist sep (content (in_buf s))
     then \<exists>line lc' s'. ev_session_read_util lc s sep = Some (Some line, lc', s')
            \<and> line @ content (in_buf s') = content (in_buf s) \<and> suffix sep line
            \<and> (\<forall>p. strict_prefix p line \<longrightarrow> \<not> suffix sep p) \<and> session_inv s'
     else ev_session_read_util lc s sep = Some (None, lc, s)"
proof -
  have i: "input_inv (in_buf s)" using assms(1) by (simp add: session_inv_def)
  show ?thesis
  proof (cases "find_sep sep (content (in_buf s))")
    case None
    then have "search_eol s sep = -1" "\<not> sublist sep (content (in_buf s))"
      using find_sep_None [OF assms(2), of "content (in_buf s)"] search_eol_spec [OF i assms(2)]
      by (auto simp: found_def)
    then show ?thesis by (simp add: ev_session_read_util_def)
  next
    case (Some k)
    have "nat (search_eol s sep) = k + length sep" "search_eol s sep \<ge> 0"
      using search_eol_spec [OF i assms(2)] Some by (auto simp: found_def)
    moreover obtain lc' b where "ev_session_read lc s (k + length sep) =
        Some (take (k + length sep) (content (in_buf s)), lc', s\<lparr>in_buf := b\<rparr>)"
      "content b = drop (k + length sep) (content (in_buf s))" "input_inv b"
      using ev_session_read_spec [OF i] by blast
    ultimately show ?thesis
      using first_line [OF Some assms(2)] find_sep_None [OF assms(2), of "content (in_buf s)"] Some assms(1)
      by (auto simp: ev_session_read_util_def session_inv_def)
  qed
qed

theorem session_read_util_line_witness:
  "session_inv two_chunk_session \<and> (\<exists>line lc' s'.
     ev_session_read_util \<lparr>freelist_len = 0\<rparr> two_chunk_session [13, 10] = Some (Some line, lc', s')
     \<and> suffix [13, 10] line)"
proof -
  have "sublist [13, 10] (content (in_buf two_chunk_session))"
    unfolding two_chunk_session_ok sublist_def by (intro exI [of _ "[10, 11]"] exI [of _ "[12]"]) simp
  then show ?thesis
    using session_read_util_line [of two_chunk_session "[13, 10]" "\<lparr>freelist_len = 0\<rparr>"] two_chunk_session_ok(1)
    by auto
qed

text \<open>
  C8. When the socket takes whole buffers again, one run of the write handler sends all the
  pending bytes, turns the write watcher off and ends in the write callback; its assertion that
  nothing is left holds.
\<close>

theorem session_flush_completes:
  assumes "session_inv s" "\<forall>db \<in> set (chunks (out_buf s)). rpos db < wpos db"
    and "length (content (out_buf s)) \<le> n"
  shows "\<exists>lc' s'. ev_write_cb lc s (replicate (length (chunks (out_buf s))) (Sent n)) =
       Some (lc', s', write_cb s, content (out_buf s), [])
     \<and> chunks (out_buf s') = [] \<and> ev_session_output_size s' = 0 \<and> \<not> wio_active s' \<and> alive s' = alive s"
proof -
  have ok: "list_all chunk_ok (chunks (out_buf s))" "sint (total (out_buf s)) = int (length (content (out_buf s)))"
    using assms(1) by (auto simp: session_inv_def buffer_inv_def)
  have fit: "fits_int (int (length (content (out_buf s))))" using sint_fits [of "total (out_buf s)"] unfolding ok(2) .
  have "total (out_buf s) = word_of_int (int (length (content (out_buf s))))" using ok(2) by (rule word_of_sint)
  with write_loop_all [OF ok(1) assms(2,3) fit, of "out_buf s" lc] show ?thesis
    by (auto simp: ev_write_cb_def ev_session_disable_def ev_session_output_size_def Let_def)
qed

theorem session_flush_completes_witness:
  "\<exists>lc' s'. ev_write_cb \<lparr>freelist_len = 0\<rparr>
     ((ev_session_bind 5 :: unit ev_session)\<lparr>wio_active := True, out_buf := \<lparr>chunks =
        [\<lparr>db_data = [1, 2, 3], db_size = 3, wpos = 3, rpos = 1\<rparr>,
         \<lparr>db_data = [4], db_size = 1, wpos = 1, rpos = 0\<rparr>], total = 3\<rparr>\<rparr>) [Sent 8, Sent 8]
     = Some (lc', s', None, [2, 3, 4], []) \<and> \<not> wio_active s'"
  using session_flush_completes [of "(ev_session_bind 5 :: unit ev_session)\<lparr>wio_active := True, out_buf := \<lparr>chunks =
        [\<lparr>db_data = [1, 2, 3], db_size = 3, wpos = 3, rpos = 1\<rparr>,
         \<lparr>db_data = [4], db_size = 1, wpos = 1, rpos = 0\<rparr>], total = 3\<rparr>\<rparr>" 8 "\<lparr>freelist_len = 0\<rparr>"]
  by (auto simp: session_inv_def input_inv_def buffer_inv_def chunk_ok_def unread_def ev_session_bind_def
      MIN_BUFFER_SIZE_def MAX_BUFFER_SIZE_def numeral_2_eq_2)

text \<open>The sizes of the buffers of a run fit in an \<open>int\<close>.\<close>

definition sizes_fit :: "data_buffer list \<Rightarrow> bool" where
  "sizes_fit dbs \<longleftrightarrow> (\<forall>n \<in> db_size ` set dbs. n < 2147483648)"

lemma sizes_fit_simps [simp]:
  "sizes_fit []" "sizes_fit (db # dbs) \<longleftrightarrow> db_size db < 2147483648 \<and> sizes_fit dbs"
  by (simp_all add: sizes_fit_def)

lemma read_need_sizes:
  "read_need need dbs freed = Some (out, dbs', f) \<Longrightarrow> sizes_fit dbs \<Longrightarrow> sizes_fit dbs'"
proof (induction dbs arbitrary: need freed out f)
  case (Cons db dbs)
  show ?case
    using Cons.prems by (subst (asm) read_need.simps) (auto simp: Let_def split: if_splits dest: Cons.IH)
qed (auto simp: read_need.simps split: if_splits)

lemma write_loop_sizes:
  "write_loop b lc dbs ws = Some (f, b', lc', sent, ws') \<Longrightarrow> sizes_fit dbs \<Longrightarrow> sizes_fit (chunks b')"
  by (induction dbs arbitrary: b lc ws sent) (auto simp: Let_def split: option.splits if_splits)

lemma buffer_append_sizes:
  "buffer_append b db = Some b' \<Longrightarrow> sizes_fit (chunks b) \<Longrightarrow> db_size db < 2147483648 \<Longrightarrow> sizes_fit (chunks b')"
  by (auto simp: buffer_append_def Let_def sizes_fit_def split: if_splits)

lemma queue_output_sizes:
  assumes "queue_output lc s out pos = Some (lc', s')" "sizes_fit (chunks (out_buf s))"
  shows "sizes_fit (chunks (out_buf s')) \<and> in_buf s' = in_buf s"
  using assms by (auto simp: queue_output_def buffer_next_def fits_int_def dest!: buffer_append_sizes split: if_splits)

lemma session_read_sizes:
  assumes "ev_session_read lc s n = Some (out, lc', s')" "sizes_fit (chunks (in_buf s))"
  shows "sizes_fit (chunks (in_buf s')) \<and> out_buf s' = out_buf s"
  using assms by (auto simp: ev_session_read_def Let_def dest: read_need_sizes split: option.splits)

lemma session_run_sizes:
  "session_run s W V R C \<Longrightarrow> sizes_fit (chunks (in_buf s)) \<and> sizes_fit (chunks (out_buf s))"
proof (induction rule: session_run.induct)
  case (run_write s W V R C lc out ws r lc' s' cb sent ws')
  then show ?case
    by (auto simp: ev_session_write_def session_fail_def ev_session_disable_def
        dest!: queue_output_sizes split: if_splits option.splits)
next
  case (run_flush s W V R C lc ws lc' s' cb sent ws')
  then show ?case
    by (auto simp: ev_write_cb_def session_fail_def ev_session_disable_def Let_def
        dest!: write_loop_sizes split: option.splits flush.splits if_splits)
next
  case (run_receive s W V R C rs lc lc' s' cb)
  have "sess_threshold s < 2147483648"
    using session_run_history [OF run_receive.hyps(1)] by (simp add: session_history_def session_inv_def MAX_BUFFER_SIZE_def)
  then show ?case using run_receive
    by (auto simp: ev_read_cb_def buffer_next_def session_fail_def ev_session_disable_def Let_def
        dest!: read_loop_spec buffer_append_sizes split: option.splits if_splits)
next
  case (run_read s W V R C lc n out lc' s')
  then show ?case using session_read_sizes [OF run_read.hyps(2)] by simp
next
  case (run_read_util s W V R C lc sep out lc' s')
  then obtain n where "ev_session_read lc s n = Some (out, lc', s')"
    by (auto simp: ev_session_read_util_def Let_def split: if_splits)
  then show ?case using session_read_sizes run_read_util.IH by fastforce
qed (simp_all add: ev_session_bind_def ev_session_setcb_def ev_session_enable_def ev_session_disable_def)

text \<open>
  C9. In every run of a session no buffer is written past its size, sizes and positions stay in
  the range of an \<open>int\<close>, the read size stays between 256 bytes and 1 MiB, the 32-bit size counters
  equal the buffered bytes, and a live session with pending output has its write watcher active.
  A handler whose counter would overflow is not a step of a run.
\<close>

theorem session_bounds:
  assumes "session_run s W V R C"
  shows "256 \<le> sess_threshold s \<and> sess_threshold s \<le> 1048576
     \<and> (\<forall>db. db \<in> set (chunks (in_buf s)) \<union> set (chunks (out_buf s))
           \<longrightarrow> rpos db \<le> wpos db \<and> length (db_data db) = wpos db \<and> wpos db \<le> db_size db \<and> db_size db < 2 ^ 31)
     \<and> ev_session_input_size s = int (length (content (in_buf s)))
     \<and> ev_session_output_size s = int (length (content (out_buf s)))
     \<and> (alive s \<and> content (out_buf s) \<noteq> [] \<longrightarrow> wio_active s)"
  using session_run_history [OF assms] session_run_sizes [OF assms]
  by (auto simp: session_history_def session_inv_def input_inv_def buffer_inv_def chunk_ok_def list_all_iff sizes_fit_def
      MIN_BUFFER_SIZE_def MAX_BUFFER_SIZE_def ev_session_input_size_def ev_session_output_size_def)

text \<open>A session that holds input and pending output.\<close>

definition busy_session :: "unit ev_session" where
  "busy_session = \<lparr>fd = 5, alive = True, sess_threshold = 256,
     in_buf = \<lparr>chunks = [\<lparr>db_data = [7, 8], db_size = 256, wpos = 2, rpos = 0\<rparr>], total = 2\<rparr>,
     out_buf = \<lparr>chunks = [\<lparr>db_data = [1, 2, 3], db_size = 3, wpos = 3, rpos = 1\<rparr>], total = 2\<rparr>,
     rio_active = False, wio_active = True, read_cb = None, write_cb = None, event_cb = None\<rparr>"

lemma busy_session_run: "session_run busy_session [1, 2, 3] [1] [7, 8] []"
proof -
  let ?s = "(ev_session_bind 5 :: unit ev_session)\<lparr>wio_active := True,
    out_buf := \<lparr>chunks = [\<lparr>db_data = [1, 2, 3], db_size = 3, wpos = 3, rpos = 1\<rparr>], total = 2\<rparr>\<rparr>"
  have "ev_session_write \<lparr>freelist_len = 0\<rparr> (ev_session_bind 5 :: unit ev_session) [1, 2, 3] [Sent 1, Write_again]
      = Some (1, \<lparr>freelist_len = 0\<rparr>, ?s, None, [1], [])"
    by (simp add: ev_session_write_def ev_session_bind_def queue_output_def buffer_next_def buffer_append_def
        fits_int_def Let_def)
  note w = run_write [OF run_bind this]
  have "ev_read_cb \<lparr>freelist_len = 0\<rparr> ?s [Received [7, 8]] = Some (\<lparr>freelist_len = 0\<rparr>, busy_session, None)"
    by (simp add: ev_read_cb_def busy_session_def ev_session_bind_def buffer_next_def buffer_append_def fits_int_def
        adapt_threshold_def MIN_BUFFER_SIZE_def Let_def)
  from run_receive [OF w _ this] show ?thesis by (simp add: ev_session_bind_def MIN_BUFFER_SIZE_def)
qed

theorem session_bounds_witness:
  "session_run busy_session [1, 2, 3] [1] [7, 8] [] \<and> content (out_buf busy_session) = [2, 3]
     \<and> ev_session_input_size busy_session = int (length (content (in_buf busy_session)))
     \<and> ev_session_output_size busy_session = int (length (content (out_buf busy_session))) \<and> wio_active busy_session"
proof -
  have c: "content (out_buf busy_session) = [2, 3]" "alive busy_session" by (simp_all add: busy_session_def unread_def)
  show ?thesis using session_bounds [OF busy_session_run] busy_session_run c by simp
qed

end
