(* ===== verification/Object_Container.thy ===== *)
theory Object_Container
  imports Prelude
begin

text \<open>
  The slot table of \<open>src/luaclib/object_container.c\<close>, which hands out small integer ids for
  objects: an array of object pointers (\<open>mgr\<close>, a null pointer is \<open>None\<close>) and an array of slots
  whose free ones are chained through their next pointers. A pointer to a slot is its position in
  the slot array. The locale \<open>slot_table\<close> states what the users of the table (the client manager,
  the area-of-interest grid) rely on.
\<close>

section \<open>The code\<close>

record object_sot =
  index :: nat
  sot_next :: "nat option"

record 'a object_container =
  mgr :: "'a option list"
  csize :: int
  slots :: "object_sot list"
  freelist :: "nat option"

text \<open>One round of the loop that chains the slots.\<close>

definition container_link :: "nat \<Rightarrow> 'a object_container \<Rightarrow> 'a object_container" where
  "container_link i c =
     c\<lparr>slots := (slots c)[i := \<lparr>index = i, sot_next = freelist c\<rparr>], freelist := Some i\<rparr>"

text \<open>\<open>None\<close> is the failed assertion \<open>max > 0\<close>.\<close>

definition container_create :: "int \<Rightarrow> 'a object_container option" where
  "container_create mx =
     (if mx > 0
      then Some (fold container_link [0..<nat mx]
             \<lparr>mgr = replicate (nat mx) None, csize = mx,
              slots = replicate (nat mx) \<lparr>index = 0, sot_next = None\<rparr>, freelist = None\<rparr>)
      else None)"

definition container_get :: "'a object_container \<Rightarrow> int \<Rightarrow> 'a option" where
  "container_get c i = (if i < 0 \<or> i \<ge> csize c then None else mgr c ! nat i)"

text \<open>
  \<open>container_foreach\<close> calls \<open>func\<close> on every stored object in the order of the ids. The
  callback may itself change the container, so the pointer is read from the current one; no
  operation changes the size.
\<close>

definition container_foreach ::
  "(int \<Rightarrow> 'a \<Rightarrow> 'a object_container \<times> 's \<Rightarrow> 'a object_container \<times> 's)
   \<Rightarrow> 'a object_container \<times> 's \<Rightarrow> 'a object_container \<times> 's" where
  "container_foreach func cs =
     fold (\<lambda>i (c, s). case mgr c ! i of None \<Rightarrow> (c, s) | Some x \<Rightarrow> func (int i) x (c, s))
       [0..<nat (csize (fst cs))] cs"

definition container_add :: "'a object_container \<Rightarrow> 'a option \<Rightarrow> int \<times> 'a object_container" where
  "container_add c object =
     (case freelist c of
        None \<Rightarrow> (-1, c)
      | Some slot \<Rightarrow>
          (int (index (slots c ! slot)),
           c\<lparr>freelist := sot_next (slots c ! slot),
             mgr := (mgr c)[index (slots c ! slot) := object]\<rparr>))"

text \<open>\<open>None\<close> is an access outside the two arrays: the code does not check the id.\<close>

definition container_remove :: "'a object_container \<Rightarrow> int \<Rightarrow> 'a object_container option" where
  "container_remove c i =
     (if i < 0 \<or> nat i \<ge> length (slots c) then None
      else Some (c\<lparr>slots := (slots c)[nat i := (slots c ! nat i)\<lparr>sot_next := freelist c\<rparr>],
                   freelist := Some (nat i), mgr := (mgr c)[nat i := None]\<rparr>))"

section \<open>Invariant\<close>

abbreviation slot_nxt :: "object_sot list \<Rightarrow> nat \<Rightarrow> nat option" where
  "slot_nxt ss \<equiv> \<lambda>p. sot_next (ss ! p)"

definition container_inv :: "'a object_container \<Rightarrow> bool" where
  "container_inv c \<longleftrightarrow>
     0 \<le> csize c \<and> length (mgr c) = nat (csize c) \<and> length (slots c) = nat (csize c)
     \<and> (\<forall>i < length (slots c). index (slots c ! i) = i)
     \<and> (\<exists>xs. chain_from (slot_nxt (slots c)) (freelist c) xs \<and> distinct xs
          \<and> set xs = {i. i < length (mgr c) \<and> mgr c ! i = None})"

lemma slot_nxt_update:
  "i < length ss \<Longrightarrow> slot_nxt (ss[i := s]) = (slot_nxt ss)(i := sot_next s)"
  by (auto simp: fun_eq_iff nth_list_update)

lemma container_link_fold:
  fixes c :: "'a object_container"
  assumes "freelist c = None" "n \<le> length (slots c)"
  defines "d \<equiv> fold container_link [0..<n] c"
  shows "chain_from (slot_nxt (slots d)) (freelist d) (rev [0..<n])
    \<and> (\<forall>i<n. index (slots d ! i) = i) \<and> length (slots d) = length (slots c)
    \<and> mgr d = mgr c \<and> csize d = csize c"
  using assms(2) unfolding d_def
proof (induction n)
  case 0
  then show ?case using assms(1) by simp
next
  case (Suc n)
  define d where "d = fold container_link [0..<n] c"
  have d: "fold container_link [0..<Suc n] c = container_link n d" by (simp add: d_def)
  have "chain_from (slot_nxt (slots d)) (freelist d) (rev [0..<n])" "n < length (slots d)"
    "\<forall>i<n. index (slots d ! i) = i" "length (slots d) = length (slots c)"
    "mgr d = mgr c" "csize d = csize c"
    using Suc unfolding d_def by simp_all
  then show ?case unfolding d
    by (auto simp: container_link_def slot_nxt_update nth_list_update less_Suc_eq simp del: nth_list_update)
qed

lemma container_create_inv:
  assumes "container_create m = Some c"
  shows "container_inv c \<and> csize c = m \<and> 0 < m \<and> (\<forall>i. container_get c i = None)"
proof -
  let ?z = "\<lparr>mgr = replicate (nat m) None, csize = m,
              slots = replicate (nat m) \<lparr>index = 0, sot_next = None\<rparr>, freelist = None\<rparr>
            :: 'a object_container"
  from assms have "0 < m" and c: "c = fold container_link [0..<nat m] ?z"
    by (auto simp: container_create_def split: if_splits)
  have "chain_from (slot_nxt (slots c)) (freelist c) (rev [0..<nat m])
    \<and> (\<forall>i<nat m. index (slots c ! i) = i) \<and> length (slots c) = nat m
    \<and> mgr c = replicate (nat m) None \<and> csize c = m"
    using container_link_fold [of ?z "nat m"] unfolding c by simp
  moreover from this have "container_get c i = None" for i
    by (simp add: container_get_def)
  ultimately show ?thesis
    using \<open>0 < m\<close> by (auto simp: container_inv_def intro!: exI [of _ "rev [0..<nat m]"])
qed

lemma all_ids_iff: "(\<forall>i::int. 0 \<le> i \<and> i < n \<longrightarrow> P (nat i)) \<longleftrightarrow> (\<forall>j < nat n. P j)"
proof
  assume "\<forall>i::int. 0 \<le> i \<and> i < n \<longrightarrow> P (nat i)"
  then have "P (nat (int j))" if "j < nat n" for j
    using that by (blast intro: of_nat_0_le_iff zless_nat_eq_int_zless [THEN iffD1])
  then show "\<forall>j < nat n. P j" by simp
qed (simp add: nat_less_eq_zless)

lemma container_add_full:
  assumes "container_inv c"
  shows "fst (container_add c object) = -1 \<longleftrightarrow> (\<forall>i. 0 \<le> i \<and> i < csize c \<longrightarrow> container_get c i \<noteq> None)"
    and "fst (container_add c object) = -1 \<Longrightarrow> snd (container_add c object) = c"
proof -
  obtain xs where xs: "chain_from (slot_nxt (slots c)) (freelist c) xs"
      "set xs = {i. i < length (mgr c) \<and> mgr c ! i = None}"
    using assms by (auto simp: container_inv_def)
  have "fst (container_add c object) = -1 \<longleftrightarrow> freelist c = None"
    by (simp add: container_add_def split: option.splits)
  also have "\<dots> \<longleftrightarrow> set xs = {}"
    using xs(1) by (cases xs) auto
  also have "\<dots> \<longleftrightarrow> (\<forall>j < nat (csize c). mgr c ! j \<noteq> None)"
    using assms unfolding xs(2) container_inv_def by auto
  also have "\<dots> \<longleftrightarrow> (\<forall>i. 0 \<le> i \<and> i < csize c \<longrightarrow> mgr c ! nat i \<noteq> None)"
    by (rule all_ids_iff [symmetric])
  finally show
    "fst (container_add c object) = -1 \<longleftrightarrow> (\<forall>i. 0 \<le> i \<and> i < csize c \<longrightarrow> container_get c i \<noteq> None)"
    by (simp add: container_get_def)
  show "fst (container_add c object) = -1 \<Longrightarrow> snd (container_add c object) = c"
    by (simp add: container_add_def split: option.splits)
qed

lemma container_add_ok:
  assumes "container_inv c" "container_add c (Some x) = (i, c')" "i \<noteq> -1"
  shows "0 \<le> i \<and> i < csize c \<and> container_get c i = None \<and> container_inv c'
    \<and> csize c' = csize c \<and> container_get c' = (container_get c)(i := Some x)"
proof -
  obtain xs where xs: "chain_from (slot_nxt (slots c)) (freelist c) xs" "distinct xs"
      "set xs = {i. i < length (mgr c) \<and> mgr c ! i = None}"
    and inv: "0 \<le> csize c" "length (mgr c) = nat (csize c)" "length (slots c) = nat (csize c)"
      "\<forall>i < length (slots c). index (slots c ! i) = i"
    using assms(1) by (auto simp: container_inv_def)
  from assms(2,3) obtain p where p: "freelist c = Some p"
    by (auto simp: container_add_def split: option.splits)
  with xs(1) obtain ys where ys: "xs = p # ys" "chain_from (slot_nxt (slots c)) (sot_next (slots c ! p)) ys"
    by (auto simp: chain)
  have "p \<in> set xs" by (simp add: ys)
  then have pm: "p < nat (csize c)" "mgr c ! p = None" using xs(3) inv(2) by auto
  then have ip: "index (slots c ! p) = p" using inv by simp
  have i: "i = int p" and c': "c' = c\<lparr>freelist := sot_next (slots c ! p), mgr := (mgr c)[p := Some x]\<rparr>"
    using assms(2) p ip by (auto simp: container_add_def)
  have "set ys = set xs - {p}" using xs(2) ys(1) by auto
  then have "set ys = {i. i < length (mgr c') \<and> mgr c' ! i = None}"
    unfolding xs(3) c' using pm(1) inv(2) by (auto simp: nth_list_update)
  moreover have "distinct ys" using xs(2) ys(1) by simp
  moreover have "chain_from (slot_nxt (slots c')) (freelist c') ys" using ys(2) by (simp add: c')
  ultimately have ex: "\<exists>zs. chain_from (slot_nxt (slots c')) (freelist c') zs \<and> distinct zs
      \<and> set zs = {i. i < length (mgr c') \<and> mgr c' ! i = None}"
    by blast
  have "container_inv c'"
    unfolding container_inv_def using inv ex by (simp add: c')
  moreover have "container_get c' j = ((container_get c)(i := Some x)) j" for j
    using pm inv by (auto simp: i c' container_get_def nth_list_update)
  ultimately show ?thesis
    using pm by (simp add: i c' container_get_def fun_eq_iff)
qed

lemma container_remove_ok:
  assumes "container_inv c" "container_get c i \<noteq> None"
  shows "\<exists>c'. container_remove c i = Some c' \<and> container_inv c' \<and> csize c' = csize c
    \<and> container_get c' = (container_get c)(i := None)"
proof -
  obtain xs where xs: "chain_from (slot_nxt (slots c)) (freelist c) xs" "distinct xs"
      "set xs = {i. i < length (mgr c) \<and> mgr c ! i = None}"
    and inv: "0 \<le> csize c" "length (mgr c) = nat (csize c)" "length (slots c) = nat (csize c)"
      "\<forall>i < length (slots c). index (slots c ! i) = i"
    using assms(1) by (auto simp: container_inv_def)
  have i: "0 \<le> i" "nat i < nat (csize c)" "mgr c ! nat i \<noteq> None"
    using assms(2) by (auto simp: container_get_def split: if_splits)
  let ?c = "c\<lparr>slots := (slots c)[nat i := (slots c ! nat i)\<lparr>sot_next := freelist c\<rparr>],
              freelist := Some (nat i), mgr := (mgr c)[nat i := None]\<rparr>"
  have "nat i \<notin> set xs" using xs(3) i by simp
  then have "chain_from (slot_nxt (slots ?c)) (freelist ?c) (nat i # xs)"
    using i inv xs(1) by (simp add: slot_nxt_update)
  moreover have "set (nat i # xs) = {j. j < length (mgr ?c) \<and> mgr ?c ! j = None}"
    using xs(3) i inv by (auto simp: nth_list_update)
  moreover have "distinct (nat i # xs)" using xs(2) \<open>nat i \<notin> set xs\<close> by simp
  ultimately have "container_inv ?c"
    using inv i unfolding container_inv_def by (auto simp: nth_list_update intro!: exI [of _ "nat i # xs"])
  moreover have "container_remove c i = Some ?c"
    using i inv(3) by (simp add: container_remove_def not_le del: zless_nat_conj)
  moreover have "container_get ?c = (container_get c)(i := None)"
    using i inv by (auto simp: container_get_def fun_eq_iff nth_list_update)
  ultimately show ?thesis by simp
qed

section \<open>The contract of a slot table\<close>

text \<open>
  What a user of the table relies on: the table behaves as a partial map from ids to objects in
  which an added object gets an id that was free.
\<close>

locale slot_table =
  fixes get :: "'c \<Rightarrow> int \<Rightarrow> 'a option"
    and add :: "'c \<Rightarrow> 'a option \<Rightarrow> int \<times> 'c"
    and remove :: "'c \<Rightarrow> int \<Rightarrow> 'c option"
    and cap :: "'c \<Rightarrow> int"
    and invar :: "'c \<Rightarrow> bool"
  assumes get_range: "get c i \<noteq> None \<Longrightarrow> 0 \<le> i \<and> i < cap c"
    and add_fresh: "invar c \<Longrightarrow> add c (Some x) = (i, c') \<Longrightarrow> i \<noteq> -1 \<Longrightarrow>
      0 \<le> i \<and> i < cap c \<and> get c i = None \<and> invar c' \<and> cap c' = cap c \<and> get c' = (get c)(i := Some x)"
    and add_full: "invar c \<Longrightarrow> add c (Some x) = (-1, c') \<Longrightarrow>
      c' = c \<and> (\<forall>i. 0 \<le> i \<and> i < cap c \<longrightarrow> get c i \<noteq> None)"
    and remove_live: "invar c \<Longrightarrow> get c i \<noteq> None \<Longrightarrow>
      \<exists>c'. remove c i = Some c' \<and> invar c' \<and> cap c' = cap c \<and> get c' = (get c)(i := None)"
begin

text \<open>The ids in use.\<close>

definition live :: "'c \<Rightarrow> int set" where
  "live c = {i. get c i \<noteq> None}"

lemma live_range: "live c \<subseteq> {0..<cap c}"
proof
  fix i
  assume "i \<in> live c"
  then have "get c i \<noteq> None" by (simp add: live_def)
  then show "i \<in> {0..<cap c}" using get_range by simp
qed

lemma finite_live: "finite (live c)"
  by (rule finite_subset [OF live_range]) simp

text \<open>An add succeeds exactly when fewer ids are in use than the table holds.\<close>

lemma add_succeeds_iff:
  assumes "invar c" "0 \<le> cap c"
  shows "fst (add c (Some x)) \<noteq> -1 \<longleftrightarrow> card (live c) < nat (cap c)"
proof
  assume ok: "fst (add c (Some x)) \<noteq> -1"
  obtain i c' where ic: "add c (Some x) = (i, c')" by fastforce
  then have "i \<in> {0..<cap c} - live c"
    using add_fresh [OF assms(1) ic] ok by (simp add: live_def)
  then have "live c \<subset> {0..<cap c}" using live_range [of c] by blast
  then have "card (live c) < card {0..<cap c}" by (rule psubset_card_mono [rotated]) simp
  then show "card (live c) < nat (cap c)" by simp
next
  assume lt: "card (live c) < nat (cap c)"
  show "fst (add c (Some x)) \<noteq> -1"
  proof
    assume "fst (add c (Some x)) = -1"
    then have "add c (Some x) = (-1, snd (add c (Some x)))" by (simp add: prod_eq_iff)
    then have "{0..<cap c} \<subseteq> live c"
      using add_full [OF assms(1)] by (auto simp: live_def)
    then have "live c = {0..<cap c}" using live_range [of c] by blast
    with lt show False by simp
  qed
qed

text \<open>Adding and then removing gives the old contents back.\<close>

lemma add_remove:
  assumes "invar c" "add c (Some x) = (i, c')" "i \<noteq> -1"
  shows "\<exists>c''. remove c' i = Some c'' \<and> invar c'' \<and> get c'' = get c"
proof -
  have c': "invar c'" "get c i = None" "get c' = (get c)(i := Some x)"
    using add_fresh [OF assms] by auto
  then obtain c'' where "remove c' i = Some c'' \<and> invar c'' \<and> get c'' = (get c')(i := None)"
    using remove_live [of c' i] by auto
  with c' show ?thesis by (auto simp: fun_upd_idem)
qed

end

interpretation oc: slot_table container_get container_add container_remove csize container_inv
proof
  show "container_get c i \<noteq> None \<Longrightarrow> 0 \<le> i \<and> i < csize c" for c :: "'b object_container" and i
    by (auto simp: container_get_def split: if_splits)
  show "container_inv c \<Longrightarrow> container_add c (Some x) = (i, c') \<Longrightarrow> i \<noteq> -1 \<Longrightarrow>
      0 \<le> i \<and> i < csize c \<and> container_get c i = None \<and> container_inv c' \<and> csize c' = csize c
      \<and> container_get c' = (container_get c)(i := Some x)" for c c' :: "'b object_container" and x i
    by (rule container_add_ok)
  show "container_inv c \<Longrightarrow> container_add c (Some x) = (-1, c') \<Longrightarrow>
      c' = c \<and> (\<forall>i. 0 \<le> i \<and> i < csize c \<longrightarrow> container_get c i \<noteq> None)"
    for c c' :: "'b object_container" and x
    using container_add_full [of c "Some x"] by simp
  show "container_inv c \<Longrightarrow> container_get c i \<noteq> None \<Longrightarrow>
      \<exists>c'. container_remove c i = Some c' \<and> container_inv c' \<and> csize c' = csize c
        \<and> container_get c' = (container_get c)(i := None)" for c :: "'b object_container" and i
    by (rule container_remove_ok)
qed

section \<open>Sequences of operations\<close>

text \<open>
  The states a program can reach from \<open>container_create\<close> by adding objects and removing ids that
  are in use, with the map from ids to objects that the calls so far describe.
\<close>

inductive container_run :: "int \<Rightarrow> 'a object_container \<Rightarrow> (int \<rightharpoonup> 'a) \<Rightarrow> bool" for mx where
  created: "container_create mx = Some c \<Longrightarrow> container_run mx c Map.empty"
| added: "container_run mx c m \<Longrightarrow> container_add c (Some x) = (i, c') \<Longrightarrow> i \<noteq> -1 \<Longrightarrow>
    container_run mx c' (m(i \<mapsto> x))"
| refused: "container_run mx c m \<Longrightarrow> container_add c (Some x) = (-1, c') \<Longrightarrow> container_run mx c' m"
| removed: "container_run mx c m \<Longrightarrow> i \<in> dom m \<Longrightarrow> container_remove c i = Some c' \<Longrightarrow>
    container_run mx c' (m(i := None))"

lemma container_run_inv:
  "container_run mx c m \<Longrightarrow> container_inv c \<and> csize c = mx \<and> 0 < mx \<and> container_get c = m"
proof (induction rule: container_run.induct)
  case (created c)
  then show ?case using container_create_inv [of mx c] by (simp add: fun_eq_iff)
next
  case (added c m x i c')
  then show ?case using oc.add_fresh [of c x i c'] by auto
next
  case (refused c m x c')
  then show ?case using oc.add_full [of c x c'] by auto
next
  case (removed c m i c')
  then show ?case using oc.remove_live [of c i] by (auto simp: domIff)
qed

text \<open>
  C20. The container implements a map from ids to objects: in every state reached by adds and removals
  of ids in use, a lookup returns exactly what the calls so far stored, a successful add returns an
  id in range that is not in use, and an add succeeds exactly while fewer than \<open>mx\<close> ids are in use.
\<close>

theorem container_refines_map:
  assumes "container_run mx c m"
  shows "container_get c i = m i
    \<and> (let j = fst (container_add c (Some x))
       in if card (dom m) < nat mx then 0 \<le> j \<and> j < mx \<and> m j = None else j = -1)"
proof -
  have inv: "container_inv c" "csize c = mx" "0 < mx" "container_get c = m"
    using container_run_inv [OF assms] by auto
  have iff: "fst (container_add c (Some x)) \<noteq> -1 \<longleftrightarrow> card (dom m) < nat mx"
    using oc.add_succeeds_iff [of c x] inv by (simp add: oc.live_def dom_def)
  have "container_add c (Some x) = (fst (container_add c (Some x)), snd (container_add c (Some x)))"
    by simp
  from oc.add_fresh [OF inv(1) this] iff inv show ?thesis by (auto simp: Let_def)
qed

theorem container_refines_map_witness:
  "\<exists>c. container_run 1 c [0 \<mapsto> CHR ''a''] \<and> container_get c 0 = Some (CHR ''a'')
     \<and> fst (container_add c (Some (CHR ''b''))) = -1"
proof -
  obtain c0 :: "char object_container" where c0: "container_create 1 = Some c0"
    by (simp add: container_create_def)
  have add: "container_add c0 (Some (CHR ''a'')) = (0, c0\<lparr>freelist := None, mgr := [Some (CHR ''a'')]\<rparr>)"
    using c0 by (auto simp: container_create_def container_link_def container_add_def)
  have run: "container_run 1 (c0\<lparr>freelist := None, mgr := [Some (CHR ''a'')]\<rparr>) [0 \<mapsto> CHR ''a'']"
    using container_run.added [OF container_run.created [OF c0] add] by simp
  show ?thesis
    using run container_refines_map [OF run, of 0 "CHR ''b''"] by (auto simp: Let_def)
qed

text \<open>
  C25. The code does not check that a removed id is in use. When an id that is in use is removed
  twice, the two adds that follow both return this id: two objects share one id and the second
  replaces the first.
\<close>

theorem container_double_remove:
  assumes "container_inv c" "container_get c i \<noteq> None"
    and "container_remove c i = Some c1" "container_remove c1 i = Some c2"
    and "container_add c2 (Some x) = (j, c3)" "container_add c3 (Some y) = (k, c4)"
  shows "j = i \<and> k = i \<and> container_get c4 i = Some y"
proof -
  have i: "0 \<le> i" "i < csize c" "nat i < length (slots c)" "length (mgr c) = nat (csize c)"
      "index (slots c ! nat i) = nat i"
    using assms(1,2) oc.get_range [of c i] by (auto simp: container_inv_def nat_less_iff)
  then have c2: "c2 = c\<lparr>slots := (slots c)[nat i := (slots c ! nat i)\<lparr>sot_next := Some (nat i)\<rparr>],
      freelist := Some (nat i), mgr := (mgr c)[nat i := None]\<rparr>"
    using assms(3,4) by (auto simp: container_remove_def)
  with assms(5) i have "j = i" and c3: "c3 = c2\<lparr>mgr := (mgr c2)[nat i := Some x]\<rparr>"
    by (auto simp: container_add_def)
  with assms(6) c2 i have "k = i" "c4 = c2\<lparr>mgr := (mgr c2)[nat i := Some y]\<rparr>"
    by (auto simp: container_add_def)
  then show ?thesis using \<open>j = i\<close> i c2 by (simp add: container_get_def)
qed

theorem container_double_remove_witness:
  "\<exists>c c1 c2 c3 c4 :: nat object_container. container_inv c \<and> container_get c 0 = Some 6
     \<and> container_remove c 0 = Some c1 \<and> container_remove c1 0 = Some c2
     \<and> container_add c2 (Some 7) = (0, c3) \<and> container_add c3 (Some 8) = (0, c4)
     \<and> container_get c4 0 = Some 8"
proof -
  let ?s = "\<lambda>p. [\<lparr>index = 0, sot_next = p\<rparr>]"
  let ?c = "\<lparr>mgr = [Some 6], csize = 1, slots = ?s None, freelist = None\<rparr> :: nat object_container"
  let ?c1 = "\<lparr>mgr = [None], csize = 1, slots = ?s None, freelist = Some 0\<rparr> :: nat object_container"
  let ?c2 = "\<lparr>mgr = [None], csize = 1, slots = ?s (Some 0), freelist = Some 0\<rparr> :: nat object_container"
  have c: "container_inv ?c" "container_get ?c 0 \<noteq> None"
    by (auto simp: container_inv_def container_get_def intro!: exI [of _ "[]"])
  have r: "container_remove ?c 0 = Some ?c1" "container_remove ?c1 0 = Some ?c2"
    by (simp_all add: container_remove_def)
  have a: "container_add ?c2 (Some 7) = (0, ?c2\<lparr>mgr := [Some 7]\<rparr>)"
    "container_add (?c2\<lparr>mgr := [Some 7]\<rparr>) (Some 8) = (0, ?c2\<lparr>mgr := [Some 8]\<rparr>)"
    by (simp_all add: container_add_def)
  have "container_get ?c 0 = Some 6" by (simp add: container_get_def)
  with c r a container_double_remove [OF c r a] show ?thesis by blast
qed

end
