(* ===== verification/Client_Manager.thy ===== *)
theory Client_Manager
  imports Packet Floats Socket_Event Object_Container
begin

text \<open>
  The gate for game clients, \<open>src/luaclib/lua-client.c\<close> up to \<open>client_manager_release\<close>: it
  accepts connections, gives each an id made of a running index and a slot of the object container,
  cuts the input of its session into packets and passes their payload up, and closes clients.

  A client is an object of the heap \<open>clients\<close>: an address that is not in the heap is freed memory,
  and touching it is the fault \<open>Use_after_free\<close>. Calls into the application
  (\<open>accept_func\<close>, \<open>close_func\<close>, \<open>data_func\<close>) go to the parameter \<open>up\<close>, which may itself call
  back into the manager; the function \<open>application\<close> below builds such a parameter from the
  requests an application makes. An assertion that fails, a null dereference and an access
  outside an array are faults as well. \<open>Kernel_blocked\<close> stands for a session handler without a result:
  the list of kernel results is too short, or a size counter overflows.

  The counter \<open>freq\<close> and the running index are the 32-bit words of the code and wrap around; the
  times \<open>tick\<close> and \<open>loop_now\<close> are the bit patterns of a \<open>double\<close>.
\<close>

section \<open>Data\<close>

datatype fault = Assertion | Null_pointer | Use_after_free | Out_of_bounds | Kernel_blocked | Out_of_fuel

datatype client_cb = Read_complete nat | Close_complete nat | Error_happen nat

datatype upcall = Up_accept "32 word" | Up_close "32 word" | Up_data "32 word" "16 word" bytes int

record ev_client =
  cl_session :: "client_cb ev_session"
  timer_active :: bool
  cl_id :: "64 word"
  need :: int
  freq :: "32 word"
  execute :: bool
  mark :: bool
  seed :: byte
  order :: "16 word"
  tick :: cdouble

record client_manager =
  listening :: bool
  container :: "nat object_container"
  max_client :: nat
  max_offset :: "64 word"
  mgr_index :: "32 word"
  clients :: "nat \<Rightarrow> ev_client option"
  loop_ctx :: ev_loop_ctx
  loop_now :: cdouble
  cached_buffer :: "nat \<Rightarrow> byte"
  closed_fds :: "int list"
  upcalls :: "upcall list"

definition MAX_FREQ :: int where "MAX_FREQ = 100"
definition ALIVE_TIME :: "64 word" where "ALIVE_TIME = 60"
definition MAX_SEQMENT :: int where "MAX_SEQMENT = 64 * 1024"

type_synonym 'a checked = "fault + 'a"
type_synonym handler = "upcall \<Rightarrow> client_manager \<Rightarrow> client_manager checked"

section \<open>Objects\<close>

definition the_client :: "client_manager \<Rightarrow> nat \<Rightarrow> ev_client checked" where
  "the_client m a = (case clients m a of None \<Rightarrow> Inl Use_after_free | Some c \<Rightarrow> Inr c)"

definition put_client :: "nat \<Rightarrow> ev_client \<Rightarrow> client_manager \<Rightarrow> client_manager" where
  "put_client a c m = m\<lparr>clients := (clients m)(a := Some c)\<rparr>"

definition slot_of :: "client_manager \<Rightarrow> 64 word \<Rightarrow> 64 word" where
  "slot_of m i = i - (i div max_offset m) * max_offset m"

text \<open>The container takes the slot as an \<open>int\<close>.\<close>

definition slot_int :: "64 word \<Rightarrow> int" where
  "slot_int w = sint (ucast w :: 32 word)"

definition get_client :: "client_manager \<Rightarrow> 64 word \<Rightarrow> nat option checked" where
  "get_client m i =
     (case container_get (container m) (slot_int (slot_of m i)) of
        None \<Rightarrow> Inr None
      | Some a \<Rightarrow> rbind (the_client m a) (\<lambda>c. if cl_id c \<noteq> i then Inr None else Inr (Some a)))"

definition close_client :: "client_manager \<Rightarrow> nat \<Rightarrow> client_manager checked" where
  "close_client m a =
     rbind (the_client m a) (\<lambda>c.
       case container_remove (container m) (slot_int (slot_of m (cl_id c))) of
         None \<Rightarrow> Inl Out_of_bounds
       | Some k \<Rightarrow> Inr (m\<lparr>container := k, clients := (clients m)(a := None),
                            closed_fds := closed_fds m @ [fd (ev_session_free (cl_session c))]\<rparr>))"

definition error_happen :: "handler \<Rightarrow> client_manager \<Rightarrow> nat \<Rightarrow> client_manager checked" where
  "error_happen up m a =
     rbind (the_client m a) (\<lambda>c. rbind (close_client m a) (\<lambda>m. up (Up_close (ucast (cl_id c))) m))"

section \<open>Receiving\<close>

definition buffer_copy :: "bytes \<Rightarrow> (nat \<Rightarrow> byte) \<Rightarrow> nat \<Rightarrow> byte" where
  "buffer_copy bs buf = (\<lambda>i. if i < length bs then bs ! i else buf i)"

text \<open>\<open>ev_session_read\<close> on the session of a client.\<close>

definition client_read :: "client_manager \<Rightarrow> nat \<Rightarrow> ev_client \<Rightarrow> nat \<Rightarrow> (bytes \<times> client_manager \<times> ev_client) checked" where
  "client_read m a c n =
     (case session_source_read (loop_ctx m, cl_session c) n of
        None \<Rightarrow> Inl Assertion
      | Some (out, lc, s) \<Rightarrow>
          (let c = c\<lparr>cl_session := s\<rparr> in Inr (out, put_client a c (m\<lparr>loop_ctx := lc\<rparr>), c)))"

text \<open>
  One packet body: \<open>need\<close> bytes are read into the shared buffer, unmasked there and checked. The
  result says whether the handler returned early, because the packet was refused.
\<close>

definition read_body :: "handler \<Rightarrow> client_manager \<Rightarrow> nat \<Rightarrow> ev_client \<Rightarrow> (bool \<times> client_manager) checked" where
  "read_body up m a c =
     rbind (client_read m a c (nat (need c))) (\<lambda>(raw, m, c).
       case unmask_bytes (seed c) raw of (plain, sd) \<Rightarrow>
       let buf = buffer_copy plain (cached_buffer m);
           c = c\<lparr>seed := sd\<rparr>;
           m = put_client a c (m\<lparr>cached_buffer := buf\<rparr>);
           sm = checksum plain;
           ord = word_of_nat (le_val [buf 2, buf 3]) :: 16 word;
           mid = word_of_nat (le_val [buf 4, buf 5]) :: 16 word
       in if sm \<noteq> 0 \<or> ord \<noteq> order c then map_sum id (Pair True) (error_happen up m a)
          else (let c = c\<lparr>order := order c + 1, freq := freq c + 1, tick := loop_now m\<rparr>;
                    m = put_client a c m
                in rbind (up (Up_data (ucast (cl_id c)) mid (drop 6 plain) (need c - 6)) m)
                     (\<lambda>m. rbind (the_client m a) (\<lambda>c. Inr (False, put_client a (c\<lparr>need := 0\<rparr>) m)))))"

text \<open>The two header bytes; a length of two or less trips the assertion.\<close>

definition read_header :: "handler \<Rightarrow> client_manager \<Rightarrow> nat \<Rightarrow> ev_client \<Rightarrow> (bool \<times> client_manager) checked" where
  "read_header up m a c =
     rbind (client_read m a c 2) (\<lambda>(hdr, m, c).
       let n = int (le_val hdr) - 2;
           m = put_client a (c\<lparr>need := n\<rparr>) m
       in if \<not> n > 0 then Inl Assertion
          else if n > MAX_SEQMENT then map_sum id (Pair True) (error_happen up m a)
          else Inr (False, m))"

text \<open>The loop of \<open>read_complete\<close>; each round consumes input, which bounds the fuel.\<close>

fun read_packets :: "nat \<Rightarrow> handler \<Rightarrow> client_manager \<Rightarrow> nat \<Rightarrow> (bool \<times> client_manager) checked" where
  "read_packets 0 up m a = Inl Out_of_fuel"
| "read_packets (Suc n) up m a =
     rbind (the_client m a) (\<lambda>c.
       let tot = ev_session_input_size (cl_session c)
       in if mark c then Inr (False, m)
          else if need c = 0
          then (if tot < 2 then Inr (False, m)
                else rbind (read_header up m a c) (\<lambda>(returned, m).
                       if returned then Inr (True, m) else read_packets n up m a))
          else (if tot < need c then Inr (False, m)
                else rbind (read_body up m a c) (\<lambda>(returned, m).
                       if returned then Inr (True, m) else read_packets n up m a)))"

text \<open>The statements after the loop: the last one touches the client even when it was just freed.\<close>

definition read_finish :: "client_manager \<Rightarrow> nat \<Rightarrow> client_manager checked" where
  "read_finish m a =
     rbind (the_client m a) (\<lambda>c.
     rbind (if mark c then close_client m a else Inr m) (\<lambda>m.
     rbind (the_client m a) (\<lambda>c. Inr (put_client a (c\<lparr>execute := False\<rparr>) m))))"

definition read_complete :: "handler \<Rightarrow> client_manager \<Rightarrow> nat \<Rightarrow> client_manager checked" where
  "read_complete up m a =
     rbind (the_client m a) (\<lambda>c.
     let m = put_client a (c\<lparr>execute := True\<rparr>) m
     in rbind (read_packets (Suc (nat (ev_session_input_size (cl_session c)))) up m a) (\<lambda>(returned, m).
          if returned then Inr m else read_finish m a))"

definition timeout :: "handler \<Rightarrow> client_manager \<Rightarrow> nat \<Rightarrow> client_manager checked" where
  "timeout up m a =
     rbind (the_client m a) (\<lambda>c.
     rbind (if sint (freq c) > MAX_FREQ then error_happen up m a else Inr m) (\<lambda>m.
     rbind (the_client m a) (\<lambda>c.
     let c = c\<lparr>freq := 0\<rparr>; m = put_client a c m
     in if \<not> double_eq (tick c) 0 \<and> double_less (int_to_double ALIVE_TIME) (double_sub (loop_now m) (tick c))
        then error_happen up m a else Inr m)))"

section \<open>Accepting, closing and sending\<close>

text \<open>The number of decimal digits, the loop of \<open>client_manager_create\<close>.\<close>

fun digits :: "nat \<Rightarrow> nat" where
  "digits mx = (if mx = 0 then 0 else Suc (digits (mx div 10)))"

declare digits.simps [simp del]

definition client_manager_create :: "nat \<Rightarrow> client_manager option" where
  "client_manager_create mx =
     map_option (\<lambda>k. \<lparr>listening = False, container = k, max_client = mx,
         max_offset = word_of_nat (10 ^ digits mx), mgr_index = 1, clients = (\<lambda>_. None),
         loop_ctx = \<lparr>freelist_len = 0\<rparr>, loop_now = 0, cached_buffer = (\<lambda>_. 0), closed_fds = [],
         upcalls = []\<rparr>)
       (container_create (int mx))"

text \<open>\<open>a\<close> is the address that \<open>malloc\<close> returns for the new client.\<close>

definition accept_client :: "handler \<Rightarrow> client_manager \<Rightarrow> nat \<Rightarrow> int \<Rightarrow> client_manager checked" where
  "accept_client up m a f =
     (case container_add (container m) (Some a) of (slot, k) \<Rightarrow>
        let s = ev_session_bind f
        in if slot = -1 then Inr (m\<lparr>container := k, closed_fds := closed_fds m @ [fd (ev_session_free s)]\<rparr>)
           else (let cid = ucast (mgr_index m) * max_offset m + word_of_int slot;
                     s = ev_session_setcb s (Some (Read_complete a)) None (Some (Error_happen a));
                     s = ev_session_enable s (True, False);
                     c = \<lparr>cl_session = s, timer_active = True, cl_id = cid, need = 0, freq = 0,
                          execute = False, mark = False, seed = 0, order = 0, tick = 0\<rparr>
                 in up (Up_accept (ucast cid))
                      (put_client a c (m\<lparr>container := k, mgr_index := mgr_index m + 1\<rparr>))))"

text \<open>The callback a session handler ends in.\<close>

definition run_callback :: "handler \<Rightarrow> client_manager \<Rightarrow> client_cb option \<Rightarrow> client_manager checked" where
  "run_callback up m cb =
     (case cb of
        None \<Rightarrow> Inr m
      | Some (Read_complete a) \<Rightarrow> read_complete up m a
      | Some (Close_complete a) \<Rightarrow> close_client m a
      | Some (Error_happen a) \<Rightarrow> error_happen up m a)"

definition client_manager_close :: "client_manager \<Rightarrow> 32 word \<Rightarrow> bool \<Rightarrow> (int \<times> client_manager) checked" where
  "client_manager_close m client_id grace =
     rbind (get_client m (scast client_id)) (\<lambda>r.
       case r of
         None \<Rightarrow> Inr (-1, m)
       | Some a \<Rightarrow> rbind (the_client m a) (\<lambda>c.
           if \<not> grace
           then if execute c then Inr (0, put_client a (c\<lparr>mark := True\<rparr>) m)
                else map_sum id (Pair 0) (close_client m a)
           else (let s = ev_session_setcb (cl_session c) None (Some (Close_complete a)) (Some (Error_happen a));
                     s = ev_session_enable (ev_session_disable s (True, False)) (False, True)
                 in Inr (0, put_client a (c\<lparr>cl_session := s\<rparr>) m))))"

text \<open>\<open>client_manager_send\<close> does not test the result of \<open>get_client\<close>.\<close>

definition client_manager_send ::
  "handler \<Rightarrow> client_manager \<Rightarrow> 32 word \<Rightarrow> 32 word \<Rightarrow> bytes \<Rightarrow> write_result list \<Rightarrow> client_manager checked" where
  "client_manager_send up m client_id message_id payload ws =
     rbind (get_client m (scast client_id)) (\<lambda>r.
       case r of
         None \<Rightarrow> Inl Null_pointer
       | Some a \<Rightarrow> rbind (the_client m a) (\<lambda>c.
           let mb = le_bytes 2 (length payload + 4) @ le_bytes 2 (unat message_id) @ payload
           in case ev_session_write (loop_ctx m) (cl_session c) mb ws of
                None \<Rightarrow> Inl Kernel_blocked
              | Some (_, lc, s, cb, _, _) \<Rightarrow>
                  run_callback up (put_client a (c\<lparr>cl_session := s\<rparr>) (m\<lparr>loop_ctx := lc\<rparr>)) cb))"

text \<open>The handlers the event loop runs for a client whose socket is readable or writable.\<close>

definition client_readable :: "handler \<Rightarrow> client_manager \<Rightarrow> nat \<Rightarrow> read_result list \<Rightarrow> client_manager checked" where
  "client_readable up m a rs =
     rbind (the_client m a) (\<lambda>c.
       case ev_read_cb (loop_ctx m) (cl_session c) rs of
         None \<Rightarrow> Inl Kernel_blocked
       | Some (lc, s, cb) \<Rightarrow>
           run_callback up (put_client a (c\<lparr>cl_session := s\<rparr>) (m\<lparr>loop_ctx := lc\<rparr>)) cb)"

definition client_writable :: "handler \<Rightarrow> client_manager \<Rightarrow> nat \<Rightarrow> write_result list \<Rightarrow> client_manager checked" where
  "client_writable up m a ws =
     rbind (the_client m a) (\<lambda>c.
       case ev_write_cb (loop_ctx m) (cl_session c) ws of
         None \<Rightarrow> Inl Kernel_blocked
       | Some (lc, s, cb, _, _) \<Rightarrow>
           run_callback up (put_client a (c\<lparr>cl_session := s\<rparr>) (m\<lparr>loop_ctx := lc\<rparr>)) cb)"

definition client_manager_stop :: "client_manager \<Rightarrow> int \<times> client_manager" where
  "client_manager_stop m = (if listening m then (0, m\<lparr>listening := False\<rparr>) else (-1, m))"

text \<open>\<open>container_foreach\<close> with \<open>close_client\<close>: the objects of all slots, in the order of the slots.\<close>

definition client_manager_release :: "client_manager \<Rightarrow> client_manager checked" where
  "client_manager_release m =
     fold (\<lambda>i r. rbind r (\<lambda>m. case mgr (container m) ! i of None \<Rightarrow> Inr m | Some a \<Rightarrow> close_client m a))
       [0..<nat (csize (container m))] (Inr (snd (client_manager_stop m)))"

section \<open>Applications\<close>

datatype request = Req_close "32 word" bool | Req_send "32 word" "32 word" bytes "write_result list"

definition run_request :: "handler \<Rightarrow> request \<Rightarrow> client_manager \<Rightarrow> client_manager checked" where
  "run_request up r m =
     (case r of
        Req_close i grace \<Rightarrow> map_sum id snd (client_manager_close m i grace)
      | Req_send i mid payload ws \<Rightarrow> client_manager_send up m i mid payload ws)"

text \<open>
  An application is a function from the history of calls into it to the requests it makes before
  it returns; the first argument bounds the depth of nested calls.
\<close>

fun application :: "nat \<Rightarrow> (upcall list \<Rightarrow> request list) \<Rightarrow> handler" where
  "application 0 app ev m = Inl Out_of_fuel"
| "application (Suc d) app ev m =
     (let m = m\<lparr>upcalls := upcalls m @ [ev]\<rparr>
      in fold (\<lambda>r res. rbind res (run_request (application d app) r)) (app (upcalls m)) (Inr m))"

section \<open>The packet parser\<close>

text \<open>
  Reference parser for a stream of packets: from the state of the reader (bytes still needed, seed,
  order number) and the available bytes to the messages, the new state and the bytes left over.
  \<open>None\<close> is a refused or malformed packet.
\<close>

type_synonym parsed = "((16 word \<times> bytes) list \<times> (nat \<times> byte \<times> 16 word) \<times> bytes) option"



definition prepend :: "(16 word \<times> bytes) list \<Rightarrow> parsed \<Rightarrow> parsed" where
  "prepend ms r = map_option (\<lambda>(ms', x). (ms @ ms', x)) r"

lemma prepend_simps [simp]:
  "prepend ms None = None" "prepend [] r = r" "prepend ms (prepend ns r) = prepend (ms @ ns) r"
  "prepend ms (Some (ns, x)) = Some (ms @ ns, x)"
  by (cases r; simp add: prepend_def split_beta)+









section \<open>The reader implements the parser\<close>

text \<open>The state of a reading client, as the parser sees it.\<close>

definition reader_state ::
  "client_manager \<Rightarrow> nat \<Rightarrow> 64 word \<Rightarrow> nat \<Rightarrow> byte \<Rightarrow> 16 word \<Rightarrow> bytes \<Rightarrow> bool" where
  "reader_state m a cid n sd ord bs \<longleftrightarrow>
     (\<exists>c. clients m a = Some c \<and> session_inv (cl_session c)
        \<and> read_cb (cl_session c) = Some (Read_complete a) \<and> \<not> mark c
        \<and> cl_id c = cid \<and> need c = int n \<and> seed c = sd \<and> order c = ord
        \<and> content (in_buf (cl_session c)) = bs)"

definition data_call :: "64 word \<Rightarrow> 16 word \<times> bytes \<Rightarrow> upcall" where
  "data_call cid msg = Up_data (ucast cid) (fst msg) (snd msg) (int (length (snd msg)))"

text \<open>An application that only listens.\<close>

definition listener :: handler where
  "listener = application 1 (\<lambda>_. [])"

lemma listener_simp: "listener ev m = Inr (m\<lparr>upcalls := upcalls m @ [ev]\<rparr>)"
  by (simp add: listener_def Let_def)

lemma session_read_frame:
  "session_source_read p n = Some (out, p') \<Longrightarrow> \<exists>b. snd p' = (snd p)\<lparr>in_buf := b\<rparr>"
  by (auto simp: session_source_read_def ev_session_read_def Let_def split: option.splits)

lemma client_read_ok:
  assumes "session_inv (cl_session c)"
  shows "\<exists>lc b. client_read m a c n =
      Inr (take n (content (in_buf (cl_session c))),
        put_client a (c\<lparr>cl_session := (cl_session c)\<lparr>in_buf := b\<rparr>\<rparr>) (m\<lparr>loop_ctx := lc\<rparr>),
        c\<lparr>cl_session := (cl_session c)\<lparr>in_buf := b\<rparr>\<rparr>)
      \<and> session_inv ((cl_session c)\<lparr>in_buf := b\<rparr>) \<and> content b = drop n (content (in_buf (cl_session c)))"
proof -
  let ?p = "(loop_ctx m, cl_session c)"
  obtain p' where r: "session_source_read ?p n = Some (take n (content (in_buf (cl_session c))), p')"
    "content (in_buf (snd p')) = drop n (content (in_buf (cl_session c)))" "session_inv (snd p')"
    using ss.read_law [of ?p n] assms by auto
  obtain b where "snd p' = (cl_session c)\<lparr>in_buf := b\<rparr>" using session_read_frame [OF r(1)] by auto
  with r show ?thesis by (cases p') (auto simp: client_read_def Let_def)
qed

lemma input_size_content:
  "session_inv s \<Longrightarrow> ev_session_input_size s = int (length (content (in_buf s)))"
  using ss.size_law [of "(undefined, s)"] by simp

lemma le_val_two: "length bs = 2 \<Longrightarrow> le_val bs < 65536"
  using le_val_less [of bs] by simp

lemma read_header_step:
  assumes "reader_state m a cid 0 sd ord bs" "clients m a = Some c"
    and "length bs \<ge> 2" "\<not> le_val (take 2 bs) < 8"
  shows "\<exists>m'. read_header up m a c = Inr (False, m') \<and> upcalls m' = upcalls m
      \<and> reader_state m' a cid (le_val (take 2 bs) - 2) sd ord (drop 2 bs)"
proof -
  have c: "session_inv (cl_session c)" "content (in_buf (cl_session c)) = bs"
    using assms(1,2) by (auto simp: reader_state_def)
  have "int (le_val (take 2 bs)) - 2 \<le> MAX_SEQMENT" "int (le_val (take 2 bs)) - 2 > 0"
    using le_val_two [of "take 2 bs"] assms(3,4) by (auto simp: MAX_SEQMENT_def)
  with client_read_ok [OF c(1), of m a 2] assms c(2) show ?thesis
    by (auto simp: read_header_def reader_state_def put_client_def Let_def of_nat_diff)
qed

lemma nth_pair: "length xs \<ge> k + 2 \<Longrightarrow> [xs ! k, xs ! Suc k] = take 2 (drop k xs)"
  by (rule nth_equalityI) (auto simp: less_Suc_eq numeral_2_eq_2)

text \<open>One valid packet body with any handler: the state in which the handler is called.\<close>

lemma read_body_call:
  assumes "reader_state m a cid n sd ord bs" "clients m a = Some c" "0 < n" "n \<le> length bs"
    and "plain = fst (unmask_bytes sd (take n bs))" "\<not> n < 6" "checksum plain = 0"
    and "word_of_nat (le_val (take 2 (drop 2 plain))) = ord"
    and "msg = (word_of_nat (le_val (take 2 (drop 4 plain))), drop 6 plain)"
  shows "\<exists>m2 c2. clients m2 = (clients m)(a := Some c2) \<and> cl_id c2 = cid \<and> execute c2 = execute c
      \<and> session_inv (cl_session c2) \<and> read_cb (cl_session c2) = read_cb (cl_session c) \<and> mark c2 = mark c
      \<and> content (in_buf (cl_session c2)) = drop n bs \<and> seed c2 = snd (unmask_bytes sd (take n bs))
      \<and> order c2 = ord + 1 \<and> upcalls m2 = upcalls m
      \<and> container m2 = container m \<and> max_offset m2 = max_offset m \<and> mgr_index m2 = mgr_index m
      \<and> (\<forall>up. read_body up m a c = rbind (up (data_call cid msg) m2)
            (\<lambda>m. rbind (the_client m a) (\<lambda>c. Inr (False, put_client a (c\<lparr>need := 0\<rparr>) m))))"
proof -
  have c: "session_inv (cl_session c)" "content (in_buf (cl_session c)) = bs" "nat (need c) = n"
    "seed c = sd" "order c = ord" "cl_id c = cid" "need c = int n"
    using assms(1,2) by (auto simp: reader_state_def)
  have len: "length plain = n" using assms(4,5) by simp
  let ?buf = "buffer_copy plain (cached_buffer m)"
  have b: "?buf i = plain ! i" if "i < 6" for i using that len assms(6) by (simp add: buffer_copy_def)
  have "Suc 2 = 3" "Suc 4 = 5" by simp_all
  then have buf: "[?buf 2, ?buf 3] = take 2 (drop 2 plain)" "[?buf 4, ?buf 5] = take 2 (drop 4 plain)"
    using nth_pair [of 2 plain] nth_pair [of 4 plain] len assms(6) b by (simp_all del: take_drop)
  obtain sd' where pl: "unmask_bytes sd (take n bs) = (plain, sd')"
    using assms(5) by (metis prod.collapse)
  obtain lc buf' where r: "client_read m a c n = Inr (take n bs,
        put_client a (c\<lparr>cl_session := (cl_session c)\<lparr>in_buf := buf'\<rparr>\<rparr>) (m\<lparr>loop_ctx := lc\<rparr>),
        c\<lparr>cl_session := (cl_session c)\<lparr>in_buf := buf'\<rparr>\<rparr>)"
    "session_inv ((cl_session c)\<lparr>in_buf := buf'\<rparr>)" "content buf' = drop n bs"
    using client_read_ok [OF c(1), of m a n] c(2) by auto
  have sz: "int n - 6 = int (length (drop 6 plain))" using len assms(6) by simp
  have o: "word_of_nat (le_val [?buf 2, ?buf 3]) = ord" by (simp only: buf assms(8))
  have i: "word_of_nat (le_val [?buf 4, ?buf 5]) = fst msg" by (simp only: buf assms(9) fst_conv)
  have s: "drop 6 plain = snd msg" by (simp add: assms(9))
  let ?c2 = "c\<lparr>cl_session := (cl_session c)\<lparr>in_buf := buf'\<rparr>, seed := sd', order := ord + 1,
    freq := freq c + 1, tick := loop_now m\<rparr>"
  let ?m2 = "m\<lparr>loop_ctx := lc, cached_buffer := ?buf, clients := (clients m)(a := Some ?c2)\<rparr>"
  have "read_body up m a c = rbind (up (data_call cid msg) ?m2)
      (\<lambda>m. rbind (the_client m a) (\<lambda>c. Inr (False, put_client a (c\<lparr>need := 0\<rparr>) m)))" for up
    by (simp add: read_body_def c(3-7) r(1) pl o i s assms(7) sz put_client_def data_call_def Let_def
        del: le_val.simps length_drop)
  then show ?thesis using c(6) r(2,3) pl by (intro exI [of _ ?m2] exI [of _ ?c2]) simp
qed



lemma reader_state_execute:
  "reader_state m a cid n sd ord bs \<Longrightarrow> clients m a = Some c \<Longrightarrow>
     reader_state (put_client a (c\<lparr>execute := e\<rparr>) m) a cid n sd ord bs"
  by (auto simp: reader_state_def put_client_def)


text \<open>The size of the next read, which the session adapts to what the kernel delivers.\<close>

definition read_size :: "client_manager \<Rightarrow> nat \<Rightarrow> nat" where
  "read_size m a = (case clients m a of None \<Rightarrow> 0 | Some c \<Rightarrow> sess_threshold (cl_session c))"

definition next_read_size :: "nat \<Rightarrow> bytes \<Rightarrow> nat" where
  "next_read_size thr d = adapt_threshold \<lparr>db_data = d, db_size = thr, wpos = length d, rpos = 0\<rparr> thr"

lemma map_sum_Pair_Inr [simp]: "map_sum id (Pair b) r = Inr (x, y) \<longleftrightarrow> x = b \<and> r = Inr y"
  by (cases r) auto






lemma client_readable_deliver:
  assumes "reader_state m a cid n sd ord left" "length d \<le> read_size m a" "length (left @ d) < 2147483648"
  shows "\<exists>m' c'. (\<forall>up. client_readable up m a [Received d] = read_complete up m' a)
      \<and> reader_state m' a cid n sd ord (left @ d) \<and> clients m' = (clients m)(a := Some c') \<and> cl_id c' = cid
      \<and> upcalls m' = upcalls m \<and> container m' = container m \<and> mgr_index m' = mgr_index m
      \<and> max_offset m' = max_offset m \<and> read_size m' a = next_read_size (read_size m a) d"
proof -
  obtain c where c: "clients m a = Some c" "session_inv (cl_session c)" "content (in_buf (cl_session c)) = left"
    "read_cb (cl_session c) = Some (Read_complete a)" "cl_id c = cid"
    using assms(1) by (auto simp: reader_state_def)
  have thr: "length (delivered [Received d]) \<le> sess_threshold (cl_session c)"
    using assms(2) c(1) by (simp add: read_size_def)
  have "sint (total (in_buf (cl_session c))) = int (length left)"
    using c(2,3) by (simp add: session_inv_def input_inv_def buffer_inv_def)
  then have fit: "fits_int (sint (total (in_buf (cl_session c))) + int (length d))" using assms(3) by (simp add: fits_int_def)
  obtain lc s where r: "ev_read_cb (loop_ctx m) (cl_session c) [Received d] = Some (lc, s, read_cb (cl_session c))"
    "read_cb s = read_cb (cl_session c)" "sess_threshold s = next_read_size (sess_threshold (cl_session c)) d"
    using fit by (simp add: ev_read_cb_def buffer_next_def buffer_append_def next_read_size_def Let_def)
  let ?m = "put_client a (c\<lparr>cl_session := s\<rparr>) (m\<lparr>loop_ctx := lc\<rparr>)"
  have "reader_state ?m a cid n sd ord (left @ d)"
    using assms(1) c ev_read_cb_spec [OF c(2) thr r(1)] r(2) by (auto simp: reader_state_def put_client_def)
  moreover have "client_readable up m a [Received d] = read_complete up ?m a" for up
    using c(1,4) r(1) by (simp add: client_readable_def the_client_def run_callback_def)
  ultimately show ?thesis using c(1,5) r(3)
    by (intro exI [of _ ?m] exI [of _ "c\<lparr>cl_session := s\<rparr>"]) (simp add: put_client_def read_size_def)
qed

lemma reader_read_size: "reader_state m a cid n sd ord bs \<Longrightarrow> 256 \<le> read_size m a \<and> read_size m a \<le> 1048576"
  by (auto simp: reader_state_def read_size_def session_inv_def MIN_BUFFER_SIZE_def MAX_BUFFER_SIZE_def)







lemma accept_reader_state:
  assumes "accept_client listener m a f = Inr m1" "clients m a = None" "clients m1 a = Some c"
  shows "reader_state m1 a (cl_id c) 0 0 0 [] \<and> read_size m1 a = MIN_BUFFER_SIZE"
  using assms
  by (auto simp: accept_client_def listener_simp put_client_def reader_state_def read_size_def ev_session_bind_def
      ev_session_setcb_def ev_session_enable_def session_inv_def input_inv_def buffer_inv_def
      MIN_BUFFER_SIZE_def MAX_BUFFER_SIZE_def Let_def split: prod.splits if_splits)

section \<open>Identifiers\<close>

abbreviation off :: "client_manager \<Rightarrow> nat" where
  "off m \<equiv> unat (max_offset m)"

text \<open>
  Slots and clients point to each other: the slot of a client is the remainder of its id, and the
  quotient is the 32-bit index the client was given.
\<close>

definition manager_inv :: "client_manager \<Rightarrow> bool" where
  "manager_inv m \<longleftrightarrow> container_inv (container m) \<and> 0 < off m \<and> off m \<le> 10 ^ 9
     \<and> csize (container m) \<le> int (off m)
     \<and> (\<forall>i a. container_get (container m) i = Some a \<longrightarrow>
           (\<exists>c. clients m a = Some c \<and> int (unat (cl_id c) mod off m) = i))
     \<and> (\<forall>a c. clients m a = Some c \<longrightarrow>
           container_get (container m) (int (unat (cl_id c) mod off m)) = Some a
           \<and> unat (cl_id c) div off m < 2 ^ 32)"

lemma manager_inv_slot:
  "manager_inv m \<Longrightarrow> container_get (container m) i = Some a \<Longrightarrow>
     \<exists>c. clients m a = Some c \<and> int (unat (cl_id c) mod off m) = i"
  unfolding manager_inv_def by blast

lemma manager_inv_client:
  "manager_inv m \<Longrightarrow> clients m a = Some c \<Longrightarrow>
     container_get (container m) (int (unat (cl_id c) mod off m)) = Some a
     \<and> unat (cl_id c) div off m < 2 ^ 32"
  unfolding manager_inv_def by blast

lemma manager_inv_base:
  "manager_inv m \<Longrightarrow> container_inv (container m) \<and> 0 < off m \<and> off m \<le> 10 ^ 9 \<and> csize (container m) \<le> int (off m)"
  unfolding manager_inv_def by blast

lemma manager_invI:
  assumes "container_inv (container m)" "0 < off m" "off m \<le> 10 ^ 9" "csize (container m) \<le> int (off m)"
    and "\<And>i a. container_get (container m) i = Some a \<Longrightarrow>
           \<exists>c. clients m a = Some c \<and> int (unat (cl_id c) mod off m) = i"
    and "\<And>a c. clients m a = Some c \<Longrightarrow>
           container_get (container m) (int (unat (cl_id c) mod off m)) = Some a
           \<and> unat (cl_id c) div off m < 2 ^ 32"
  shows "manager_inv m"
  unfolding manager_inv_def using assms by blast

lemma slot_of_mod:
  assumes "0 < off m"
  shows "unat (slot_of m i) = unat i mod off m"
proof -
  have "(i div max_offset m) * max_offset m + i mod max_offset m = i" by (rule div_mult_mod_eq)
  then have "slot_of m i = i mod max_offset m" unfolding slot_of_def
    by (metis add_diff_cancel_left')
  then show ?thesis by (simp add: unat_mod)
qed

lemma slot_int_small:
  assumes "unat w < 2 ^ 31"
  shows "slot_int w = int (unat w)"
proof -
  have u: "unat (ucast w :: 32 word) = unat w"
    using assms by (simp add: unsigned_ucast_eq take_bit_nat_eq_self)
  have "uint (ucast w :: 32 word) = int (unat (ucast w :: 32 word))" by (rule uint_nat)
  with u have "uint (ucast w :: 32 word) = int (unat w)" by (simp only:)
  then have "sint (ucast w :: 32 word) = signed_take_bit 31 (int (unat w))"
    by (simp only: sint_uint) simp
  also have "\<dots> = int (unat w)"
  proof (rule signed_take_bit_int_eq_self)
    show "- (2 ^ 31) \<le> int (unat w)" by (rule order_trans [OF _ of_nat_0_le_iff]) simp
    show "int (unat w) < 2 ^ 31" using assms by (metis of_nat_less_numeral_power_cancel_iff)
  qed
  finally show ?thesis by (simp only: slot_int_def)
qed

lemma slot_int_of:
  assumes "manager_inv m"
  shows "slot_int (slot_of m i) = int (unat i mod off m)"
proof -
  have "0 < off m" "off m \<le> 10 ^ 9" using assms by (auto simp: manager_inv_def)
  moreover from this have "unat i mod off m < 10 ^ 9" using mod_less_divisor [of "off m" "unat i"] by linarith
  ultimately show ?thesis using slot_int_small [of "slot_of m i"] by (simp add: slot_of_mod)
qed

lemma get_client_live:
  "manager_inv m \<Longrightarrow> clients m a = Some c \<Longrightarrow> get_client m (cl_id c) = Inr (Some a)"
  by (simp add: get_client_def slot_int_of manager_inv_client the_client_def)

lemma get_client_cases:
  assumes "manager_inv m"
  shows "get_client m i = Inr None \<and> (\<forall>a c. clients m a = Some c \<longrightarrow> cl_id c \<noteq> i)
    \<or> (\<exists>a c. get_client m i = Inr (Some a) \<and> clients m a = Some c \<and> cl_id c = i)"
proof (cases "\<exists>a c. clients m a = Some c \<and> cl_id c = i")
  case True
  then show ?thesis using get_client_live [OF assms] by blast
next
  case False
  have "get_client m i = Inr None"
  proof (cases "container_get (container m) (slot_int (slot_of m i))")
    case (Some a)
    then obtain c where "clients m a = Some c" using manager_inv_slot [OF assms] by blast
    then show ?thesis using Some False by (simp add: get_client_def the_client_def)
  qed (simp add: get_client_def)
  then show ?thesis using False by blast
qed

definition live_ids :: "client_manager \<Rightarrow> 64 word set" where
  "live_ids m = {i. \<exists>a c. clients m a = Some c \<and> cl_id c = i}"

text \<open>What every operation but an accept does to the ids: it may only retire some.\<close>

definition shrinks :: "client_manager \<Rightarrow> client_manager \<Rightarrow> bool" where
  "shrinks m m' \<longleftrightarrow> manager_inv m' \<and> mgr_index m' = mgr_index m \<and> max_offset m' = max_offset m
     \<and> live_ids m' \<subseteq> live_ids m"

lemma shrinks_refl: "manager_inv m \<Longrightarrow> shrinks m m"
  by (simp add: shrinks_def)

lemma shrinks_trans: "shrinks m m1 \<Longrightarrow> shrinks m1 m2 \<Longrightarrow> shrinks m m2"
  by (auto simp: shrinks_def)

lemma shrinks_inv: "shrinks m m' \<Longrightarrow> manager_inv m'"
  by (simp add: shrinks_def)

lemma shrinks_put:
  assumes "manager_inv m" "clients m a = Some c" "cl_id c' = cl_id c"
    and "container m' = container m" "mgr_index m' = mgr_index m" "max_offset m' = max_offset m"
    and "clients m' = (clients m)(a := Some c')"
  shows "shrinks m m'"
proof -
  have "live_ids m' \<subseteq> live_ids m"
    using assms(2,3,7) by (auto simp: live_ids_def split: if_splits)
  moreover have "\<exists>d. clients m' b = Some d \<and> int (unat (cl_id d) mod off m') = i"
    if "container_get (container m') i = Some b" for i b
    using manager_inv_slot [OF assms(1), of i b] that assms(2-7) by (cases "b = a") auto
  moreover have "container_get (container m') (int (unat (cl_id d) mod off m')) = Some b
      \<and> unat (cl_id d) div off m' < 2 ^ 32" if "clients m' b = Some d" for b d
    using manager_inv_client [OF assms(1), of b] that assms(2-7) by (cases "b = a") auto
  ultimately have "live_ids m' \<subseteq> live_ids m" "manager_inv m'"
    using manager_inv_base [OF assms(1)] assms(4,6) by (simp_all add: manager_inv_def)
  then show ?thesis using assms(5,6) by (simp add: shrinks_def)
qed

lemma close_client_ok:
  assumes "manager_inv m" "clients m a = Some c"
  shows "\<exists>m'. close_client m a = Inr m' \<and> shrinks m m' \<and> clients m' = (clients m)(a := None)
      \<and> cl_id c \<notin> live_ids m'"
proof -
  let ?i = "int (unat (cl_id c) mod off m)"
  have g: "container_get (container m) ?i = Some a" using manager_inv_client [OF assms] by blast
  obtain k where k: "container_remove (container m) ?i = Some k" "container_inv k"
    "csize k = csize (container m)" "container_get k = (container_get (container m))(?i := None)"
    using oc.remove_live [of "container m" ?i] manager_inv_base [OF assms(1)] g by auto
  let ?m = "m\<lparr>container := k, clients := (clients m)(a := None),
               closed_fds := closed_fds m @ [fd (ev_session_free (cl_session c))]\<rparr>"
  have r: "close_client m a = Inr ?m"
    using assms k(1) by (simp add: close_client_def the_client_def slot_int_of)
  have other: "int (unat (cl_id c') mod off m) \<noteq> ?i" if "clients m b = Some c'" "b \<noteq> a" for b c'
  proof
    assume eq: "int (unat (cl_id c') mod off m) = ?i"
    show False using manager_inv_client [OF assms(1) that(1), unfolded eq] g that(2) by simp
  qed
  have slots: "\<exists>c. clients ?m b = Some c \<and> int (unat (cl_id c) mod off ?m) = i"
    if "container_get (container ?m) i = Some b" for i b
  proof -
    have "i \<noteq> ?i" "container_get (container m) i = Some b" using that k(4) by (auto split: if_splits)
    moreover from this obtain d where "clients m b = Some d" "int (unat (cl_id d) mod off m) = i"
      using manager_inv_slot [OF assms(1)] by blast
    ultimately show ?thesis using assms(2) by (cases "b = a") auto
  qed
  have bwd: "container_get (container ?m) (int (unat (cl_id c') mod off ?m)) = Some b
      \<and> unat (cl_id c') div off ?m < 2 ^ 32" if "clients ?m b = Some c'" for b c'
  proof -
    have b: "b \<noteq> a" "clients m b = Some c'" using that by (auto split: if_splits)
    have ne: "int (unat (cl_id c') mod off m) \<noteq> ?i" by (rule other [OF b(2,1)])
    have "container_get k (int (unat (cl_id c') mod off m)) = Some b"
      unfolding k(4) fun_upd_other [OF ne] using manager_inv_client [OF assms(1) b(2)] by blast
    then show ?thesis using manager_inv_client [OF assms(1) b(2)] by simp
  qed
  have "manager_inv ?m"
    by (rule manager_invI [OF _ _ _ _ slots bwd]) (use manager_inv_base [OF assms(1)] k(2,3) in simp_all)
  moreover have "cl_id c \<notin> live_ids ?m"
  proof
    assume "cl_id c \<in> live_ids ?m"
    then obtain b c' where "clients m b = Some c'" "b \<noteq> a" "cl_id c' = cl_id c"
      by (auto simp: live_ids_def split: if_splits)
    then show False using other [of b c'] by simp
  qed
  moreover have "live_ids ?m \<subseteq> live_ids m" by (auto simp: live_ids_def split: if_splits)
  ultimately show ?thesis using r by (auto simp: shrinks_def)
qed

text \<open>A handler that keeps the ids in this sense, and that every operation then does so.\<close>

definition handler_ok :: "handler \<Rightarrow> bool" where
  "handler_ok up \<longleftrightarrow> (\<forall>ev m m'. manager_inv m \<longrightarrow> up ev m = Inr m' \<longrightarrow> shrinks m m')"

lemma handler_okD: "handler_ok up \<Longrightarrow> manager_inv m \<Longrightarrow> up ev m = Inr m' \<Longrightarrow> shrinks m m'"
  by (simp add: handler_ok_def)

lemma the_client_Inr [simp]: "the_client m a = Inr c \<longleftrightarrow> clients m a = Some c"
  by (auto simp: the_client_def split: option.splits)

lemma close_client_shrinks:
  assumes "manager_inv m" "close_client m a = Inr m'"
  shows "shrinks m m'"
proof -
  obtain c where "clients m a = Some c" using assms(2) by (auto simp: close_client_def rbind_eq_Inr_iff)
  with close_client_ok [OF assms(1) this] assms(2) show ?thesis by auto
qed

lemma error_happen_shrinks:
  assumes "handler_ok up" "manager_inv m" "error_happen up m a = Inr m'"
  shows "shrinks m m'"
proof -
  obtain m1 and c :: ev_client where "close_client m a = Inr m1" "up (Up_close (ucast (cl_id c))) m1 = Inr m'"
    using assms(3) unfolding error_happen_def rbind_eq_Inr_iff by blast
  then show ?thesis using close_client_shrinks [OF assms(2)] handler_okD [OF assms(1)]
    by (blast intro: shrinks_trans shrinks_inv)
qed

lemma client_read_shrinks:
  assumes "manager_inv m" "clients m a = Some c" "client_read m a c n = Inr (out, m', c')"
  shows "shrinks m m' \<and> clients m' a = Some c' \<and> cl_id c' = cl_id c"
proof -
  have "clients m' = (clients m)(a := Some c')" "cl_id c' = cl_id c" "container m' = container m"
    "mgr_index m' = mgr_index m" "max_offset m' = max_offset m"
    using assms(3) by (auto simp: client_read_def put_client_def Let_def split: option.splits)
  then show ?thesis using shrinks_put [OF assms(1,2)] by simp
qed

lemma read_header_shrinks:
  assumes "handler_ok up" "manager_inv m" "clients m a = Some c" "read_header up m a c = Inr (b, m')"
  shows "shrinks m m'"
proof -
  obtain hdr m1 c1 where r: "client_read m a c 2 = Inr (hdr, m1, c1)"
    using assms(4) by (auto simp: read_header_def rbind_eq_Inr_iff)
  let ?m2 = "put_client a (c1\<lparr>need := int (le_val hdr) - 2\<rparr>) m1"
  note m1 = client_read_shrinks [OF assms(2,3) r]
  have "shrinks m1 ?m2" using m1 by (intro shrinks_put [of m1 a c1]) (auto simp: put_client_def dest: shrinks_inv)
  with m1 have s2: "shrinks m ?m2" by (blast intro: shrinks_trans)
  have "m' = ?m2 \<or> error_happen up ?m2 a = Inr m'"
    using assms(4) r by (auto simp: read_header_def Let_def split: if_splits)
  then show ?thesis using s2 error_happen_shrinks [OF assms(1)] by (blast intro: shrinks_trans shrinks_inv)
qed

lemma read_body_shrinks:
  assumes "handler_ok up" "manager_inv m" "clients m a = Some c" "read_body up m a c = Inr (b, m')"
  shows "shrinks m m'"
proof -
  obtain raw m1 c1 where r: "client_read m a c (nat (need c)) = Inr (raw, m1, c1)"
    using assms(4) by (auto simp: read_body_def rbind_eq_Inr_iff)
  note m1 = client_read_shrinks [OF assms(2,3) r]
  obtain plain sd where u: "unmask_bytes (seed c1) raw = (plain, sd)" by (cases "unmask_bytes (seed c1) raw")
  let ?m2 = "put_client a (c1\<lparr>seed := sd\<rparr>) (m1\<lparr>cached_buffer := buffer_copy plain (cached_buffer m1)\<rparr>)"
  let ?m3 = "put_client a (c1\<lparr>seed := sd, order := order c1 + 1, freq := freq c1 + 1, tick := loop_now m1\<rparr>) ?m2"
  have inv1: "manager_inv m1" using m1 by (blast dest: shrinks_inv)
  have s2: "shrinks m1 ?m2" using m1 by (intro shrinks_put [OF inv1, of a c1]) (auto simp: put_client_def)
  have s3: "shrinks m1 ?m3" using m1 by (intro shrinks_put [OF inv1, of a c1]) (auto simp: put_client_def)
  have "error_happen up ?m2 a = Inr m' \<or>
      (\<exists>ev m4 c4. up ev ?m3 = Inr m4 \<and> clients m4 a = Some c4 \<and> m' = put_client a (c4\<lparr>need := 0\<rparr>) m4)"
    using assms(4) r u unfolding read_body_def
    by (auto simp: rbind_eq_Inr_iff Let_def put_client_def split: if_splits)
  then show ?thesis
  proof
    assume "error_happen up ?m2 a = Inr m'"
    then show ?thesis using m1 s2 error_happen_shrinks [OF assms(1)] by (blast intro: shrinks_trans shrinks_inv)
  next
    assume "\<exists>ev m4 c4. up ev ?m3 = Inr m4 \<and> clients m4 a = Some c4 \<and> m' = put_client a (c4\<lparr>need := 0\<rparr>) m4"
    then obtain ev m4 c4 where m4: "up ev ?m3 = Inr m4" "clients m4 a = Some c4"
      and m': "m' = put_client a (c4\<lparr>need := 0\<rparr>) m4" by blast
    have "shrinks m m4" using m1 s3 handler_okD [OF assms(1) _ m4(1)] by (blast intro: shrinks_trans shrinks_inv)
    moreover have "shrinks m4 m'" unfolding m'
      by (rule shrinks_put [OF shrinks_inv [OF \<open>shrinks m m4\<close>] m4(2)]) (simp_all add: put_client_def)
    ultimately show ?thesis by (rule shrinks_trans)
  qed
qed

lemma read_packets_shrinks:
  assumes "handler_ok up" "manager_inv m" "read_packets n up m a = Inr (b, m')"
  shows "shrinks m m'"
  using assms(2,3)
proof (induction n arbitrary: m)
  case (Suc n)
  obtain c where c: "clients m a = Some c" using Suc.prems(2) by (auto simp: rbind_eq_Inr_iff)
  have "m' = m \<or> (\<exists>b1 m1. (read_header up m a c = Inr (b1, m1) \<or> read_body up m a c = Inr (b1, m1))
      \<and> (m' = m1 \<or> read_packets n up m1 a = Inr (b, m')))"
    using Suc.prems(2) c by (fastforce simp: rbind_eq_Inr_iff Let_def the_client_def split: if_splits)
  then show ?case
    using Suc.IH shrinks_refl [OF Suc.prems(1)] read_header_shrinks [OF assms(1) Suc.prems(1) c]
      read_body_shrinks [OF assms(1) Suc.prems(1) c]
    by (blast intro: shrinks_trans shrinks_inv)
qed simp

lemma read_finish_shrinks:
  assumes "manager_inv m" "read_finish m a = Inr m'"
  shows "shrinks m m'"
proof -
  obtain c m1 c1 where c: "clients m a = Some c" "(if mark c then close_client m a else Inr m) = Inr m1"
    "clients m1 a = Some c1" "m' = put_client a (c1\<lparr>execute := False\<rparr>) m1"
    using assms(2) by (auto simp: read_finish_def rbind_eq_Inr_iff)
  have s1: "shrinks m m1" using c(2) close_client_shrinks [OF assms(1)] shrinks_refl [OF assms(1)]
    by (auto split: if_splits)
  have "shrinks m1 m'" unfolding c(4)
    by (rule shrinks_put [OF shrinks_inv [OF s1] c(3)]) (simp_all add: put_client_def)
  with s1 show ?thesis by (rule shrinks_trans)
qed

lemma read_complete_shrinks:
  assumes "handler_ok up" "manager_inv m" "read_complete up m a = Inr m'"
  shows "shrinks m m'"
proof -
  obtain c where c: "clients m a = Some c" using assms(3) by (auto simp: read_complete_def rbind_eq_Inr_iff)
  let ?m = "put_client a (c\<lparr>execute := True\<rparr>) m"
  let ?f = "Suc (nat (ev_session_input_size (cl_session c)))"
  have s0: "shrinks m ?m" by (rule shrinks_put [OF assms(2) c]) (simp_all add: put_client_def)
  obtain b m1 where r: "read_packets ?f up ?m a = Inr (b, m1)" "m' = m1 \<or> read_finish m1 a = Inr m'"
    using assms(3) c
    by (auto simp: read_complete_def rbind_eq_Inr_iff the_client_def Let_def simp del: read_packets.simps split: if_splits)
  have "shrinks ?m m1" using read_packets_shrinks [OF assms(1) shrinks_inv [OF s0] r(1)] .
  with s0 have "shrinks m m1" by (rule shrinks_trans)
  then show ?thesis using r(2) read_finish_shrinks by (blast intro: shrinks_trans shrinks_inv)
qed

lemma run_callback_shrinks:
  assumes "handler_ok up" "manager_inv m" "run_callback up m cb = Inr m'"
  shows "shrinks m m'"
  using assms shrinks_refl close_client_shrinks error_happen_shrinks read_complete_shrinks
  by (auto simp: run_callback_def split: option.splits client_cb.splits)

lemma timeout_shrinks:
  assumes "handler_ok up" "manager_inv m" "timeout up m a = Inr m'"
  shows "shrinks m m'"
proof -
  obtain c m1 c1 where c: "clients m a = Some c" "(if sint (freq c) > MAX_FREQ then error_happen up m a else Inr m) = Inr m1"
    "clients m1 a = Some c1"
    and e: "(if \<not> double_eq (tick (c1\<lparr>freq := 0\<rparr>)) 0 \<and> double_less (int_to_double ALIVE_TIME)
        (double_sub (loop_now (put_client a (c1\<lparr>freq := 0\<rparr>) m1)) (tick (c1\<lparr>freq := 0\<rparr>)))
      then error_happen up (put_client a (c1\<lparr>freq := 0\<rparr>) m1) a else Inr (put_client a (c1\<lparr>freq := 0\<rparr>) m1)) = Inr m'"
    using assms(3) unfolding timeout_def rbind_eq_Inr_iff Let_def the_client_Inr by blast
  have s1: "shrinks m m1" using c(2) error_happen_shrinks [OF assms(1,2)] shrinks_refl [OF assms(2)]
    by (auto split: if_splits)
  have "shrinks m1 (put_client a (c1\<lparr>freq := 0\<rparr>) m1)"
    by (rule shrinks_put [OF shrinks_inv [OF s1] c(3)]) (simp_all add: put_client_def)
  moreover have "m' = put_client a (c1\<lparr>freq := 0\<rparr>) m1 \<or> error_happen up (put_client a (c1\<lparr>freq := 0\<rparr>) m1) a = Inr m'"
    using e by (auto split: if_splits)
  ultimately show ?thesis using s1 error_happen_shrinks [OF assms(1)] by (blast intro: shrinks_trans shrinks_inv)
qed

lemma session_update_shrinks:
  assumes "manager_inv m" "clients m a = Some c"
  shows "shrinks m (put_client a (c\<lparr>cl_session := s\<rparr>) (m\<lparr>loop_ctx := lc\<rparr>))"
  by (rule shrinks_put [OF assms]) (simp_all add: put_client_def)

lemma client_readable_shrinks:
  assumes "handler_ok up" "manager_inv m" "client_readable up m a rs = Inr m'"
  shows "shrinks m m'"
proof -
  obtain c lc s cb where c: "clients m a = Some c"
    "run_callback up (put_client a (c\<lparr>cl_session := s\<rparr>) (m\<lparr>loop_ctx := lc\<rparr>)) cb = Inr m'"
    using assms(3) by (auto simp: client_readable_def rbind_eq_Inr_iff split: option.splits)
  note s = session_update_shrinks [OF assms(2) c(1), of s lc]
  show ?thesis by (rule shrinks_trans [OF s run_callback_shrinks [OF assms(1) shrinks_inv [OF s] c(2)]])
qed

lemma client_writable_shrinks:
  assumes "handler_ok up" "manager_inv m" "client_writable up m a ws = Inr m'"
  shows "shrinks m m'"
proof -
  obtain c lc s cb where c: "clients m a = Some c"
    "run_callback up (put_client a (c\<lparr>cl_session := s\<rparr>) (m\<lparr>loop_ctx := lc\<rparr>)) cb = Inr m'"
    using assms(3) by (auto simp: client_writable_def rbind_eq_Inr_iff split: option.splits)
  note s = session_update_shrinks [OF assms(2) c(1), of s lc]
  show ?thesis by (rule shrinks_trans [OF s run_callback_shrinks [OF assms(1) shrinks_inv [OF s] c(2)]])
qed

lemma client_manager_send_shrinks:
  assumes "handler_ok up" "manager_inv m" "client_manager_send up m i mid payload ws = Inr m'"
  shows "shrinks m m'"
proof -
  obtain a c lc s cb where c: "clients m a = Some c"
    "run_callback up (put_client a (c\<lparr>cl_session := s\<rparr>) (m\<lparr>loop_ctx := lc\<rparr>)) cb = Inr m'"
    using assms(3) by (auto simp: client_manager_send_def rbind_eq_Inr_iff Let_def split: option.splits)
  note s = session_update_shrinks [OF assms(2) c(1), of s lc]
  show ?thesis by (rule shrinks_trans [OF s run_callback_shrinks [OF assms(1) shrinks_inv [OF s] c(2)]])
qed

lemma client_manager_close_shrinks:
  assumes "manager_inv m" "client_manager_close m i grace = Inr (r, m')"
  shows "shrinks m m'"
proof -
  obtain r0 where r0: "get_client m (scast i) = Inr r0"
    using assms(2) by (auto simp: client_manager_close_def rbind_eq_Inr_iff)
  show ?thesis
  proof (cases r0)
    case None
    then show ?thesis using assms r0 by (simp add: client_manager_close_def shrinks_refl)
  next
    case (Some a)
    then obtain c where c: "clients m a = Some c"
      using assms(2) r0 by (auto simp: client_manager_close_def rbind_eq_Inr_iff)
    let ?s = "ev_session_setcb (cl_session c) None (Some (Close_complete a)) (Some (Error_happen a))"
    have "close_client m a = Inr m' \<or> m' = put_client a (c\<lparr>mark := True\<rparr>) m \<or>
        m' = put_client a (c\<lparr>cl_session := ev_session_enable (ev_session_disable ?s (True, False)) (False, True)\<rparr>) m"
      using assms(2) r0 Some c
      by (auto simp: client_manager_close_def the_client_def Let_def split: if_splits)
    moreover have "shrinks m (put_client a c' m)" if "cl_id c' = cl_id c" for c'
      by (rule shrinks_put [OF assms(1) c that]) (simp_all add: put_client_def)
    ultimately show ?thesis using close_client_shrinks [OF assms(1)] by auto
  qed
qed

lemma run_request_shrinks:
  assumes "handler_ok up" "manager_inv m" "run_request up r m = Inr m'"
  shows "shrinks m m'"
proof (cases r)
  case (Req_close i grace)
  then obtain b where "client_manager_close m i grace = Inr (b, m')"
    using assms(3) by (cases "client_manager_close m i grace") (auto simp: run_request_def)
  then show ?thesis by (rule client_manager_close_shrinks [OF assms(2)])
next
  case (Req_send i mid payload ws)
  then show ?thesis using assms(3) client_manager_send_shrinks [OF assms(1,2)] by (simp add: run_request_def)
qed

lemma requests_shrink:
  assumes "handler_ok up" "manager_inv m"
    and "fold (\<lambda>r res. rbind res (run_request up r)) rs (Inr m) = Inr m'"
  shows "shrinks m m'"
  using assms(2,3)
proof (induction rs arbitrary: m)
  case Nil
  then show ?case by (simp add: shrinks_refl)
next
  case (Cons r rs)
  have Inl: "fold (\<lambda>r res. rbind res (run_request up r)) rs (Inl e) \<noteq> Inr m'" for e
    by (induction rs) simp_all
  obtain m1 where m1: "run_request up r m = Inr m1"
    using Cons.prems(2) Inl by (cases "run_request up r m") auto
  note s = run_request_shrinks [OF assms(1) Cons.prems(1) m1]
  show ?case using Cons.IH [OF shrinks_inv [OF s]] Cons.prems(2) m1 s by (auto intro: shrinks_trans)
qed

lemma application_ok: "handler_ok (application d app)"
proof (induction d)
  case 0
  then show ?case by (simp add: handler_ok_def)
next
  case (Suc d)
  have "shrinks m m'" if inv: "manager_inv m" and r: "application (Suc d) app ev m = Inr m'" for ev m m'
  proof -
    let ?m = "m\<lparr>upcalls := upcalls m @ [ev]\<rparr>"
    have s: "shrinks m ?m" using inv by (simp add: shrinks_def manager_inv_def live_ids_def)
    have "shrinks ?m m'"
      using requests_shrink [OF Suc.IH shrinks_inv [OF s]] r by (simp add: Let_def)
    with s show ?thesis by (rule shrinks_trans)
  qed
  then show ?case unfolding handler_ok_def by blast
qed

text \<open>An accept issues the next index; the id it makes differs from every id issued before.\<close>

lemma new_id_parts:
  assumes "0 < off m" "off m \<le> 10 ^ 9" "0 \<le> slot" "slot < int (off m)"
    and "cid = ucast (mgr_index m) * max_offset m + word_of_int slot"
  shows "unat cid mod off m = nat slot" "unat cid div off m = unat (mgr_index m)"
proof -
  have i: "unat (mgr_index m) < 2 ^ 32" using unsigned_less [of "mgr_index m"] by simp
  have "unat (mgr_index m) * off m \<le> 2 ^ 32 * 10 ^ 9" using i assms(2) by (intro mult_le_mono) simp_all
  moreover have "nat slot < 10 ^ 9" using assms(2-4) by linarith
  ultimately have lt: "unat (mgr_index m) * off m + nat slot < 2 ^ 64" by simp
  have w: "word_of_int slot = (word_of_nat (nat slot) :: 64 word)" using assms(3) by simp
  have e: "cid = word_of_nat (unat (mgr_index m) * off m + nat slot)"
    unfolding assms(5) w by simp
  have "unat cid = unat (mgr_index m) * off m + nat slot"
    unfolding e using lt by (simp only: unat_of_nat) simp
  moreover have "nat slot < off m" using assms(3,4) by linarith
  ultimately show "unat cid mod off m = nat slot" "unat cid div off m = unat (mgr_index m)"
    using assms(1) by (simp_all add: div_add1_eq)
qed

definition id_step :: "client_manager \<Rightarrow> client_manager \<Rightarrow> bool" where
  "id_step m m' \<longleftrightarrow> manager_inv m' \<and> max_offset m' = max_offset m
     \<and> (if mgr_index m' = mgr_index m then live_ids m' \<subseteq> live_ids m
        else mgr_index m' = mgr_index m + 1
          \<and> live_ids m' \<subseteq> live_ids m \<union> {i. unat i div off m = unat (mgr_index m)})"

lemma shrinks_id_step: "shrinks m m' \<Longrightarrow> id_step m m'"
  by (simp add: shrinks_def id_step_def)

lemma accept_client_ok:
  assumes "handler_ok up" "manager_inv m" "clients m a = None" "accept_client up m a f = Inr m'"
  shows "id_step m m'"
proof -
  obtain slot k where k: "container_add (container m) (Some a) = (slot, k)" by fastforce
  note base = manager_inv_base [OF assms(2)]
  show ?thesis
  proof (cases "slot = -1")
    case True
    then have "k = container m" using oc.add_full [of "container m" a k] base k by auto
    then have m': "m' = m\<lparr>closed_fds := closed_fds m @ [fd (ev_session_free (ev_session_bind f :: client_cb ev_session))]\<rparr>"
      using assms(4) k True by (simp add: accept_client_def)
    then have "manager_inv m' = manager_inv m" "live_ids m' = live_ids m"
      unfolding manager_inv_def live_ids_def by simp_all
    then show ?thesis using assms(2) m' by (simp add: id_step_def)
  next
    case False
    have fresh: "0 \<le> slot" "slot < csize (container m)" "container_get (container m) slot = None"
      "container_inv k" "csize k = csize (container m)" "container_get k = (container_get (container m))(slot := Some a)"
      using oc.add_fresh [OF _ k False] base by auto
    define cid where "cid = ucast (mgr_index m) * max_offset m + (word_of_int slot :: 64 word)"
    have id: "unat cid mod off m = nat slot" "unat cid div off m = unat (mgr_index m)"
      using new_id_parts [OF _ _ fresh(1) _ cid_def] base fresh(2) by auto
    have sl: "int (unat cid mod off m) = slot" using id(1) fresh(1) by simp
    obtain c m1 where m1: "up (Up_accept (ucast cid)) m1 = Inr m'" "cl_id c = cid"
      "m1 = put_client a c (m\<lparr>container := k, mgr_index := mgr_index m + 1\<rparr>)"
      using assms(4) k False by (auto simp: accept_client_def cid_def Let_def)
    have cl: "clients m1 = (clients m)(a := Some c)" "container m1 = k" "max_offset m1 = max_offset m"
      "mgr_index m1 = mgr_index m + 1"
      using m1(3) by (simp_all add: put_client_def)
    have i: "unat (mgr_index m) < 2 ^ 32" using unsigned_less [of "mgr_index m", where 'a = nat] by simp
    have inv1: "manager_inv m1"
    proof (rule manager_invI)
      fix i b assume "container_get (container m1) i = Some b"
      then show "\<exists>d. clients m1 b = Some d \<and> int (unat (cl_id d) mod off m1) = i"
        using manager_inv_slot [OF assms(2), of i b] assms(3) fresh(6) sl m1(2)
        unfolding cl by (cases "i = slot"; cases "b = a") auto
    next
      fix b d assume d: "clients m1 b = Some d"
      show "container_get (container m1) (int (unat (cl_id d) mod off m1)) = Some b
          \<and> unat (cl_id d) div off m1 < 2 ^ 32"
      proof (cases "b = a")
        case True
        then show ?thesis using d sl id(2) m1(2) fresh(6) i unfolding cl by simp
      next
        case False
        then have "clients m b = Some d" using d unfolding cl by simp
        then show ?thesis using manager_inv_client [OF assms(2), of b d] fresh(3,6) unfolding cl by auto
      qed
    qed (use base fresh(4,5) in \<open>simp_all add: cl\<close>)
    have "live_ids m1 \<subseteq> live_ids m \<union> {cid}" using m1(2) unfolding live_ids_def cl by auto
    then show ?thesis using handler_okD [OF assms(1) inv1 m1(1)] id(2) cl(3,4)
      by (auto simp: shrinks_def id_step_def)
  qed
qed

text \<open>The steps of a gate under any application; the clock of the event loop may change at any time.\<close>

inductive gate_step :: "(upcall list \<Rightarrow> request list) \<Rightarrow> client_manager \<Rightarrow> client_manager \<Rightarrow> bool"
  for app where
  step_accept: "accept_client (application d app) m a f = Inr m' \<Longrightarrow> clients m a = None \<Longrightarrow> gate_step app m m'"
| step_readable: "client_readable (application d app) m a rs = Inr m' \<Longrightarrow> gate_step app m m'"
| step_writable: "client_writable (application d app) m a ws = Inr m' \<Longrightarrow> gate_step app m m'"
| step_timeout: "timeout (application d app) m a = Inr m' \<Longrightarrow> gate_step app m m'"
| step_request: "run_request (application d app) r m = Inr m' \<Longrightarrow> gate_step app m m'"
| step_time: "gate_step app m (m\<lparr>loop_now := t\<rparr>)"

lemma gate_step_ids:
  assumes "gate_step app m m'" "manager_inv m"
  shows "id_step m m'"
  using assms(1)
proof cases
  case (step_accept d a f)
  then show ?thesis by (intro accept_client_ok [OF application_ok assms(2)])
next
  case (step_readable d a rs)
  then show ?thesis by (intro shrinks_id_step client_readable_shrinks [OF application_ok assms(2)])
next
  case (step_writable d a ws)
  then show ?thesis by (intro shrinks_id_step client_writable_shrinks [OF application_ok assms(2)])
next
  case (step_timeout d a)
  then show ?thesis by (intro shrinks_id_step timeout_shrinks [OF application_ok assms(2)])
next
  case (step_request d r)
  then show ?thesis by (intro shrinks_id_step run_request_shrinks [OF application_ok assms(2)])
next
  case (step_time t)
  then show ?thesis using assms(2) by (simp add: id_step_def manager_inv_def live_ids_def)
qed

text \<open>A run of a gate, with the number of ids that it gives out: each takes the next index.\<close>

inductive gate_run :: "(upcall list \<Rightarrow> request list) \<Rightarrow> nat \<Rightarrow> client_manager \<Rightarrow> client_manager \<Rightarrow> bool"
  for app where
  run_start: "gate_run app 0 m m"
| run_keep: "gate_run app k m m1 \<Longrightarrow> gate_step app m1 m2 \<Longrightarrow> mgr_index m2 = mgr_index m1 \<Longrightarrow> gate_run app k m m2"
| run_issue: "gate_run app k m m1 \<Longrightarrow> gate_step app m1 m2 \<Longrightarrow> mgr_index m2 \<noteq> mgr_index m1 \<Longrightarrow> gate_run app (Suc k) m m2"

lemma gate_run_ids:
  assumes "gate_run app k m m'" "manager_inv m" "mgr_index m = word_of_nat (Suc n)" "n + k < 2 ^ 32"
  shows "manager_inv m' \<and> max_offset m' = max_offset m \<and> mgr_index m' = word_of_nat (Suc (n + k))
     \<and> (\<forall>i \<in> live_ids m'. i \<in> live_ids m \<or> n < unat i div off m \<and> unat i div off m \<le> n + k)"
  using assms
proof (induction rule: gate_run.induct)
  case (run_start m)
  then show ?case by simp
next
  case (run_keep k m m1 m2)
  then show ?case using gate_step_ids [OF run_keep.hyps(2)] by (auto simp: id_step_def)
next
  case (run_issue k m m1 m2)
  then have IH: "manager_inv m1" "max_offset m1 = max_offset m" "mgr_index m1 = word_of_nat (Suc (n + k))"
    "\<forall>i \<in> live_ids m1. i \<in> live_ids m \<or> n < unat i div off m \<and> unat i div off m \<le> n + k" by auto
  have s: "id_step m1 m2" by (rule gate_step_ids [OF run_issue.hyps(2) IH(1)])
  have idx: "mgr_index m2 = mgr_index m1 + 1" "manager_inv m2" "max_offset m2 = max_offset m1"
    and live: "live_ids m2 \<subseteq> live_ids m1 \<union> {i. unat i div off m1 = unat (mgr_index m1)}"
    using s run_issue.hyps(3) by (auto simp: id_step_def)
  have "Suc (n + k) < 2 ^ LENGTH(32)" using run_issue.prems(3) by simp
  then have u: "unat (mgr_index m1) = Suc (n + k)" unfolding IH(3) by (simp only: unat_of_nat mod_less)
  have "i \<in> live_ids m \<or> n < unat i div off m \<and> unat i div off m \<le> n + Suc k" if "i \<in> live_ids m2" for i
    using live that IH(4) unfolding IH(2) u by fastforce
  then show ?case using idx IH(2,3) by (simp add: add.commute)
qed

section \<open>Reachable gates\<close>

lemma digits_bounds: "n < 10 ^ digits n \<and> (n < 10 ^ k \<longrightarrow> digits n \<le> k)"
proof (induction n arbitrary: k rule: digits.induct)
  case (1 n)
  show ?case
  proof (cases "n = 0")
    case False
    then have d: "digits n = Suc (digits (n div 10))" by (simp add: digits.simps)
    have "n div 10 < 10 ^ digits (n div 10)" using 1 False by blast
    then have "n < 10 * 10 ^ digits (n div 10)" by (simp add: div_less_iff_less_mult mult.commute)
    moreover have "digits n \<le> k" if "n < 10 ^ k"
    proof (cases k)
      case (Suc j)
      then have "n div 10 < 10 ^ j" using that by (simp add: div_less_iff_less_mult mult.commute)
      then show ?thesis using 1 False d Suc by simp
    qed (use that False in simp)
    ultimately show ?thesis by (simp add: d)
  qed (simp add: digits.simps)
qed

lemma create_inv:
  assumes "client_manager_create mx = Some m" "mx < 10 ^ 9"
  shows "manager_inv m \<and> clients m = (\<lambda>_. None) \<and> off m = 10 ^ digits mx"
proof -
  obtain k where k: "container_create (int mx) = Some k"
    and m: "m = \<lparr>listening = False, container = k, max_client = mx,
         max_offset = word_of_nat (10 ^ digits mx), mgr_index = 1, clients = (\<lambda>_. None),
         loop_ctx = \<lparr>freelist_len = 0\<rparr>, loop_now = 0, cached_buffer = (\<lambda>_. 0), closed_fds = [],
         upcalls = []\<rparr>"
    using assms(1) by (auto simp: client_manager_create_def)
  have d: "10 ^ digits mx \<le> (10 :: nat) ^ 9" "mx < 10 ^ digits mx"
    using digits_bounds [of mx 9] assms(2) power_increasing [of "digits mx" 9 "10 :: nat"] by auto
  then have "(10 :: nat) ^ digits mx < 2 ^ LENGTH(64)" by (simp add: order_le_less_trans)
  then have o: "off m = 10 ^ digits mx" unfolding m by (simp only: client_manager.simps unat_of_nat mod_less)
  have c: "container m = k" "clients m = (\<lambda>_. None)" by (simp_all add: m)
  have "manager_inv m"
    by (rule manager_invI) (use d container_create_inv [OF k] o c in simp_all)
  then show ?thesis using o c by simp
qed

definition gate_reachable :: "(upcall list \<Rightarrow> request list) \<Rightarrow> nat \<Rightarrow> client_manager \<Rightarrow> bool" where
  "gate_reachable app mx m \<longleftrightarrow>
     mx < 10 ^ 9 \<and> (\<exists>m0. client_manager_create mx = Some m0 \<and> (gate_step app)\<^sup>*\<^sup>* m0 m)"

lemma gate_steps_inv:
  assumes "(gate_step app)\<^sup>*\<^sup>* m m'" "manager_inv m"
  shows "manager_inv m'"
  using assms(1)
proof (induction rule: rtranclp_induct)
  case (step m1 m2)
  then show ?case using gate_step_ids [OF step.hyps(2)] by (simp add: id_step_def)
qed (rule assms(2))

lemma gate_reachable_inv: "gate_reachable app mx m \<Longrightarrow> manager_inv m"
  using gate_steps_inv create_inv unfolding gate_reachable_def by blast

lemma scast_ucast_small:
  assumes "unat i < 2 ^ 31"
  shows "scast (ucast i :: 32 word) = (i :: 64 word)"
proof -
  have "scast (ucast i :: 32 word) = (word_of_int (slot_int i) :: 64 word)"
    unfolding slot_int_def by (rule scast_eq)
  then show ?thesis unfolding slot_int_small [OF assms] by simp
qed

lemma scast_ucast_large:
  assumes "2 ^ 31 \<le> unat i" "unat i < 2 ^ 63"
  shows "scast (ucast i :: 32 word) \<noteq> (i :: 64 word)"
proof
  define k where "k = sint (ucast i :: 32 word)"
  assume e: "scast (ucast i :: 32 word) = i"
  have "scast (ucast i :: 32 word) = (word_of_int k :: 64 word)" unfolding k_def by (rule scast_eq)
  with e have i: "i = word_of_int k" by (rule trans [OF sym])
  have s: "- (2 ^ 31) \<le> k" "k < 2 ^ 31"
    using sint_greater_eq [of "ucast i :: 32 word"] sint_lt [of "ucast i :: 32 word"] unfolding k_def by simp_all
  have u: "int (unat i) = uint i" by simp
  have "uint i = k mod 2 ^ 64" unfolding i by (simp add: uint_word_of_int)
  moreover have "2 ^ 31 \<le> int (unat i)" "int (unat i) < 2 ^ 63" using assms
    by (simp_all only: of_nat_less_numeral_power_cancel_iff numeral_power_le_of_nat_cancel_iff)
  then have "2147483648 \<le> uint i" "uint i < 9223372036854775808" unfolding u by simp_all
  moreover have "k mod 2 ^ 64 = (if k < 0 then k + 2 ^ 64 else k)"
  proof (cases "k < 0")
    case True
    have "(k + 2 ^ 64) mod 2 ^ 64 = k + 2 ^ 64" using True s by (intro mod_pos_pos_trivial) simp_all
    then show ?thesis using True by simp
  next
    case False
    then show ?thesis using s by simp
  qed
  ultimately show False using s by (simp split: if_splits)
qed

lemma id_bound:
  assumes "manager_inv m" "clients m a = Some c"
  shows "unat (cl_id c) < 2 ^ 63"
proof -
  let ?n = "unat (cl_id c)"
  have "?n div off m < 2 ^ 32" "0 < off m" "off m \<le> 10 ^ 9"
    using manager_inv_client [OF assms] manager_inv_base [OF assms(1)] by auto
  moreover have "?n < Suc (?n div off m) * off m" using \<open>0 < off m\<close> by (simp add: dividend_less_div_times)
  moreover have "Suc (?n div off m) * off m \<le> 2 ^ 32 * 10 ^ 9" using calculation by (intro mult_le_mono) simp_all
  ultimately show ?thesis by simp
qed

section \<open>Re-entrant calls\<close>

lemma read_header_frame:
  "read_header up m a c = Inr (False, m') \<Longrightarrow> \<exists>c'. clients m' a = Some c' \<and> execute c' = execute c"
  by (auto simp: read_header_def client_read_def put_client_def rbind_eq_Inr_iff Let_def
      split: option.splits if_splits)

text \<open>An application that closes, not gracefully, every client it hears from.\<close>

definition close_on_data :: "upcall list \<Rightarrow> request list" where
  "close_on_data h = (case last h of Up_data i mid payload n \<Rightarrow> [Req_close i False] | _ \<Rightarrow> [])"

lemma close_on_data_call:
  assumes "manager_inv m" "clients m a = Some c" "execute c" "cl_id c = cid" "unat cid < 2 ^ 31"
  shows "application (Suc d) close_on_data (data_call cid msg) m =
     Inr (put_client a (c\<lparr>mark := True\<rparr>) (m\<lparr>upcalls := upcalls m @ [data_call cid msg]\<rparr>))"
proof -
  let ?m = "m\<lparr>upcalls := upcalls m @ [data_call cid msg]\<rparr>"
  have "manager_inv ?m" using assms(1) by (simp add: manager_inv_def)
  then have g: "get_client ?m (scast (ucast cid :: 32 word)) = Inr (Some a)"
    using get_client_live [of ?m a c] assms(2,4) scast_ucast_small [OF assms(5)] by simp
  have req: "close_on_data (upcalls ?m) = [Req_close (ucast cid) False]"
    by (simp add: close_on_data_def data_call_def)
  have "client_manager_close ?m (ucast cid) False = Inr (0, put_client a (c\<lparr>mark := True\<rparr>) ?m)"
    unfolding client_manager_close_def g using assms(2,3) by (simp add: the_client_def)
  then show ?thesis unfolding application.simps Let_def req by (simp add: run_request_def)
qed

lemma read_finish_marked:
  assumes "manager_inv m" "clients m a = Some c" "mark c"
  shows "read_finish m a = Inl Use_after_free"
  using close_client_ok [OF assms(1,2)] assms(2,3) by (auto simp: read_finish_def the_client_def)

lemma close_in_callback_aux:
  assumes "manager_inv m" "clients m a = Some c" "unat (cl_id c) < 2 ^ 31"
    and "reader_state m a (cl_id c) 0 (wseed p) (worder p) (fst (lpacket_pack p mid payload))"
    and "length payload \<le> 65527"
  shows "read_complete (application (Suc d) close_on_data) m a = Inl Use_after_free"
proof -
  let ?up = "application (Suc d) close_on_data" and ?id = "cl_id c"
  let ?bs = "fst (lpacket_pack p mid payload)" and ?pl = "packet_plain p mid payload"
  let ?n = "length payload + 6"
  let ?m = "put_client a (c\<lparr>execute := True\<rparr>) m"
  have hdr: "take 2 ?bs = le_bytes 2 (length payload + 8)" "drop 2 ?bs = fst (mask_bytes (wseed p) ?pl)"
    "length ?bs = length payload + 8" by (simp_all add: lpacket_pack_plain)
  have lv: "le_val (take 2 ?bs) = length payload + 8"
    unfolding hdr using assms(5) by (simp only: le_val_le_bytes) simp
  have st0: "reader_state ?m a ?id 0 (wseed p) (worder p) ?bs" by (rule reader_state_execute [OF assms(4,2)])
  have c0: "clients ?m a = Some (c\<lparr>execute := True\<rparr>)" by (simp add: put_client_def)
  have inv0: "manager_inv ?m"
    by (rule shrinks_inv, rule shrinks_put [OF assms(1,2)]) (simp_all add: put_client_def)
  obtain m1 where m1: "read_header ?up ?m a (c\<lparr>execute := True\<rparr>) = Inr (False, m1)"
    "reader_state m1 a ?id ?n (wseed p) (worder p) (fst (mask_bytes (wseed p) ?pl))"
    using read_header_step [OF st0 c0, of ?up] lv hdr by (auto simp: add.commute)
  obtain c1 where c1: "clients m1 a = Some c1" "execute c1" using read_header_frame [OF m1(1)] by auto
  have inv1: "manager_inv m1"
    by (rule shrinks_inv [OF read_header_shrinks [OF application_ok inv0 c0 m1(1)]])
  define msg where "msg = (word_of_nat (le_val (take 2 (drop 4 ?pl))) :: 16 word, drop 6 ?pl)"
  obtain m2 c2 where m2: "clients m2 = (clients m1)(a := Some c2)" "cl_id c2 = ?id" "execute c2"
    "container m2 = container m1" "max_offset m2 = max_offset m1" "mgr_index m2 = mgr_index m1"
    "read_body ?up m1 a c1 = rbind (?up (data_call ?id msg) m2)
       (\<lambda>m. rbind (the_client m a) (\<lambda>c. Inr (False, put_client a (c\<lparr>need := 0\<rparr>) m)))"
    using read_body_call [OF m1(2) c1(1), of ?pl msg] checksum_packet_plain [OF assms(5), of p mid] c1(2)
    unfolding msg_def by (auto simp: packet_plain_fields)
  have "cl_id c1 = ?id" using m1(2) c1(1) by (auto simp: reader_state_def)
  then have inv2: "manager_inv m2"
    using shrinks_inv [OF shrinks_put [OF inv1 c1(1), of c2 m2]] m2 by simp
  have c2: "clients m2 a = Some c2" by (simp add: m2(1))
  let ?m3 = "put_client a (c2\<lparr>mark := True, need := 0\<rparr>) (m2\<lparr>upcalls := upcalls m2 @ [data_call ?id msg]\<rparr>)"
  have body: "read_body ?up m1 a c1 = Inr (False, ?m3)"
    unfolding m2(7) close_on_data_call [OF inv2 c2 m2(3,2) assms(3)]
    by (simp add: put_client_def the_client_def)
  have inv3: "manager_inv ?m3"
    by (rule shrinks_inv, rule shrinks_put [OF inv2, of a c2]) (simp_all add: put_client_def m2(1))
  have c3: "clients ?m3 a = Some (c2\<lparr>mark := True, need := 0\<rparr>)" by (simp add: put_client_def)
  have sess: "ev_session_input_size (cl_session c) = int (length payload + 8)" "\<not> mark c" "need c = 0"
    using assms(2,4) hdr(3) by (auto simp: reader_state_def input_size_content)
  have sess1: "ev_session_input_size (cl_session c1) = int ?n" "\<not> mark c1" "need c1 = int ?n"
    using m1(2) c1(1) by (auto simp: reader_state_def input_size_content)
  have rounds: "read_packets (Suc (Suc (Suc f))) ?up ?m a = Inr (False, ?m3)" for f
    using c0 m1(1) sess c1(1) sess1 body c3 by (simp add: the_client_def del: application.simps)
  have "Suc (nat (ev_session_input_size (cl_session c))) = Suc (Suc (Suc (length payload + 6)))"
    unfolding sess(1) by simp
  then have "read_packets (Suc (nat (ev_session_input_size (cl_session c)))) ?up ?m a = Inr (False, ?m3)"
    by (simp only: rounds)
  then show ?thesis
    using assms(2) read_finish_marked [OF inv3 c3]
    by (simp add: read_complete_def the_client_def Let_def del: read_packets.simps application.simps)
qed

section \<open>Properties\<close>

text \<open>A small gate with one accepted client, for the concrete instances.\<close>

lemma sample_gate:
  assumes "i < 2 ^ 30"
  shows "\<exists>m0 m1 c. client_manager_create 10 = Some m0 \<and> clients m0 = (\<lambda>_. None)
     \<and> accept_client listener (m0\<lparr>mgr_index := word_of_nat i\<rparr>) 0 5 = Inr m1 \<and> clients m1 = (\<lambda>_. None)(0 := Some c)
     \<and> unat (cl_id c) div 100 = i \<and> manager_inv m1 \<and> reader_state m1 0 (cl_id c) 0 0 0 []"
proof -
  obtain m0 where m0: "client_manager_create 10 = Some m0"
    by (simp add: client_manager_create_def container_create_def)
  have d: "digits 10 = 2" by (simp add: digits.simps)
  have inv: "manager_inv m0" "clients m0 = (\<lambda>_. None)" "off m0 = 100"
    using create_inv [OF m0] d by simp_all
  let ?m = "m0\<lparr>mgr_index := word_of_nat i\<rparr>"
  have u: "unat (word_of_nat i :: 32 word) = i" using assms by (simp add: unat_of_nat)
  have invm: "manager_inv ?m" using inv by (simp add: manager_inv_def)
  obtain slot k where k: "container_add (container m0) (Some (0 :: nat)) = (slot, k)" by fastforce
  have cc: "container_create 10 = Some (container m0)" using m0 by (auto simp: client_manager_create_def)
  have empty: "csize (container m0) = 10" "container_get (container m0) j = None" "container_inv (container m0)" for j
    using container_create_inv [OF cc] by auto
  have slot: "slot \<noteq> -1"
  proof
    assume "slot = -1"
    then have "container_get (container m0) 0 \<noteq> None" using oc.add_full [OF empty(3)] k empty(1) by fastforce
    then show False using empty(2) by simp
  qed
  then have range: "0 \<le> slot" "slot < 10" using oc.add_fresh [OF empty(3) k] empty(1) by auto
  obtain m1 c where m1: "accept_client listener ?m 0 5 = Inr m1" "clients m1 = (\<lambda>_. None)(0 := Some c)"
    "cl_id c = ucast (mgr_index ?m) * max_offset ?m + word_of_int slot"
    using k slot inv(2) by (simp add: accept_client_def listener_simp put_client_def Let_def)
  have "unat (cl_id c) div 100 = i"
    using new_id_parts(2) [OF _ _ range(1) _ m1(3)] range(2) inv(3) u by simp
  moreover have "manager_inv m1"
    using accept_client_ok [OF application_ok invm _ m1(1) [unfolded listener_def]] inv(2) by (simp add: id_step_def)
  moreover have "reader_state m1 0 (cl_id c) 0 0 0 []"
    using accept_reader_state [OF m1(1)] m1(2) inv(2) by simp
  ultimately show ?thesis using m0 m1 inv(2) by blast
qed

lemma sample_gate_run:
  assumes "client_manager_create 10 = Some m0" "accept_client listener (m0\<lparr>mgr_index := word_of_nat 1\<rparr>) 0 5 = Inr m1"
    and "clients m1 0 = Some c"
  shows "gate_run (\<lambda>_. []) 1 m0 m1"
proof -
  have e: "m0\<lparr>mgr_index := word_of_nat 1\<rparr> = m0" and m0: "mgr_index m0 = 1" "clients m0 0 = None"
    using assms(1) by (auto simp: client_manager_create_def)
  have r: "accept_client (application 1 (\<lambda>_. [])) m0 0 5 = Inr m1"
    using assms(2) unfolding e listener_def .
  have "mgr_index m1 \<noteq> mgr_index m0"
    using r assms(3) m0 by (auto simp: accept_client_def put_client_def Let_def split: prod.splits if_splits)
  then show ?thesis using run_issue [OF run_start step_accept [OF r m0(2)]] by simp
qed

text \<open>After its only client has been closed, the gate has room for another one.\<close>

lemma accept_after_close:
  assumes "close_client m 0 = Inr m1" "clients m1 = (clients m)(0 := None)" "shrinks m m1"
    and "clients m = (\<lambda>_. None)(0 := Some c)" "manager_inv m"
  shows "\<exists>m2 c2. gate_run (\<lambda>_. []) 1 m1 m2 \<and> clients m2 1 = Some c2"
proof -
  have none: "clients m1 = (\<lambda>_. None)" using assms(2,4) by simp
  note inv = shrinks_inv [OF assms(3)]
  obtain slot k where k: "container_add (container m1) (Some (1 :: nat)) = (slot, k)" by fastforce
  have full: "container_get (container m1) i = None" for i
    using manager_inv_slot [OF inv, of i] none by (cases "container_get (container m1) i") auto
  have pos: "0 < csize (container m1)"
  proof -
    let ?i = "int (unat (cl_id c) mod off m)"
    have g: "container_get (container m) ?i \<noteq> None" using manager_inv_client [OF assms(5)] assms(4) by simp
    then have "csize (container m1) = csize (container m)"
      using oc.remove_live [of "container m" ?i] manager_inv_base [OF assms(5)] assms(1,4)
      by (auto simp: close_client_def the_client_def slot_int_of [OF assms(5)])
    then show ?thesis using oc.get_range [OF g] by linarith
  qed
  have "slot \<noteq> -1"
  proof
    assume "slot = -1"
    then have "container_get (container m1) 0 \<noteq> None"
      using oc.add_full [of "container m1"] manager_inv_base [OF inv] k pos by fastforce
    then show False using full by simp
  qed
  then obtain m2 c2 where m2: "accept_client (application 1 (\<lambda>_. [])) m1 1 5 = Inr m2" "clients m2 1 = Some c2"
    "mgr_index m2 = mgr_index m1 + 1"
    using k by (simp add: accept_client_def put_client_def Let_def)
  have "gate_run (\<lambda>_. []) (Suc 0) m1 m2"
    by (rule run_issue [OF run_start step_accept [OF m2(1)]]) (simp_all add: none m2(3))
  then show ?thesis using m2(2) by auto
qed

lemma sample_gate_reachable:
  assumes "client_manager_create 10 = Some m0" "accept_client listener (m0\<lparr>mgr_index := word_of_nat 1\<rparr>) 0 5 = Inr m1"
  shows "gate_reachable (\<lambda>_. []) 10 m1"
proof -
  have e: "m0\<lparr>mgr_index := word_of_nat 1\<rparr> = m0" and m0: "mgr_index m0 = 1" "clients m0 0 = None"
    using assms(1) by (auto simp: client_manager_create_def)
  have r: "accept_client (application 1 (\<lambda>_. [])) m0 0 5 = Inr m1"
    using assms(2) unfolding e listener_def .
  have "gate_step (\<lambda>_. []) m0 m1" by (rule step_accept [OF r m0(2)])
  then show ?thesis using assms(1) unfolding gate_reachable_def by auto
qed



text \<open>
  C5. A closed client stays closed for its id until the 32-bit index wraps around: after a client
  has been closed, no later sequence of events under any application makes a lookup of its id
  succeed, even though its slot is reused, as long as the gate has given out fewer than \<open>2^32\<close> ids
  since it was created (\<open>n\<close> before the client was closed and \<open>k\<close> after). The gate serves fewer than
  \<open>10^9\<close> clients at a time.
\<close>

theorem client_id_never_reused:
  assumes "mx < 10 ^ 9" "client_manager_create mx = Some m0" "gate_run app n m0 m"
    and "clients m a = Some c" "close_client m a = Inr m1" "gate_run app k m1 m2" "n + k < 2 ^ 32"
  shows "get_client m2 (cl_id c) = Inr None"
proof -
  have m0: "manager_inv m0" "live_ids m0 = {}" "mgr_index m0 = word_of_nat (Suc 0)"
    using create_inv [OF assms(2,1)] assms(2) by (auto simp: live_ids_def client_manager_create_def)
  have r: "manager_inv m" "max_offset m = max_offset m0" "mgr_index m = word_of_nat (Suc n)"
    "\<forall>i \<in> live_ids m. unat i div off m \<le> n"
    using gate_run_ids [OF assms(3) m0(1,3)] assms(7) m0(2) by auto
  have id: "unat (cl_id c) div off m \<le> n" using r(4) assms(4) by (auto simp: live_ids_def)
  have s: "shrinks m m1" "cl_id c \<notin> live_ids m1" using close_client_ok [OF r(1) assms(4)] assms(5) by auto
  have m1: "manager_inv m1" "mgr_index m1 = word_of_nat (Suc n)" "max_offset m1 = max_offset m"
    using s(1) r(3) by (simp_all add: shrinks_def)
  have "cl_id c \<notin> live_ids m2" and inv: "manager_inv m2"
    using gate_run_ids [OF assms(6) m1(1,2) assms(7)] s(2) id m1(3) by auto
  then show ?thesis using get_client_cases [OF inv, of "cl_id c"] by (auto simp: live_ids_def)
qed

text \<open>A client is accepted and closed, and then another one is accepted.\<close>

theorem client_id_never_reused_witness:
  "\<exists>m0 m c m1 m2 c2. client_manager_create 10 = Some m0 \<and> gate_run (\<lambda>_. []) 1 m0 m \<and> clients m 0 = Some c
     \<and> close_client m 0 = Inr m1 \<and> gate_run (\<lambda>_. []) 1 m1 m2 \<and> clients m2 1 = Some c2
     \<and> get_client m2 (cl_id c) = Inr None"
proof -
  obtain m0 m c where m: "client_manager_create 10 = Some m0"
    "accept_client listener (m0\<lparr>mgr_index := word_of_nat 1\<rparr>) 0 5 = Inr m"
    "clients m = (\<lambda>_. None)(0 := Some c)" "manager_inv m"
    using sample_gate [of 1] by auto
  have c: "clients m 0 = Some c" using m(3) by simp
  note g = sample_gate_run [OF m(1,2) c]
  obtain m1 where m1: "close_client m 0 = Inr m1" "clients m1 = (clients m)(0 := None)" "shrinks m m1"
    using close_client_ok [OF m(4) c] by blast
  obtain m2 c2 where m2: "gate_run (\<lambda>_. []) 1 m1 m2" "clients m2 1 = Some c2"
    using accept_after_close [OF m1 m(3,4)] by blast
  have "get_client m2 (cl_id c) = Inr None" using client_id_never_reused [OF _ m(1) g c m1(1) m2(1)] by simp
  then show ?thesis using m(1) g c m1(1) m2 by blast
qed

text \<open>
  C12. In every reachable gate a lookup is exact: it returns the live client that has the id, or
  null when there is none, and never touches freed memory.
\<close>

theorem client_lookup_exact:
  assumes "gate_reachable app mx m"
  shows "get_client m i = Inr r \<longleftrightarrow>
     (case r of None \<Rightarrow> \<forall>a c. clients m a = Some c \<longrightarrow> cl_id c \<noteq> i
      | Some a \<Rightarrow> \<exists>c. clients m a = Some c \<and> cl_id c = i)"
proof -
  have inv: "manager_inv m" using gate_reachable_inv [OF assms] .
  show ?thesis
  proof (cases r)
    case None
    then show ?thesis using get_client_cases [OF inv, of i] by auto
  next
    case (Some a)
    have "get_client m i = Inr (Some a) \<longleftrightarrow> (\<exists>c. clients m a = Some c \<and> cl_id c = i)"
    proof
      assume "get_client m i = Inr (Some a)"
      then show "\<exists>c. clients m a = Some c \<and> cl_id c = i" using get_client_cases [OF inv, of i] by auto
    qed (use get_client_live [OF inv] in auto)
    then show ?thesis using Some by simp
  qed
qed

theorem client_lookup_exact_witness:
  "\<exists>m c. gate_reachable (\<lambda>_. []) 10 m \<and> clients m 0 = Some c \<and> get_client m (cl_id c) = Inr (Some 0)"
proof -
  obtain m0 m c where m: "client_manager_create 10 = Some m0"
    "accept_client listener (m0\<lparr>mgr_index := word_of_nat 1\<rparr>) 0 5 = Inr m" "clients m = (\<lambda>_. None)(0 := Some c)"
    using sample_gate [of 1] by auto
  have g: "gate_reachable (\<lambda>_. []) 10 m" by (rule sample_gate_reachable [OF m(1,2)])
  show ?thesis using client_lookup_exact [OF g, of "cl_id c" "Some 0"] g m(3) by auto
qed


text \<open>
  C13. Closing a client, not gracefully, from the callback that delivers its message makes the
  reader write to freed memory: after the loop \<open>read_complete\<close> frees the marked client and then
  resets its \<open>execute\<close> flag.
\<close>

theorem client_close_in_callback:
  assumes "gate_reachable app mx m" "reader_state m a cid 0 (wseed p) (worder p) []" "unat cid < 2 ^ 31"
    and "length payload \<le> 248"
  shows "client_readable (application (Suc d) close_on_data) m a [Received (fst (lpacket_pack p mid payload))]
     = Inl Use_after_free"
proof -
  have len: "length (fst (lpacket_pack p mid payload)) \<le> read_size m a" "length ([] @ fst (lpacket_pack p mid payload)) < 2147483648"
    using assms(4) reader_read_size [OF assms(2)] by (simp_all add: lpacket_pack_plain)
  obtain m' c' where m': "\<forall>up. client_readable up m a [Received (fst (lpacket_pack p mid payload))] = read_complete up m' a"
    "reader_state m' a cid 0 (wseed p) (worder p) ([] @ fst (lpacket_pack p mid payload))"
    "clients m' = (clients m)(a := Some c')" "cl_id c' = cid" "container m' = container m"
    "mgr_index m' = mgr_index m" "max_offset m' = max_offset m"
    using client_readable_deliver [OF assms(2) len] by blast
  obtain c where c: "clients m a = Some c" "cl_id c = cid" using assms(2) by (auto simp: reader_state_def)
  have "manager_inv m'"
    using shrinks_inv [OF shrinks_put [OF gate_reachable_inv [OF assms(1)] c(1), of c' m']] m' c(2) by simp
  moreover have "clients m' a = Some c'" "reader_state m' a (cl_id c') 0 (wseed p) (worder p) (fst (lpacket_pack p mid payload))"
    using m'(2-4) by simp_all
  ultimately show ?thesis
    using m'(1) close_in_callback_aux [of m' a c' p mid payload d] assms(3,4) m'(4) by (simp del: application.simps)
qed

theorem client_close_in_callback_witness:
  "\<exists>m. gate_reachable (\<lambda>_. []) 10 m
     \<and> client_readable (application 1 close_on_data) m 0 [Received (fst (lpacket_pack lpacket_new 7 [1, 2]))] = Inl Use_after_free"
proof -
  obtain m0 m and c :: ev_client where m: "client_manager_create 10 = Some m0"
    "accept_client listener (m0\<lparr>mgr_index := word_of_nat 1\<rparr>) 0 5 = Inr m"
    "unat (cl_id c) div 100 = 1" "reader_state m 0 (cl_id c) 0 0 0 []"
    using sample_gate [of 1] by auto
  have g: "gate_reachable (\<lambda>_. []) 10 m" by (rule sample_gate_reachable [OF m(1,2)])
  have "unat (cl_id c) < 2 ^ 31" using m(3) by simp
  then show ?thesis
    using client_close_in_callback [OF g, of 0 "cl_id c" lpacket_new "[1, 2]" 0 7] m(4) g
    by (auto simp: lpacket_new_def simp del: application.simps)
qed


text \<open>
  C15. The rate limit of \<open>timeout\<close> touches freed memory: when a client has sent more than 100
  messages in a second, the handler frees it and then resets its counter.
\<close>

theorem client_rate_limit:
  assumes "manager_inv m" "clients m a = Some c" "sint (freq c) > MAX_FREQ"
  shows "timeout listener m a = Inl Use_after_free"
  using close_client_ok [OF assms(1,2)] assms(2,3)
  by (auto simp: timeout_def error_happen_def listener_simp the_client_def)

theorem client_rate_limit_witness: "\<exists>m. manager_inv m \<and> timeout listener m 0 = Inl Use_after_free"
proof -
  obtain m c where m: "clients m = (\<lambda>_. None)(0 := Some c)" "manager_inv m"
    using sample_gate [of 1] by auto
  let ?m = "put_client 0 (c\<lparr>freq := 101\<rparr>) m"
  have "manager_inv ?m"
    by (rule shrinks_inv, rule shrinks_put [OF m(2), of 0 c]) (simp_all add: m(1) put_client_def)
  then show ?thesis using client_rate_limit [of ?m 0 "c\<lparr>freq := 101\<rparr>"]
    by (auto simp: put_client_def MAX_FREQ_def)
qed

text \<open>
  C14. A peer can stop the server with two bytes: a packet header that announces at most two bytes
  trips the assertion of \<open>read_complete\<close>.
\<close>

theorem client_short_header:
  assumes "reader_state m a cid 0 sd ord []" "le_val [b0, b1] \<le> 2"
  shows "client_readable up m a [Received [b0, b1]] = Inl Assertion"
proof -
  obtain m' where m': "\<forall>up. client_readable up m a [Received [b0, b1]] = read_complete up m' a"
    "reader_state m' a cid 0 sd ord [b0, b1]"
    using client_readable_deliver [OF assms(1), of "[b0, b1]"] reader_read_size [OF assms(1)] by auto
  obtain c where c: "clients m' a = Some c" "session_inv (cl_session c)" "\<not> mark c" "need c = 0"
    "content (in_buf (cl_session c)) = [b0, b1]"
    using m'(2) by (auto simp: reader_state_def)
  have "read_header up m'' a (c\<lparr>execute := True\<rparr>) = Inl Assertion" for m''
    using client_read_ok [of "c\<lparr>execute := True\<rparr>" m'' a 2] c(2,5) assms(2)
    by (auto simp: read_header_def Let_def)
  then show ?thesis using c m'(1)
    by (simp add: read_complete_def the_client_def put_client_def input_size_content Let_def)
qed

theorem client_short_header_witness:
  "\<exists>m. manager_inv m \<and> client_readable listener m 0 [Received [2, 0]] = Inl Assertion"
proof -
  obtain m and c :: ev_client where m: "manager_inv m" "reader_state m 0 (cl_id c) 0 0 0 []"
    using sample_gate [of 1] by auto
  then show ?thesis using client_short_header [of m 0 "cl_id c" 0 0 2 0 listener] by auto
qed


text \<open>
  C16. The ids handed to the application are cut to 32 bits: a client whose id is \<open>2^31\<close> or more is
  out of reach of the application. The id that comes back never leads to the client, and sending to
  it dereferences a null pointer unless it happens to be the id of another live client.
\<close>

theorem client_id_truncated:
  assumes "manager_inv m" "clients m a = Some c" "2 ^ 31 \<le> unat (cl_id c)"
  shows "get_client m (scast (ucast (cl_id c) :: 32 word)) \<noteq> Inr (Some a)
     \<and> (scast (ucast (cl_id c) :: 32 word) \<notin> live_ids m
          \<longrightarrow> client_manager_send up m (ucast (cl_id c)) mid payload ws = Inl Null_pointer)"
proof -
  let ?i = "scast (ucast (cl_id c) :: 32 word) :: 64 word"
  have ne: "?i \<noteq> cl_id c" by (rule scast_ucast_large [OF assms(3) id_bound [OF assms(1,2)]])
  have "get_client m ?i = Inr None" if "?i \<notin> live_ids m"
    using get_client_cases [OF assms(1), of ?i] that by (auto simp: live_ids_def)
  then show ?thesis using get_client_cases [OF assms(1), of ?i] ne assms(2) by (auto simp: client_manager_send_def)
qed

theorem client_id_truncated_witness:
  "\<exists>m c. manager_inv m \<and> clients m 0 = Some c \<and> get_client m (scast (ucast (cl_id c) :: 32 word)) \<noteq> Inr (Some 0)
     \<and> client_manager_send listener m (ucast (cl_id c)) 1 [] [] = Inl Null_pointer"
proof -
  obtain m c where m: "clients m = (\<lambda>_. None)(0 := Some c)" "manager_inv m" "unat (cl_id c) div 100 = 2 ^ 29"
    using sample_gate [of "2 ^ 29"] by auto
  have c: "clients m 0 = Some c" using m(1) by simp
  have big: "2 ^ 31 \<le> unat (cl_id c)"
    using m(3) div_times_less_eq_dividend [of "unat (cl_id c)" 100] by simp
  have "scast (ucast (cl_id c) :: 32 word) \<notin> live_ids m"
    using scast_ucast_large [OF big id_bound [OF m(2) c]] m(1) by (auto simp: live_ids_def)
  then show ?thesis using client_id_truncated [OF m(2) c big, of listener 1 "[]" "[]"] c m(2) by blast
qed

end
