(* ===== verification/Pool.thy ===== *)
theory Pool
  imports Prelude
begin

text \<open>
  The fixed-size object pool of \<open>src/luaclib/pool.c\<close>. The pool owns a list of blocks of
  \<open>count\<close> nodes each; the free nodes are chained through the header in front of each object. A
  node is named by its block and its position in the block, and stands both for the header
  (\<open>struct pool_obj\<close>) and for the object behind it, which the code reaches by adding and
  subtracting the size of the header. The names of the blocks come from a counter, which models
  that \<open>malloc\<close> returns a block that is not in use. The locale \<open>allocator\<close> states the contract
  of the pool.
\<close>

section \<open>The code\<close>

type_synonym node = "nat \<times> nat"

record pool_ctx =
  pool :: "nat list"
  pool_free_head :: "node option"
  pool_nxt :: "node \<Rightarrow> node option"
  obj_size :: nat
  obj_count :: nat
  malloc_next :: nat

definition POOL_SIZE :: nat where
  "POOL_SIZE = 64"

text \<open>One round of the loop of \<open>expand_pool\<close>.\<close>

definition expand_link :: "nat \<Rightarrow> nat \<Rightarrow> pool_ctx \<Rightarrow> pool_ctx" where
  "expand_link blk i ctx =
     ctx\<lparr>pool_nxt := (pool_nxt ctx)((blk, i) := pool_free_head ctx), pool_free_head := Some (blk, i)\<rparr>"

definition expand_pool :: "pool_ctx \<Rightarrow> pool_ctx" where
  "expand_pool ctx =
     (let blk = malloc_next ctx
      in fold (expand_link blk) [0..<obj_count ctx]
           (ctx\<lparr>pool := blk # pool ctx, malloc_next := Suc blk\<rparr>))"

definition pool_create :: "nat \<Rightarrow> pool_ctx" where
  "pool_create sz =
     expand_pool \<lparr>pool = [], pool_free_head = None, pool_nxt = \<lambda>_. None, obj_size = sz,
                  obj_count = POOL_SIZE, malloc_next = 0\<rparr>"

text \<open>\<open>None\<close> is the dereference of a null pointer.\<close>

definition pool_malloc :: "pool_ctx \<Rightarrow> (node \<times> pool_ctx) option" where
  "pool_malloc ctx =
     (let ctx = (if pool_free_head ctx = None then expand_pool ctx else ctx)
      in case pool_free_head ctx of
           None \<Rightarrow> None
         | Some node \<Rightarrow> Some (node, ctx\<lparr>pool_free_head := pool_nxt ctx node\<rparr>))"

definition pool_free :: "pool_ctx \<Rightarrow> node \<Rightarrow> pool_ctx" where
  "pool_free ctx node =
     ctx\<lparr>pool_nxt := (pool_nxt ctx)(node := pool_free_head ctx), pool_free_head := Some node\<rparr>"

section \<open>Invariant\<close>

definition pool_nodes :: "pool_ctx \<Rightarrow> node set" where
  "pool_nodes ctx = set (pool ctx) \<times> {..<obj_count ctx}"

text \<open>The free nodes and the objects handed out (\<open>live\<close>) partition the nodes of the blocks.\<close>

definition pool_inv :: "pool_ctx \<Rightarrow> node set \<Rightarrow> bool" where
  "pool_inv ctx live \<longleftrightarrow>
     0 < obj_count ctx \<and> distinct (pool ctx) \<and> (\<forall>b \<in> set (pool ctx). b < malloc_next ctx)
     \<and> live \<subseteq> pool_nodes ctx
     \<and> (\<exists>xs. chain_from (pool_nxt ctx) (pool_free_head ctx) xs \<and> distinct xs
          \<and> set xs = pool_nodes ctx - live)"

lemma expand_link_fold:
  assumes "chain_from (pool_nxt ctx) (pool_free_head ctx) xs" "\<forall>i. (blk, i) \<notin> set xs"
  shows "let c = fold (expand_link blk) [0..<n] ctx
    in chain_from (pool_nxt c) (pool_free_head c) (map (Pair blk) (rev [0..<n]) @ xs)
    \<and> pool c = pool ctx \<and> obj_count c = obj_count ctx \<and> malloc_next c = malloc_next ctx"
  unfolding Let_def
proof (induction n)
  case 0
  then show ?case using assms(1) by simp
next
  case (Suc n)
  define d where "d = fold (expand_link blk) [0..<n] ctx"
  have d: "fold (expand_link blk) [0..<Suc n] ctx = expand_link blk n d" by (simp add: d_def)
  have new: "(blk, n) \<notin> set (map (Pair blk) (rev [0..<n]) @ xs)" using assms(2) by auto
  have "chain_from ((pool_nxt d)((blk, n) := pool_free_head d)) (pool_free_head d)
      (map (Pair blk) (rev [0..<n]) @ xs)"
    using Suc [folded d_def] chain_from_upd [OF new] by blast
  then show ?case unfolding d using Suc [folded d_def] by (simp add: expand_link_def fun_upd_def)
qed

lemma expand_pool_inv:
  assumes "pool_inv ctx live"
  shows "pool_inv (expand_pool ctx) live \<and> pool (expand_pool ctx) = malloc_next ctx # pool ctx
    \<and> obj_count (expand_pool ctx) = obj_count ctx"
proof -
  obtain xs where inv: "0 < obj_count ctx" "distinct (pool ctx)" "\<forall>b \<in> set (pool ctx). b < malloc_next ctx"
      "live \<subseteq> pool_nodes ctx"
    and xs: "chain_from (pool_nxt ctx) (pool_free_head ctx) xs" "distinct xs" "set xs = pool_nodes ctx - live"
    using assms by (auto simp: pool_inv_def)
  let ?blk = "malloc_next ctx"
  have fresh: "?blk \<notin> set (pool ctx)" using inv(3) by auto
  then have new: "\<forall>i. (?blk, i) \<notin> set xs" using xs(3) by (auto simp: pool_nodes_def)
  let ?e = "expand_pool ctx"
  have e: "chain_from (pool_nxt ?e) (pool_free_head ?e) (map (Pair ?blk) (rev [0..<obj_count ctx]) @ xs)"
    "pool ?e = ?blk # pool ctx" "obj_count ?e = obj_count ctx" "malloc_next ?e = Suc ?blk"
    using expand_link_fold [of "ctx\<lparr>pool := ?blk # pool ctx, malloc_next := Suc ?blk\<rparr>" xs ?blk "obj_count ctx"]
      xs(1) new by (simp_all add: expand_pool_def Let_def)
  have "distinct (map (Pair ?blk) (rev [0..<obj_count ctx]) @ xs)"
    using xs(2) new by (auto simp: distinct_map inj_on_def)
  moreover have "set (map (Pair ?blk) (rev [0..<obj_count ctx]) @ xs) = pool_nodes ?e - live"
    using xs(3) inv(4) fresh e(2,3) by (auto simp: pool_nodes_def)
  moreover have "live \<subseteq> pool_nodes ?e" using inv(4) e(2,3) by (auto simp: pool_nodes_def)
  ultimately show ?thesis
    using e inv fresh unfolding pool_inv_def by (auto simp: less_Suc_eq)
qed

lemma pool_create_inv: "pool_inv (pool_create sz) {}"
  unfolding pool_create_def
  by (rule expand_pool_inv [THEN conjunct1])
    (auto simp: pool_inv_def POOL_SIZE_def pool_nodes_def intro!: exI [of _ "[]"])

text \<open>The pool grows only when every node is in use.\<close>

lemma pool_malloc_inv:
  assumes "pool_inv ctx live"
  shows "\<exists>n c. pool_malloc ctx = Some (n, c) \<and> n \<notin> live \<and> pool_inv c (insert n live)
    \<and> (live \<noteq> pool_nodes ctx \<longrightarrow> pool c = pool ctx) \<and> obj_count c = obj_count ctx"
proof -
  define e where "e = (if pool_free_head ctx = None then expand_pool ctx else ctx)"
  have e: "pool_inv e live" "obj_count e = obj_count ctx"
    using assms expand_pool_inv by (auto simp: e_def)
  obtain xs where xs: "chain_from (pool_nxt e) (pool_free_head e) xs" "distinct xs" "set xs = pool_nodes e - live"
    and inv: "0 < obj_count e" "distinct (pool e)" "\<forall>b \<in> set (pool e). b < malloc_next e" "live \<subseteq> pool_nodes e"
    using e(1) by (auto simp: pool_inv_def)
  obtain ys where ys: "chain_from (pool_nxt ctx) (pool_free_head ctx) ys" "set ys = pool_nodes ctx - live"
      "live \<subseteq> pool_nodes ctx" "\<forall>b \<in> set (pool ctx). b < malloc_next ctx"
    using assms by (auto simp: pool_inv_def)
  have "xs \<noteq> []"
  proof (cases "pool_free_head ctx")
    case None
    then have "pool e = malloc_next ctx # pool ctx"
      using expand_pool_inv [OF assms] by (simp add: e_def)
    then have "(malloc_next ctx, 0) \<in> pool_nodes e - live"
      using inv(1) ys(3,4) by (auto simp: pool_nodes_def)
    then show ?thesis using xs(3) by auto
  next
    case (Some a)
    then show ?thesis using xs(1) by (auto simp: e_def)
  qed
  then obtain n zs where n: "xs = n # zs" by (cases xs) auto
  have zs: "pool_free_head e = Some n" "chain_from (pool_nxt e) (pool_nxt e n) zs"
    using xs(1) n by auto
  let ?c = "e\<lparr>pool_free_head := pool_nxt e n\<rparr>"
  have n_in: "n \<in> pool_nodes e" "n \<notin> live" "set zs = pool_nodes e - insert n live" "distinct zs"
    using xs(2,3) n by auto
  have "pool_inv ?c (insert n live)"
    using inv zs n_in unfolding pool_inv_def by (auto simp: pool_nodes_def)
  moreover have "pool_malloc ctx = Some (n, ?c)"
    using zs(1) by (simp add: pool_malloc_def e_def [symmetric] Let_def)
  moreover have "pool e = pool ctx" if "live \<noteq> pool_nodes ctx"
    using that ys by (cases ys) (auto simp: e_def)
  ultimately show ?thesis using n_in(2) e(2) by auto
qed

lemma pool_free_inv:
  assumes "pool_inv ctx live" "n \<in> live"
  shows "pool_inv (pool_free ctx n) (live - {n})"
proof -
  obtain xs where xs: "chain_from (pool_nxt ctx) (pool_free_head ctx) xs" "distinct xs" "set xs = pool_nodes ctx - live"
    and inv: "0 < obj_count ctx" "distinct (pool ctx)" "\<forall>b \<in> set (pool ctx). b < malloc_next ctx" "live \<subseteq> pool_nodes ctx"
    using assms(1) by (auto simp: pool_inv_def)
  have "n \<notin> set xs" using xs(3) assms(2) by simp
  then have "chain_from (pool_nxt (pool_free ctx n)) (pool_free_head (pool_free ctx n)) (n # xs)"
    using xs(1) by (simp add: pool_free_def)
  moreover have "set (n # xs) = pool_nodes ctx - (live - {n})" using xs(3) inv(4) assms(2) by auto
  moreover have "distinct (n # xs)" using xs(2) \<open>n \<notin> set xs\<close> by simp
  moreover have "pool_nodes (pool_free ctx n) = pool_nodes ctx" by (simp add: pool_nodes_def pool_free_def)
  ultimately have "\<exists>xs. chain_from (pool_nxt (pool_free ctx n)) (pool_free_head (pool_free ctx n)) xs
      \<and> distinct xs \<and> set xs = pool_nodes (pool_free ctx n) - (live - {n})"
    by metis
  then show ?thesis
    unfolding pool_inv_def using inv by (auto simp: pool_free_def pool_nodes_def)
qed

section \<open>The contract of an allocator\<close>

locale allocator =
  fixes alloc :: "'c \<Rightarrow> ('n \<times> 'c) option"
    and dealloc :: "'c \<Rightarrow> 'n \<Rightarrow> 'c"
    and invar :: "'c \<Rightarrow> 'n set \<Rightarrow> bool"
  assumes alloc_fresh: "invar c live \<Longrightarrow>
      \<exists>n c'. alloc c = Some (n, c') \<and> n \<notin> live \<and> invar c' (insert n live)"
    and dealloc_live: "invar c live \<Longrightarrow> n \<in> live \<Longrightarrow> invar (dealloc c n) (live - {n})"
begin

text \<open>Allocating \<open>k\<close> objects in a row.\<close>

primrec alloc_many :: "nat \<Rightarrow> 'c \<Rightarrow> ('n list \<times> 'c) option" where
  "alloc_many 0 c = Some ([], c)"
| "alloc_many (Suc k) c =
     Option.bind (alloc c) (\<lambda>(n, c'). map_option (\<lambda>(ns, c''). (n # ns, c'')) (alloc_many k c'))"

lemma alloc_many_distinct:
  "invar c live \<Longrightarrow> \<exists>ns c'. alloc_many k c = Some (ns, c') \<and> length ns = k \<and> distinct ns
     \<and> set ns \<inter> live = {} \<and> invar c' (set ns \<union> live)"
proof (induction k arbitrary: c live)
  case 0
  then show ?case by simp
next
  case (Suc k)
  obtain n c' where n: "alloc c = Some (n, c')" "n \<notin> live" "invar c' (insert n live)"
    using alloc_fresh [OF Suc.prems] by blast
  obtain ns c'' where "alloc_many k c' = Some (ns, c'')" "length ns = k" "distinct ns"
      "set ns \<inter> insert n live = {}" "invar c'' (set ns \<union> insert n live)"
    using Suc.IH [OF n(3)] by blast
  with n show ?case by auto
qed

end

interpretation pl: allocator pool_malloc pool_free pool_inv
  by unfold_locales (blast dest: pool_malloc_inv, rule pool_free_inv)

section \<open>Sequences of operations\<close>

text \<open>The pools a program reaches by allocating and by freeing objects it holds.\<close>

inductive pool_run :: "nat \<Rightarrow> pool_ctx \<Rightarrow> node set \<Rightarrow> bool" for sz where
  pool_created: "pool_run sz (pool_create sz) {}"
| pool_allocated: "pool_run sz c live \<Longrightarrow> pool_malloc c = Some (n, c') \<Longrightarrow> pool_run sz c' (insert n live)"
| pool_freed: "pool_run sz c live \<Longrightarrow> n \<in> live \<Longrightarrow> pool_run sz (pool_free c n) (live - {n})"

lemma pool_run_inv: "pool_run sz c live \<Longrightarrow> pool_inv c live \<and> obj_count c = POOL_SIZE"
proof (induction rule: pool_run.induct)
  case pool_created
  have "obj_count (pool_create sz) = POOL_SIZE"
    using expand_pool_inv [of "\<lparr>pool = [], pool_free_head = None, pool_nxt = \<lambda>_. None,
        obj_size = sz, obj_count = POOL_SIZE, malloc_next = 0\<rparr>" "{}"]
    by (auto simp: pool_create_def pool_inv_def POOL_SIZE_def pool_nodes_def)
  then show ?case by (simp add: pool_create_inv)
next
  case (pool_allocated c live n c')
  then show ?case using pool_malloc_inv [of c live] by auto
next
  case (pool_freed c live n)
  then show ?case using pl.dealloc_live by (auto simp: pool_free_def)
qed

text \<open>
  C23. In every state of the pool an allocation succeeds and returns an object that the program does
  not hold, the objects held never exceed the blocks allocated, and a new block is allocated only
  when all the objects of the existing blocks are held.
\<close>

theorem pool_alloc_fresh:
  assumes "pool_run sz c live"
  shows "\<exists>n c'. pool_malloc c = Some (n, c') \<and> n \<notin> live
    \<and> card live \<le> POOL_SIZE * length (pool c)
    \<and> length (pool c') = length (pool c) + (if card live = POOL_SIZE * length (pool c) then 1 else 0)"
proof -
  have inv: "pool_inv c live" "obj_count c = POOL_SIZE" using pool_run_inv [OF assms] by auto
  have card: "card (pool_nodes c) = POOL_SIZE * length (pool c)" "finite (pool_nodes c)" "live \<subseteq> pool_nodes c"
    using inv by (auto simp: pool_inv_def pool_nodes_def card_cartesian_product distinct_card)
  then have le: "card live \<le> POOL_SIZE * length (pool c)" by (metis card_mono)
  have full: "card live = POOL_SIZE * length (pool c) \<longleftrightarrow> live = pool_nodes c"
    using card by (metis card_subset_eq)
  obtain n c' where n: "pool_malloc c = Some (n, c')" "n \<notin> live"
      "live \<noteq> pool_nodes c \<longrightarrow> pool c' = pool c"
    using pool_malloc_inv [OF inv(1)] by blast
  have "length (pool c') = Suc (length (pool c))" if "live = pool_nodes c"
  proof -
    have "pool_free_head c = None"
      using inv(1) that by (auto simp: pool_inv_def)
    then show ?thesis
      using n(1) expand_pool_inv [OF inv(1)] by (auto simp: pool_malloc_def Let_def split: option.splits)
  qed
  with n le full show ?thesis by auto
qed

theorem pool_alloc_fresh_witness:
  "pool_run 8 (pool_create 8) {}
   \<and> (\<exists>n c'. pool_malloc (pool_create 8) = Some (n, c') \<and> length (pool c') = length (pool (pool_create 8)))"
proof -
  have r: "pool_run 8 (pool_create 8) {}" by (rule pool_created)
  have "pool (pool_create 8) = [0]"
    using expand_pool_inv [of "\<lparr>pool = [], pool_free_head = None, pool_nxt = \<lambda>_. None,
        obj_size = 8, obj_count = POOL_SIZE, malloc_next = 0\<rparr>" "{}"]
    by (auto simp: pool_create_def pool_inv_def POOL_SIZE_def pool_nodes_def)
  then show ?thesis using r pool_alloc_fresh [OF r] by (auto simp: POOL_SIZE_def)
qed

end
