(* ===== verification/Message_Queue.thy ===== *)
theory Message_Queue
  imports Prelude
begin

text \<open>
  The two-buffer message queue of \<open>src/luaclib/message_queue.c\<close>, which connects the worker
  threads of \<open>lua-worker.c\<close>. Producers push under a lock into the writer ring; the consumer pops
  from the reader ring without the lock and, when that ring is empty, takes the lock and exchanges
  the two rings. The cells of a ring are \<open>None\<close> while the memory behind them is uninitialised.

  \<open>int\<close> counters and capacities are natural numbers: the code only increments, doubles and reduces
  them modulo the capacity. The locale \<open>fifo\<close> is the contract of one ring; the section on
  interleavings models the producers and the consumer as a step relation: taking the lock, the work
  under it, releasing it and the consumer's unlocked access to its own ring are separate steps.
\<close>

section \<open>The code\<close>

record queue_message =
  source :: int
  session :: int
  data :: "nat option"
  msize :: nat

record queue_context =
  head :: nat
  tail :: nat
  cap :: nat
  message :: "queue_message option list"
  threshold :: nat
  overload :: bool

record message_queue =
  queue :: "queue_context list"
  lock :: bool
  reader :: nat
  writer :: nat

definition THRESHOLD :: nat where
  "THRESHOLD = 1024"

definition queue_create :: message_queue where
  "queue_create =
     (let zero = \<lparr>source = 0, session = 0, data = None, msize = 0\<rparr>;
          q = \<lparr>head = 0, tail = 0, cap = 8, message = replicate 8 (Some zero),
               threshold = THRESHOLD, overload = False\<rparr>
      in \<lparr>queue = [q, q], lock = False, reader = 0, writer = 1\<rparr>)"

definition queue_length :: "queue_context \<Rightarrow> nat" where
  "queue_length q = (if head q \<le> tail q then tail q - head q else tail q + cap q - head q)"

text \<open>The body of \<open>queue_push\<close> on the writer ring: store, advance, grow when the ring is full.\<close>

definition ring_write :: "queue_message \<Rightarrow> queue_context \<Rightarrow> queue_context" where
  "ring_write m q =
     (let q = q\<lparr>message := (message q)[tail q := Some m],
                tail := (if Suc (tail q) \<ge> cap q then 0 else Suc (tail q))\<rparr>
      in if head q = tail q
         then q\<lparr>message := map (\<lambda>i. message q ! ((head q + i) mod cap q)) [0..<cap q] @ replicate (cap q) None,
                head := 0, tail := cap q, cap := cap q * 2\<rparr>
         else q)"

definition ring_check :: "queue_context \<Rightarrow> queue_context" where
  "ring_check q =
     (if queue_length q \<ge> threshold q then q\<lparr>threshold := threshold q * 2, overload := True\<rparr> else q)"

text \<open>The mutex; \<open>None\<close> is a call that blocks because the lock is held.\<close>

definition mutex_lock :: "message_queue \<Rightarrow> message_queue option" where
  "mutex_lock mq = (if lock mq then None else Some (mq\<lparr>lock := True\<rparr>))"

definition mutex_unlock :: "message_queue \<Rightarrow> message_queue" where
  "mutex_unlock mq = mq\<lparr>lock := False\<rparr>"

text \<open>What \<open>queue_push\<close> does under the lock; \<open>None\<close> is the failed assertion that writer and reader differ.\<close>

definition push_body :: "message_queue \<Rightarrow> queue_message \<Rightarrow> message_queue option" where
  "push_body mq m =
     (if writer mq = reader mq then None
      else Some (mq\<lparr>queue := (queue mq)[writer mq := ring_check (ring_write m (queue mq ! writer mq))]\<rparr>))"

definition queue_push :: "message_queue \<Rightarrow> queue_message \<Rightarrow> message_queue option" where
  "queue_push mq m =
     (case mutex_lock mq of
        None \<Rightarrow> None
      | Some mq \<Rightarrow> map_option mutex_unlock (push_body mq m))"

text \<open>Taking the message at the head of a ring; the cell itself is returned.\<close>

definition ring_take :: "queue_context \<Rightarrow> (queue_message option \<times> queue_context) option" where
  "ring_take q =
     (if head q \<noteq> tail q
      then Some (message q ! head q,
                 q\<lparr>head := (if Suc (head q) \<ge> cap q then 0 else Suc (head q))\<rparr>)
      else None)"

text \<open>
  The parts of \<open>queue_pop\<close>: the overload report (a line on the error stream: the number of
  queued messages), the unlocked access to the reader ring, the exchange of the rings.
\<close>

definition queue_report :: "message_queue \<Rightarrow> nat option \<times> message_queue" where
  "queue_report mq =
     (let q = queue mq ! reader mq
      in if overload q
         then (Some (queue_length q), mq\<lparr>queue := (queue mq)[reader mq := q\<lparr>overload := False\<rparr>]\<rparr>)
         else (None, mq))"

definition queue_take :: "message_queue \<Rightarrow> queue_message option option \<times> message_queue" where
  "queue_take mq =
     (case ring_take (queue mq ! reader mq) of
        None \<Rightarrow> (None, mq)
      | Some (cell, q) \<Rightarrow> (Some cell, mq\<lparr>queue := (queue mq)[reader mq := q]\<rparr>))"

definition queue_exchange :: "message_queue \<Rightarrow> message_queue" where
  "queue_exchange mq = mq\<lparr>writer := Suc (writer mq) mod 2, reader := Suc (reader mq) mod 2\<rparr>"

definition queue_swap :: "message_queue \<Rightarrow> message_queue option" where
  "queue_swap mq = map_option (\<lambda>mq. mutex_unlock (queue_exchange mq)) (mutex_lock mq)"

definition queue_pop :: "message_queue \<Rightarrow> (queue_message option option \<times> nat option \<times> message_queue) option" where
  "queue_pop mq =
     (case queue_report mq of (report, mq) \<Rightarrow>
      case queue_take mq of
        (Some cell, mq) \<Rightarrow> Some (Some cell, report, mq)
      | (None, mq) \<Rightarrow>
          (case queue_swap mq of
             None \<Rightarrow> None
           | Some mq \<Rightarrow> (case queue_take mq of (r, mq) \<Rightarrow> Some (r, report, mq))))"

section \<open>One ring\<close>

text \<open>The cells in use, first to be taken first, and the messages in them.\<close>

definition ring_cells :: "queue_context \<Rightarrow> queue_message option list" where
  "ring_cells q = map (\<lambda>i. message q ! ((head q + i) mod cap q)) [0..<queue_length q]"

definition ring_list :: "queue_context \<Rightarrow> queue_message list" where
  "ring_list q = map the (ring_cells q)"

definition ring_inv :: "queue_context \<Rightarrow> bool" where
  "ring_inv q \<longleftrightarrow>
     head q < cap q \<and> tail q < cap q \<and> length (message q) = cap q \<and> None \<notin> set (ring_cells q)"

lemma queue_length_less: "head q < cap q \<Longrightarrow> tail q < cap q \<Longrightarrow> queue_length q < cap q"
  by (auto simp: queue_length_def)

lemma tail_eq: "head q < cap q \<Longrightarrow> tail q < cap q \<Longrightarrow> (head q + queue_length q) mod cap q = tail q"
  by (auto simp: queue_length_def)

lemma queue_length_eqI:
  assumes "head q < cap q" "tail q < cap q" "n < cap q" "(head q + n) mod cap q = tail q"
  shows "queue_length q = n"
  using mod_add_inj [of "queue_length q" "cap q" n "head q"] queue_length_less [of q] tail_eq [of q] assms
  by simp

lemma length_ring_cells [simp]: "length (ring_cells q) = queue_length q"
  by (simp add: ring_cells_def)

text \<open>Storing and advancing, before the test whether the ring is full.\<close>

lemma ring_store:
  assumes "ring_inv q"
    and p_def: "p = q\<lparr>message := (message q)[tail q := Some m],
                 tail := (if Suc (tail q) \<ge> cap q then 0 else Suc (tail q))\<rparr>"
  shows "tail p = (head q + Suc (queue_length q)) mod cap q"
    and "map (\<lambda>i. message p ! ((head p + i) mod cap p)) [0..<Suc (queue_length q)]
         = ring_cells q @ [Some m]"
proof -
  have h: "head q < cap q" "tail q < cap q" "length (message q) = cap q"
    using assms(1) by (auto simp: ring_inv_def)
  note n = queue_length_less [OF h(1,2)] tail_eq [OF h(1,2)]
  have "(head q + Suc (queue_length q)) mod cap q = Suc (tail q) mod cap q"
    using n(2) by (metis add_Suc_right mod_Suc_eq)
  then show "tail p = (head q + Suc (queue_length q)) mod cap q"
    using h(2) by (auto simp: p_def mod_Suc)
  have "tail q \<noteq> (head q + i) mod cap q" if "i < queue_length q" for i
    using mod_add_inj [of i "cap q" "queue_length q" "head q"] n that by auto
  then have "map (\<lambda>i. message p ! ((head p + i) mod cap p)) [0..<queue_length q] = ring_cells q"
    by (auto simp: p_def ring_cells_def)
  then show "map (\<lambda>i. message p ! ((head p + i) mod cap p)) [0..<Suc (queue_length q)]
      = ring_cells q @ [Some m]"
    using n h by (simp add: p_def)
qed

lemma ring_write_spec:
  assumes "ring_inv q"
  shows "ring_inv (ring_write m q) \<and> ring_cells (ring_write m q) = ring_cells q @ [Some m]"
proof -
  define p where "p = q\<lparr>message := (message q)[tail q := Some m],
                 tail := (if Suc (tail q) \<ge> cap q then 0 else Suc (tail q))\<rparr>"
  have h: "head q < cap q" "tail q < cap q" "length (message q) = cap q" "None \<notin> set (ring_cells q)"
    using assms by (auto simp: ring_inv_def)
  have p: "head p = head q" "cap p = cap q" "length (message p) = cap q" "tail p < cap q"
    using h by (auto simp: p_def)
  note store = ring_store [OF assms p_def]
  have n: "queue_length q < cap q" using queue_length_less [OF h(1,2)] .
  show ?thesis
  proof (cases "Suc (queue_length q) = cap q")
    case True
    then have full: "head p = tail p" using store(1) p h(1) by simp
    let ?g = "p\<lparr>message := map (\<lambda>i. message p ! ((head p + i) mod cap p)) [0..<cap p] @ replicate (cap p) None,
                head := 0, tail := cap p, cap := cap p * 2\<rparr>"
    have w: "ring_write m q = ?g" using full by (simp add: ring_write_def p_def [symmetric] Let_def)
    have cells: "ring_cells ?g = map (\<lambda>i. message p ! ((head p + i) mod cap p)) [0..<cap p]"
      using p h(1) by (auto simp: ring_cells_def queue_length_def nth_append intro: nth_equalityI)
    then have "ring_cells ?g = ring_cells q @ [Some m]" using store(2) True p(2) by simp
    then show ?thesis using w h p by (auto simp: ring_inv_def)
  next
    case False
    then have lt: "Suc (queue_length q) < cap q" using n by simp
    then have "head p \<noteq> tail p"
      using mod_add_inj [of 0 "cap q" "Suc (queue_length q)" "head q"] store(1) p h(1) by auto
    then have w: "ring_write m q = p" by (simp add: ring_write_def p_def [symmetric] Let_def)
    have "queue_length p = Suc (queue_length q)"
      using queue_length_eqI [of p "Suc (queue_length q)"] lt p h(1) store(1) by simp
    then have "ring_cells p = ring_cells q @ [Some m]" using store(2) by (simp add: ring_cells_def)
    then show ?thesis using w h p by (auto simp: ring_inv_def)
  qed
qed

lemma ring_check_spec:
  "ring_inv (ring_check q) = ring_inv q \<and> ring_cells (ring_check q) = ring_cells q"
  by (simp add: ring_check_def ring_inv_def ring_cells_def queue_length_def)

lemma ring_take_None_iff: "ring_inv q \<Longrightarrow> ring_take q = None \<longleftrightarrow> ring_cells q = []"
  by (auto simp: ring_take_def ring_cells_def ring_inv_def queue_length_def)

lemma ring_take_spec:
  assumes "ring_inv q" "ring_take q = Some (cell, q')"
  shows "ring_inv q' \<and> ring_cells q = cell # ring_cells q'"
proof -
  have h: "head q < cap q" "tail q < cap q" "length (message q) = cap q" "None \<notin> set (ring_cells q)"
    using assms by (auto simp: ring_inv_def)
  have q': "q' = q\<lparr>head := (if Suc (head q) \<ge> cap q then 0 else Suc (head q))\<rparr>"
    "cell = message q ! head q" "head q \<noteq> tail q"
    using assms(2) by (auto simp: ring_take_def split: if_splits)
  have hd: "head q' = Suc (head q) mod cap q" using h by (auto simp: q' mod_Suc)
  obtain n where n: "queue_length q = Suc n" using q'(3) h by (cases "queue_length q") (auto simp: queue_length_def split: if_splits)
  have "queue_length q' = n"
  proof (rule queue_length_eqI)
    show "(head q' + n) mod cap q' = tail q'"
      using tail_eq [OF h(1,2)] n hd by (simp add: q'(1) mod_add_left_eq)
  qed (use h hd n queue_length_less [of q] in \<open>auto simp: q'(1)\<close>)
  then have "ring_cells q = cell # ring_cells q'"
    using n hd h(1) q'(2) by (simp add: ring_cells_def q'(1) upt_conv_Cons mod_add_left_eq del: upt_Suc map_upt_Suc)
      (simp add: map_Suc_upt [symmetric] del: map_Suc_upt upt_Suc)
  then show ?thesis using h hd by (auto simp: ring_inv_def q'(1))
qed

section \<open>The contract of a ring\<close>

locale fifo =
  fixes enq :: "'a \<Rightarrow> 'q \<Rightarrow> 'q"
    and deq :: "'q \<Rightarrow> ('a option \<times> 'q) option"
    and contents :: "'q \<Rightarrow> 'a list"
    and invar :: "'q \<Rightarrow> bool"
  assumes invar_enq: "invar q \<Longrightarrow> invar (enq x q)"
    and contents_enq: "invar q \<Longrightarrow> contents (enq x q) = contents q @ [x]"
    and deq_empty: "invar q \<Longrightarrow> deq q = None \<longleftrightarrow> contents q = []"
    and deq_cons: "invar q \<Longrightarrow> deq q = Some (c, q') \<Longrightarrow>
      invar q' \<and> (\<exists>x. c = Some x \<and> contents q = x # contents q')"
begin

text \<open>Pushing a list of messages, and what a single take returns then.\<close>

lemma invar_fold_enq: "invar q \<Longrightarrow> invar (fold enq xs q)"
  by (induction xs arbitrary: q) (simp_all add: invar_enq)

lemma contents_fold_enq: "invar q \<Longrightarrow> contents (fold enq xs q) = contents q @ xs"
  by (induction xs arbitrary: q) (simp_all add: contents_enq invar_enq)

lemma deq_Some:
  assumes "invar q" "contents q = x # xs"
  shows "\<exists>q'. deq q = Some (Some x, q') \<and> invar q' \<and> contents q' = xs"
proof -
  from assms deq_empty obtain c q' where d: "deq q = Some (c, q')" by fastforce
  from deq_cons [OF assms(1) d] assms(2) d show ?thesis by auto
qed

end

lemma ring_list_Cons: "ring_inv q \<Longrightarrow> ring_cells q = cell # cs \<Longrightarrow> \<exists>x. cell = Some x"
  by (cases cell) (auto simp: ring_inv_def)

interpretation rb: fifo "\<lambda>m q. ring_check (ring_write m q)" ring_take ring_list ring_inv
proof
  fix q m
  assume inv: "ring_inv q"
  show "ring_inv (ring_check (ring_write m q))"
    by (simp add: ring_check_spec ring_write_spec inv)
  show "ring_list (ring_check (ring_write m q)) = ring_list q @ [m]"
    by (simp add: ring_list_def ring_check_spec ring_write_spec inv)
  show "ring_take q = None \<longleftrightarrow> ring_list q = []"
    by (simp add: ring_take_None_iff inv ring_list_def)
  fix c q'
  assume "ring_take q = Some (c, q')"
  with ring_take_spec [OF inv] ring_list_Cons [OF inv]
  show "ring_inv q' \<and> (\<exists>x. c = Some x \<and> ring_list q = x # ring_list q')"
    by (auto simp: ring_list_def)
qed

section \<open>The two rings\<close>

definition rings_inv :: "message_queue \<Rightarrow> bool" where
  "rings_inv mq \<longleftrightarrow>
     length (queue mq) = 2 \<and> reader mq < 2 \<and> writer mq = 1 - reader mq
     \<and> ring_inv (queue mq ! 0) \<and> ring_inv (queue mq ! 1)"

text \<open>Between two calls the lock is free.\<close>

definition mq_inv :: "message_queue \<Rightarrow> bool" where
  "mq_inv mq \<longleftrightarrow> rings_inv mq \<and> \<not> lock mq"

text \<open>The queued messages, next to be popped first: the reader ring, then the writer ring.\<close>

definition mq_list :: "message_queue \<Rightarrow> queue_message list" where
  "mq_list mq = ring_list (queue mq ! reader mq) @ ring_list (queue mq ! writer mq)"

abbreviation reader_list :: "message_queue \<Rightarrow> queue_message list" where
  "reader_list mq \<equiv> ring_list (queue mq ! reader mq)"

lemma rings_inv_cases:
  assumes "rings_inv mq"
  obtains q0 q1 where "queue mq = [q0, q1]" "ring_inv q0" "ring_inv q1"
    "reader mq = 0 \<and> writer mq = 1 \<or> reader mq = 1 \<and> writer mq = 0"
proof -
  obtain q0 q1 where "queue mq = [q0, q1]"
    using assms by (auto simp: rings_inv_def length_Suc_conv numeral_2_eq_2)
  then show ?thesis using assms that by (auto simp: rings_inv_def less_2_cases_iff)
qed

lemma queue_create_inv: "mq_inv queue_create \<and> mq_list queue_create = []"
  by (auto simp: queue_create_def mq_inv_def rings_inv_def mq_list_def ring_inv_def ring_list_def ring_cells_def
      queue_length_def Let_def)

lemma lock_upd [simp]:
  "rings_inv (mq\<lparr>lock := b\<rparr>) = rings_inv mq" "mq_list (mq\<lparr>lock := b\<rparr>) = mq_list mq"
  by (simp_all add: rings_inv_def mq_list_def)

lemma push_body_spec:
  assumes "rings_inv mq"
  shows "\<exists>mq'. push_body mq m = Some mq' \<and> rings_inv mq' \<and> mq_list mq' = mq_list mq @ [m] \<and> lock mq' = lock mq
    \<and> reader mq' = reader mq \<and> queue mq' ! reader mq = queue mq ! reader mq"
  using assms
proof (cases rule: rings_inv_cases)
  case (1 q0 q1)
  then show ?thesis
    by (auto simp: push_body_def rings_inv_def mq_list_def rb.invar_enq rb.contents_enq)
qed

lemma queue_push_spec:
  assumes "mq_inv mq"
  shows "\<exists>mq'. queue_push mq m = Some mq' \<and> mq_inv mq' \<and> mq_list mq' = mq_list mq @ [m]
    \<and> reader mq' = reader mq \<and> queue mq' ! reader mq = queue mq ! reader mq"
  using push_body_spec [of "mq\<lparr>lock := True\<rparr>" m] assms
  by (auto simp: queue_push_def mutex_lock_def mutex_unlock_def mq_inv_def)

lemma queue_take_spec:
  assumes "rings_inv mq" "queue_take mq = (r, mq')"
  shows "rings_inv mq' \<and> lock mq' = lock mq \<and> reader mq' = reader mq \<and> (case r of
      None \<Rightarrow> mq' = mq \<and> reader_list mq = []
    | Some cell \<Rightarrow> \<exists>m. cell = Some m \<and> mq_list mq = m # mq_list mq')"
  using assms(1)
proof (cases rule: rings_inv_cases)
  case (1 q0 q1)
  show ?thesis
  proof (cases "ring_take (queue mq ! reader mq)")
    case None
    then have "r = None" "mq' = mq" using assms(2) by (auto simp: queue_take_def)
    moreover have "reader_list mq = []" using None 1 rb.deq_empty by auto
    ultimately show ?thesis using assms(1) by simp
  next
    case (Some p)
    obtain cell q where p: "p = (cell, q)" by fastforce
    have mq': "r = Some cell" "mq' = mq\<lparr>queue := (queue mq)[reader mq := q]\<rparr>"
      using assms(2) Some p by (auto simp: queue_take_def)
    have "ring_inv (queue mq ! reader mq)" using 1 by auto
    from rb.deq_cons [OF this Some [unfolded p]] 1 mq' show ?thesis
      by (auto simp: rings_inv_def mq_list_def)
  qed
qed

lemma queue_exchange_spec:
  assumes "rings_inv mq" "reader_list mq = []"
  shows "rings_inv (queue_exchange mq) \<and> mq_list (queue_exchange mq) = mq_list mq \<and> lock (queue_exchange mq) = lock mq
    \<and> reader_list (queue_exchange mq) = mq_list mq"
  using assms(1)
proof (cases rule: rings_inv_cases)
  case (1 q0 q1)
  then show ?thesis using assms(2) by (auto simp: queue_exchange_def rings_inv_def mq_list_def)
qed

lemma ring_overload_upd [simp]:
  "ring_inv (q\<lparr>overload := b\<rparr>) = ring_inv q" "ring_list (q\<lparr>overload := b\<rparr>) = ring_list q"
  by (simp_all add: ring_inv_def ring_list_def ring_cells_def queue_length_def)

lemma queue_report_spec:
  assumes "rings_inv mq" "queue_report mq = (report, mq')"
  shows "rings_inv mq' \<and> lock mq' = lock mq \<and> mq_list mq' = mq_list mq \<and> reader_list mq' = reader_list mq
    \<and> reader mq' = reader mq"
  using assms(1)
proof (cases rule: rings_inv_cases)
  case (1 q0 q1)
  then show ?thesis
    using assms(2)
    by (auto simp: queue_report_def rings_inv_def mq_list_def Let_def split: if_splits)
qed

text \<open>
  C21. A pop by itself: from a well-formed queue whose lock is free \<open>queue_pop\<close> returns the null pointer
  exactly when no message is queued, and otherwise the oldest queued message, from a cell that has
  been written; the rest stays queued in order and the lock is free again.
\<close>

theorem queue_pop_oldest:
  assumes "mq_inv mq"
  shows "\<exists>report mq'. mq_inv mq' \<and> (case mq_list mq of
      [] \<Rightarrow> queue_pop mq = Some (None, report, mq') \<and> mq_list mq' = []
    | m # ms \<Rightarrow> queue_pop mq = Some (Some (Some m), report, mq') \<and> mq_list mq' = ms)"
proof -
  have inv: "rings_inv mq" "\<not> lock mq" using assms by (simp_all add: mq_inv_def)
  obtain report mq1 where r: "queue_report mq = (report, mq1)" by fastforce
  note mq1 = queue_report_spec [OF inv(1) r]
  obtain c mq2 where t: "queue_take mq1 = (c, mq2)" by fastforce
  note mq2 = queue_take_spec [OF mq1 [THEN conjunct1] t]
  show ?thesis
  proof (cases c)
    case (Some cell)
    with mq1 mq2 r t inv(2) show ?thesis by (auto simp: queue_pop_def mq_inv_def)
  next
    case None
    then have e: "mq2 = mq1" "reader_list mq1 = []" using mq2 by auto
    let ?x = "queue_exchange (mq1\<lparr>lock := True\<rparr>)\<lparr>lock := False\<rparr>"
    have sw: "queue_swap mq1 = Some ?x"
      using mq1 inv(2) by (simp add: queue_swap_def mutex_lock_def mutex_unlock_def)
    have x: "rings_inv ?x" "mq_list ?x = mq_list mq1" "reader_list ?x = mq_list mq1"
      using queue_exchange_spec [of "mq1\<lparr>lock := True\<rparr>"] mq1 e(2) by simp_all
    obtain d mq3 where d: "queue_take ?x = (d, mq3)" by fastforce
    note mq3 = queue_take_spec [OF x(1) d]
    have pop: "queue_pop mq = Some (d, report, mq3)" using r t None sw d e by (simp add: queue_pop_def)
    show ?thesis using pop mq3 x mq1 by (cases d) (auto simp: mq_inv_def split: list.splits)
  qed
qed

theorem queue_pop_oldest_witness:
  "mq_inv queue_create \<and> (\<exists>report mq'. queue_pop queue_create = Some (None, report, mq') \<and> mq_inv mq')"
  using queue_pop_oldest [of queue_create] queue_create_inv by auto

section \<open>Interleavings\<close>

text \<open>
  The consumer is between two calls of \<open>queue_pop\<close> (\<open>Idle\<close>), past an unsuccessful look at its
  ring (\<open>Missed\<close>), holds the lock before (\<open>Locked\<close>) or after (\<open>Exchanged\<close>) the exchange of the rings, or
  has released it (\<open>Swapped\<close>). The producer inside \<open>queue_push\<close>, if there is one, holds the lock before
  (\<open>Entered\<close>) or after (\<open>Stored\<close>) its work; the other producers wait outside. The messages stored and
  popped so far are recorded.
\<close>

datatype consumer = Idle | Missed | Locked | Exchanged | Swapped
datatype producer = Outside | Entered queue_message | Stored

record mq_system =
  mq :: message_queue
  pc :: consumer
  prod :: producer
  pushed :: "queue_message list"
  popped :: "queue_message option list"

definition mq_start :: mq_system where
  "mq_start = \<lparr>mq = queue_create, pc = Idle, prod = Outside, pushed = [], popped = []\<rparr>"

inductive mq_step :: "mq_system \<Rightarrow> mq_system \<Rightarrow> bool" where
  push_lock: "prod s = Outside \<Longrightarrow> mutex_lock (mq s) = Some q \<Longrightarrow> mq_step s (s\<lparr>mq := q, prod := Entered m\<rparr>)"
| push_store: "prod s = Entered m \<Longrightarrow> push_body (mq s) m = Some q \<Longrightarrow>
    mq_step s (s\<lparr>mq := q, prod := Stored, pushed := pushed s @ [m]\<rparr>)"
| push_unlock: "prod s = Stored \<Longrightarrow> mq_step s (s\<lparr>mq := mutex_unlock (mq s), prod := Outside\<rparr>)"
| pop_hit: "pc s = Idle \<Longrightarrow> queue_report (mq s) = (r, q) \<Longrightarrow> queue_take q = (Some cell, q') \<Longrightarrow>
    mq_step s (s\<lparr>mq := q', popped := popped s @ [cell]\<rparr>)"
| pop_miss: "pc s = Idle \<Longrightarrow> queue_report (mq s) = (r, q) \<Longrightarrow> queue_take q = (None, q') \<Longrightarrow>
    mq_step s (s\<lparr>mq := q', pc := Missed\<rparr>)"
| swap_lock: "pc s = Missed \<Longrightarrow> mutex_lock (mq s) = Some q \<Longrightarrow> mq_step s (s\<lparr>mq := q, pc := Locked\<rparr>)"
| swap_body: "pc s = Locked \<Longrightarrow> mq_step s (s\<lparr>mq := queue_exchange (mq s), pc := Exchanged\<rparr>)"
| swap_unlock: "pc s = Exchanged \<Longrightarrow> mq_step s (s\<lparr>mq := mutex_unlock (mq s), pc := Swapped\<rparr>)"
| swap_hit: "pc s = Swapped \<Longrightarrow> queue_take (mq s) = (Some cell, q) \<Longrightarrow>
    mq_step s (s\<lparr>mq := q, pc := Idle, popped := popped s @ [cell]\<rparr>)"
| swap_miss: "pc s = Swapped \<Longrightarrow> queue_take (mq s) = (None, q) \<Longrightarrow>
    mq_step s (s\<lparr>mq := q, pc := Idle\<rparr>)"

inductive mq_reachable :: "mq_system \<Rightarrow> bool" where
  start: "mq_reachable mq_start"
| step: "mq_reachable s \<Longrightarrow> mq_step s t \<Longrightarrow> mq_reachable t"

text \<open>The two ways to be inside a critical section.\<close>

definition consumer_inside :: "mq_system \<Rightarrow> bool" where
  "consumer_inside s \<longleftrightarrow> pc s = Locked \<or> pc s = Exchanged"

definition producer_inside :: "mq_system \<Rightarrow> bool" where
  "producer_inside s \<longleftrightarrow> prod s \<noteq> Outside"

definition mq_system_inv :: "mq_system \<Rightarrow> bool" where
  "mq_system_inv s \<longleftrightarrow>
     rings_inv (mq s) \<and> (pc s = Missed \<or> pc s = Locked \<longrightarrow> reader_list (mq s) = [])
     \<and> (lock (mq s) \<longleftrightarrow> producer_inside s \<or> consumer_inside s) \<and> \<not> (producer_inside s \<and> consumer_inside s)
     \<and> map Some (pushed s) = popped s @ map Some (mq_list (mq s))"

lemmas mq_system_defs = mq_system_inv_def producer_inside_def consumer_inside_def mutex_lock_def mutex_unlock_def

lemma mq_step_inv: "mq_step s t \<Longrightarrow> mq_system_inv s \<Longrightarrow> mq_system_inv t"
proof (induction rule: mq_step.induct)
  case (push_store s m q)
  then show ?case
    using push_body_spec [of "mq s" m] by (auto simp: mq_system_defs)
next
  case (pop_hit s r q cell q')
  then show ?case
    using queue_report_spec [of "mq s" r q] queue_take_spec [of q "Some cell" q']
    by (auto simp: mq_system_defs)
next
  case (pop_miss s r q q')
  then show ?case
    using queue_report_spec [of "mq s" r q] queue_take_spec [of q None q']
    by (auto simp: mq_system_defs)
next
  case (swap_body s)
  then show ?case using queue_exchange_spec [of "mq s"] by (auto simp: mq_system_defs)
next
  case (swap_hit s cell q)
  then show ?case using queue_take_spec [of "mq s" "Some cell" q] by (auto simp: mq_system_defs)
next
  case (swap_miss s q)
  then show ?case using queue_take_spec [of "mq s" None q] by (auto simp: mq_system_defs)
qed (auto simp: mq_system_defs split: if_splits)

lemma mq_reachable_inv: "mq_reachable s \<Longrightarrow> mq_system_inv s"
proof (induction rule: mq_reachable.induct)
  case start
  show ?case using queue_create_inv by (simp add: mq_system_defs mq_start_def mq_inv_def)
next
  case (step s t)
  then show ?case by (blast intro: mq_step_inv)
qed

text \<open>
  C18. Whatever the interleaving of the producers' pushes with the steps of the consumer, the
  messages popped so far followed by the messages still queued are exactly the messages pushed so
  far, in order: no message is lost, duplicated, reordered, or read from an uninitialised cell.
\<close>

theorem mq_fifo:
  assumes "mq_reachable s"
  shows "map Some (pushed s) = popped s @ map Some (mq_list (mq s))"
  using mq_reachable_inv [OF assms] by (simp add: mq_system_inv_def)

lemma mq_steps_Cons: "mq_step s t \<Longrightarrow> mq_step\<^sup>*\<^sup>* t u \<Longrightarrow> mq_step\<^sup>*\<^sup>* s u"
  by (rule converse_rtranclp_into_rtranclp)

lemma mq_steps_one: "mq_step s t \<Longrightarrow> mq_step\<^sup>*\<^sup>* s t"
  by (rule r_into_rtranclp)

text \<open>The steps of a producer: a call of \<open>queue_push\<close> while the lock is free, and the end of a call.\<close>

lemma mq_push_steps:
  assumes "mq_system_inv s" "\<not> lock (mq s)" "queue_push (mq s) m = Some q"
  shows "mq_step\<^sup>*\<^sup>* s (s\<lparr>mq := q, pushed := pushed s @ [m]\<rparr>)"
proof -
  have out: "prod s = Outside" "mutex_lock (mq s) = Some (mq s\<lparr>lock := True\<rparr>)"
    using assms(1,2) by (auto simp: mq_system_defs)
  obtain q1 where q1: "push_body (mq s\<lparr>lock := True\<rparr>) m = Some q1" "q = mutex_unlock q1"
    using assms(3) out(2) by (auto simp: queue_push_def)
  let ?s1 = "s\<lparr>mq := mq s\<lparr>lock := True\<rparr>, prod := Entered m\<rparr>"
  let ?s2 = "?s1\<lparr>mq := q1, prod := Stored, pushed := pushed s @ [m]\<rparr>"
  let ?s3 = "?s2\<lparr>mq := mutex_unlock q1, prod := Outside\<rparr>"
  have a: "mq_step s ?s1" by (rule push_lock [OF out])
  have b: "mq_step ?s1 ?s2" using push_store [of ?s1 m q1] q1(1) by simp
  have c: "mq_step ?s2 ?s3" using push_unlock [of ?s2] by simp
  have "?s3 = s\<lparr>mq := q, pushed := pushed s @ [m]\<rparr>" using q1(2) out(1) by (cases s) simp
  then show ?thesis using mq_steps_Cons [OF a mq_steps_Cons [OF b mq_steps_one [OF c]]] by simp
qed

definition pending :: "mq_system \<Rightarrow> queue_message list" where
  "pending s = (case prod s of Entered m \<Rightarrow> [m] | _ \<Rightarrow> [])"

lemma mq_push_ends:
  assumes "mq_system_inv s"
  shows "\<exists>t. mq_step\<^sup>*\<^sup>* s t \<and> prod t = Outside \<and> pc t = pc s \<and> pushed t = pushed s @ pending s"
proof (cases "prod s")
  case Outside
  then show ?thesis by (auto simp: pending_def)
next
  case (Entered m)
  obtain q where "push_body (mq s) m = Some q"
    using push_body_spec [of "mq s" m] assms by (auto simp: mq_system_inv_def)
  note a = push_store [OF Entered this]
  let ?t = "s\<lparr>mq := q, prod := Stored, pushed := pushed s @ [m]\<rparr>"
  have b: "mq_step ?t (?t\<lparr>mq := mutex_unlock q, prod := Outside\<rparr>)" using push_unlock [of ?t] by simp
  have "mq_step\<^sup>*\<^sup>* s (?t\<lparr>mq := mutex_unlock q, prod := Outside\<rparr>)"
    by (rule mq_steps_Cons [OF a mq_steps_one [OF b]])
  then show ?thesis using Entered by (intro exI [of _ "?t\<lparr>mq := mutex_unlock q, prod := Outside\<rparr>"]) (simp add: pending_def)
next
  case Stored
  then show ?thesis using mq_steps_one [OF push_unlock [OF Stored]]
    by (intro exI [of _ "s\<lparr>mq := mutex_unlock (mq s), prod := Outside\<rparr>"]) (simp add: pending_def)
qed

text \<open>With no producer inside, the consumer ends its call.\<close>

lemma mq_swapped_ends: "pc s = Swapped \<Longrightarrow> \<exists>t. mq_step s t \<and> pc t = Idle \<and> prod t = prod s \<and> pushed t = pushed s"
proof -
  assume p: "pc s = Swapped"
  obtain c q where t: "queue_take (mq s) = (c, q)" by fastforce
  show ?thesis using swap_hit [OF p] swap_miss [OF p] t by (cases c) fastforce+
qed

lemma mq_exchanged_ends:
  "pc s = Exchanged \<Longrightarrow> \<exists>t. mq_step\<^sup>*\<^sup>* s t \<and> pc t = Idle \<and> prod t = prod s \<and> pushed t = pushed s"
proof -
  assume p: "pc s = Exchanged"
  let ?t = "s\<lparr>mq := mutex_unlock (mq s), pc := Swapped\<rparr>"
  have "mq_step s ?t" by (rule swap_unlock [OF p])
  moreover obtain t where "mq_step ?t t" "pc t = Idle" "prod t = prod s" "pushed t = pushed s"
    using mq_swapped_ends [of ?t] by auto
  ultimately show ?thesis by (blast intro: mq_steps_Cons mq_steps_one)
qed

lemma mq_locked_ends:
  "pc s = Locked \<Longrightarrow> \<exists>t. mq_step\<^sup>*\<^sup>* s t \<and> pc t = Idle \<and> prod t = prod s \<and> pushed t = pushed s"
proof -
  assume p: "pc s = Locked"
  let ?t = "s\<lparr>mq := queue_exchange (mq s), pc := Exchanged\<rparr>"
  have "mq_step s ?t" by (rule swap_body [OF p])
  moreover obtain t where "mq_step\<^sup>*\<^sup>* ?t t" "pc t = Idle" "prod t = prod s" "pushed t = pushed s"
    using mq_exchanged_ends [of ?t] by auto
  ultimately show ?thesis by (blast intro: mq_steps_Cons)
qed

lemma mq_pop_ends:
  assumes "mq_system_inv s" "prod s = Outside"
  shows "\<exists>t. mq_step\<^sup>*\<^sup>* s t \<and> pc t = Idle \<and> prod t = Outside \<and> pushed t = pushed s"
proof (cases "pc s")
  case Missed
  let ?t = "s\<lparr>mq := mq s\<lparr>lock := True\<rparr>, pc := Locked\<rparr>"
  have "\<not> lock (mq s)" using assms Missed by (simp add: mq_system_defs)
  then have "mq_step s ?t" using swap_lock [OF Missed] by (simp add: mutex_lock_def)
  moreover obtain t where "mq_step\<^sup>*\<^sup>* ?t t" "pc t = Idle" "prod t = Outside" "pushed t = pushed s"
    using mq_locked_ends [of ?t] assms(2) by auto
  ultimately show ?thesis by (blast intro: mq_steps_Cons)
next
  case Swapped
  then show ?thesis using mq_swapped_ends [OF Swapped] assms(2) by (metis mq_steps_one)
qed (use assms(2) mq_locked_ends [of s] mq_exchanged_ends [of s] in auto)

lemma mq_push_reachable:
  assumes "mq_reachable s" "\<not> lock (mq s)"
  shows "\<exists>t. mq_reachable t \<and> pushed t = pushed s @ [m] \<and> popped t = popped s \<and> pc t = pc s"
proof -
  have inv: "mq_system_inv s" by (rule mq_reachable_inv [OF assms(1)])
  obtain q where q: "queue_push (mq s) m = Some q"
    using queue_push_spec [of "mq s" m] inv assms(2) by (auto simp: mq_system_inv_def mq_inv_def)
  have "mq_reachable t" if "mq_step\<^sup>*\<^sup>* s t" for t
    using that assms(1) by (induction rule: rtranclp_induct) (auto intro: mq_reachable.step)
  then show ?thesis using mq_push_steps [OF inv assms(2) q]
    by (intro exI [of _ "s\<lparr>mq := q, pushed := pushed s @ [m]\<rparr>"]) simp
qed

theorem mq_fifo_witness:
  "\<exists>s. mq_reachable s \<and> pushed s = [\<lparr>source = 1, session = 2, data = None, msize = 0\<rparr>]
     \<and> map Some (pushed s) = popped s @ map Some (mq_list (mq s))"
  using mq_push_reachable [OF mq_reachable.start, of "\<lparr>source = 1, session = 2, data = None, msize = 0\<rparr>"]
    mq_fifo queue_create_inv by (auto simp: mq_start_def mq_inv_def)

text \<open>
  C22. The lock is used rightly and nobody is stuck. In every reachable state the lock is held exactly
  while a producer or the consumer is inside its critical section, never both; every call that has
  begun can end, its message stored and the lock free again; a push that finds the lock free
  succeeds, releases it and leaves the consumer's ring alone, so the message pointer that the last
  pop returned stays valid while others push; and such a push is a sequence of the producer's steps.
\<close>

theorem mq_progress:
  assumes "mq_reachable s"
  shows "(lock (mq s) \<longleftrightarrow> producer_inside s \<or> consumer_inside s) \<and> \<not> (producer_inside s \<and> consumer_inside s)
    \<and> (\<exists>t. mq_step\<^sup>*\<^sup>* s t \<and> pc t = Idle \<and> prod t = Outside \<and> \<not> lock (mq t) \<and> pushed t = pushed s @ pending s)
    \<and> (\<not> lock (mq s) \<longrightarrow> (\<exists>q. queue_push (mq s) m = Some q \<and> \<not> lock q \<and> reader q = reader (mq s)
         \<and> queue q ! reader q = queue (mq s) ! reader (mq s)
         \<and> mq_step\<^sup>*\<^sup>* s (s\<lparr>mq := q, pushed := pushed s @ [m]\<rparr>)))"
proof -
  have inv: "mq_system_inv s" by (rule mq_reachable_inv [OF assms])
  have keep: "mq_system_inv v" if "mq_step\<^sup>*\<^sup>* u v" "mq_system_inv u" for u v
    using that by (induction rule: rtranclp_induct) (auto intro: mq_step_inv)
  obtain t where t: "mq_step\<^sup>*\<^sup>* s t" "prod t = Outside" "pushed t = pushed s @ pending s"
    using mq_push_ends [OF inv] by blast
  obtain u where u: "mq_step\<^sup>*\<^sup>* t u" "pc u = Idle" "prod u = Outside" "pushed u = pushed t"
    using mq_pop_ends [OF keep [OF t(1) inv] t(2)] by blast
  have "mq_step\<^sup>*\<^sup>* s u" using t(1) u(1) by (rule rtranclp_trans)
  moreover from keep [OF this inv] have "\<not> lock (mq u)" using u(2,3) by (simp add: mq_system_defs)
  moreover have "\<exists>q. queue_push (mq s) m = Some q \<and> \<not> lock q \<and> reader q = reader (mq s)
      \<and> queue q ! reader q = queue (mq s) ! reader (mq s) \<and> mq_step\<^sup>*\<^sup>* s (s\<lparr>mq := q, pushed := pushed s @ [m]\<rparr>)"
    if free: "\<not> lock (mq s)"
    using queue_push_spec [of "mq s" m] mq_push_steps [OF inv free, of m] inv free by (auto simp: mq_system_inv_def mq_inv_def)
  ultimately show ?thesis using inv u(2-4) t(3) unfolding mq_system_inv_def by (metis (no_types))
qed

text \<open>The consumer holds the lock.\<close>

theorem mq_progress_witness:
  "\<exists>s. mq_reachable s \<and> lock (mq s) \<and> consumer_inside s \<and> (\<exists>t. mq_step\<^sup>*\<^sup>* s t \<and> pc t = Idle \<and> \<not> lock (mq t))"
proof -
  have miss: "queue_report queue_create = (None, queue_create)" "queue_take queue_create = (None, queue_create)"
    by (simp_all add: queue_report_def queue_take_def ring_take_def queue_create_def Let_def)
  have "mq_reachable (mq_start\<lparr>pc := Missed\<rparr>)"
    using mq_reachable.step [OF mq_reachable.start pop_miss [of mq_start None queue_create queue_create]] miss
    by (simp add: mq_start_def)
  then have r: "mq_reachable (mq_start\<lparr>pc := Locked, mq := queue_create\<lparr>lock := True\<rparr>\<rparr>)" (is "mq_reachable ?s")
    using mq_reachable.step [OF _ swap_lock [of "mq_start\<lparr>pc := Missed\<rparr>" "queue_create\<lparr>lock := True\<rparr>"]] queue_create_inv
    by (simp add: mq_start_def mutex_lock_def mq_inv_def)
  have "consumer_inside ?s" "lock (mq ?s)" by (simp_all add: consumer_inside_def)
  then show ?thesis using mq_progress [OF r] r by blast
qed

end
