(* ===== verification/Lua_Value.thy ===== *)
theory Lua_Value
  imports Floats
begin

unbundle bit_operations_syntax

text \<open>
  The Lua values that the bindings exchange with the interpreter, and the part of the Lua API on
  them that the code uses (Lua 5.3 with 64-bit integers and IEEE double floats, as bit patterns).

  A table is the list of its key/value pairs in the order in which \<open>lua_next\<close> visits them,
  together with the border that \<open>lua_rawlen\<close> returns, since a table with holes has several.
  Tables carry no metatables, and tables that contain themselves are outside the model.
\<close>

section \<open>Values\<close>

datatype lua_value =
    LNil
  | LBool bool
  | LInt "64 word"
  | LNum "64 word"
  | LStr bytes
  | LLight "64 word"
  | LTable nat "(lua_value \<times> lua_value) list"
  | LOther nat

fun is_table :: "lua_value \<Rightarrow> bool" where
  "is_table (LTable n ps) = True"
| "is_table v = False"

fun is_number :: "lua_value \<Rightarrow> bool" where
  "is_number (LInt i) = True"
| "is_number (LNum d) = True"
| "is_number v = False"

fun is_string :: "lua_value \<Rightarrow> bool" where
  "is_string (LStr s) = True"
| "is_string v = False"

definition lua_toboolean :: "lua_value \<Rightarrow> bool" where
  "lua_toboolean v \<longleftrightarrow> v \<noteq> LNil \<and> v \<noteq> LBool False"

section \<open>Tables\<close>

fun pairs_of :: "lua_value \<Rightarrow> (lua_value \<times> lua_value) list" where
  "pairs_of (LTable n ps) = ps"
| "pairs_of v = []"

fun lua_rawlen :: "lua_value \<Rightarrow> nat" where
  "lua_rawlen (LTable n ps) = n"
| "lua_rawlen v = 0"

definition lua_rawget :: "lua_value \<Rightarrow> lua_value \<Rightarrow> lua_value" where
  "lua_rawget t k = (case map_of (pairs_of t) k of None \<Rightarrow> LNil | Some v \<Rightarrow> v)"

definition lua_getfield :: "lua_value \<Rightarrow> bytes \<Rightarrow> lua_value" where
  "lua_getfield t name = lua_rawget t (LStr name)"

definition lua_rawgeti :: "lua_value \<Rightarrow> nat \<Rightarrow> lua_value" where
  "lua_rawgeti t i = lua_rawget t (LInt (word_of_nat i))"

text \<open>Assignment keeps the place of an existing key; assigning nil removes it.\<close>

fun pairs_put :: "'k \<Rightarrow> 'v \<Rightarrow> ('k \<times> 'v) list \<Rightarrow> ('k \<times> 'v) list" where
  "pairs_put k v [] = [(k, v)]"
| "pairs_put k v ((k', v') # ps) = (if k' = k then (k, v) # ps else (k', v') # pairs_put k v ps)"

text \<open>
  The border after an assignment to a table that is being built: the border moves by one when the
  element after it is assigned.
\<close>

definition lua_rawset :: "lua_value \<Rightarrow> lua_value \<Rightarrow> lua_value \<Rightarrow> lua_value" where
  "lua_rawset t k v =
     (if v = LNil then LTable (lua_rawlen t) (filter (\<lambda>p. fst p \<noteq> k) (pairs_of t))
      else LTable (if k = LInt (word_of_nat (Suc (lua_rawlen t))) then Suc (lua_rawlen t) else lua_rawlen t)
             (pairs_put k v (pairs_of t)))"

definition lua_setfield :: "lua_value \<Rightarrow> bytes \<Rightarrow> lua_value \<Rightarrow> lua_value" where
  "lua_setfield t name v = lua_rawset t (LStr name) v"

definition lua_rawseti :: "lua_value \<Rightarrow> nat \<Rightarrow> lua_value \<Rightarrow> lua_value" where
  "lua_rawseti t i v = lua_rawset t (LInt (word_of_nat i)) v"

definition empty_table :: lua_value where
  "empty_table = LTable 0 []"

text \<open>The bytes of a string literal.\<close>

definition str :: "string \<Rightarrow> bytes" where
  "str = map of_char"

section \<open>Numbers\<close>

text \<open>\<open>lua_tointeger\<close> and \<open>lua_tonumber\<close> on numbers; the callers have checked the type.\<close>

fun lua_tointeger :: "lua_value \<Rightarrow> 64 word" where
  "lua_tointeger (LInt i) = i"
| "lua_tointeger (LNum d) = (case double_to_int d of None \<Rightarrow> 0 | Some i \<Rightarrow> i)"
| "lua_tointeger v = 0"

fun lua_tonumber :: "lua_value \<Rightarrow> 64 word" where
  "lua_tonumber (LNum d) = d"
| "lua_tonumber (LInt i) = int_to_double i"
| "lua_tonumber v = 0"

text \<open>An argument that is stored in a variable of type \<open>int\<close>.\<close>

definition c_int :: "lua_value \<Rightarrow> int" where
  "c_int v = sint (ucast (lua_tointeger v) :: 32 word)"

text \<open>
  The key that an assignment uses: a float with an integer value is the integer; nil and the
  floats that are not numbers are refused.
\<close>

fun table_key :: "lua_value \<Rightarrow> lua_value option" where
  "table_key LNil = None"
| "table_key (LNum d) =
     (case fp_decode 52 11 (unat d) of
        FP_nan s f \<Rightarrow> None
      | _ \<Rightarrow> (case double_to_int d of Some i \<Rightarrow> Some (LInt i) | None \<Rightarrow> Some (LNum d)))"
| "table_key v = Some v"

section \<open>Lemmas\<close>

lemma map_of_pairs_put [simp]: "map_of (pairs_put k v ps) = (map_of ps)(k \<mapsto> v)"
  by (induction ps) (auto simp: fun_eq_iff)

lemma pairs_put_fresh: "k \<notin> fst ` set ps \<Longrightarrow> pairs_put k v ps = ps @ [(k, v)]"
  by (induction ps) auto

lemma lua_getfield_setfield:
  "v \<noteq> LNil \<Longrightarrow> lua_getfield (lua_setfield t name v) name' = (if name' = name then v else lua_getfield t name')"
  by (simp add: lua_getfield_def lua_setfield_def lua_rawget_def lua_rawset_def)

lemma lua_rawget_rawset [simp]: "lua_rawget (lua_rawset t k v) k' = (if k' = k then v else lua_rawget t k')"
proof -
  have "map_of (filter (\<lambda>p. fst p \<noteq> k) ps) k' = (if k' = k then None else map_of ps k')" for ps :: "(lua_value \<times> lua_value) list"
    by (induction ps) auto
  then show ?thesis by (auto simp: lua_rawget_def lua_rawset_def)
qed

lemma fold_rawset_lookup:
  assumes "distinct (map key xs)"
  shows "lua_rawget (fold (\<lambda>x t. lua_rawset t (key x) (val x)) xs t) k
     = (case find (\<lambda>x. key x = k) xs of Some x \<Rightarrow> val x | None \<Rightarrow> lua_rawget t k)"
  using assms
proof (induction xs arbitrary: t)
  case (Cons x xs)
  have "find (\<lambda>y. key y = key x) xs = None" using Cons.prems by (simp add: find_None_iff) (metis image_eqI)
  then show ?case using Cons by (auto split: option.split)
qed simp

lemma pair_smaller: "(k, v) \<in> set ps \<Longrightarrow> size v < size (LTable n ps)"
  by (induction ps) auto

lemma lua_rawget_smaller: "is_table t \<Longrightarrow> size (lua_rawget t k) < size t"
  by (cases t) (auto simp: lua_rawget_def split: option.split dest!: map_of_SomeD dest: pair_smaller)

lemma lua_rawget_no_larger: "size (lua_rawget t k) \<le> size t"
  using lua_rawget_smaller [of t k] by (cases "is_table t") (auto, cases t, auto simp: lua_rawget_def)

section \<open>Signed integers\<close>

lemma sint_nonneg: "0 \<le> sint v \<Longrightarrow> sint v = int (unat v)" for v :: "64 word"
proof -
  assume "0 \<le> sint v"
  moreover have "sint v < 2 ^ 64" using sint_lt [of v] by simp
  ultimately have "take_bit 64 (sint v) = sint v" by (rule take_bit_int_eq_self)
  then show ?thesis using uint_sint [of v] by simp
qed

lemma sint_32_bounds: "- (2 ^ 31) \<le> sint x" "sint x < 2 ^ 31" for x :: "32 word"
  using sint_greater_eq [of x] sint_lt [of x] by simp_all

lemma sint_ucast_32:
  fixes v :: "64 word"
  shows "sint (ucast v :: 32 word) = signed_take_bit 31 (sint v)"
proof -
  have "(ucast v :: 32 word) = word_of_int (uint v)" by simp
  then have "(ucast v :: 32 word) = word_of_int (take_bit 64 (sint v))" unfolding uint_sint by simp
  then show ?thesis by (simp add: signed_of_int signed_take_bit_take_bit)
qed

end
