(* ===== verification/Protocol_Codec.thy ===== *)
theory Protocol_Codec
  imports Lua_Value
begin

text \<open>
  The message codec of \<open>src/luaclib/lua-protocol.c\<close>: protocols are lists of typed fields, loaded
  from descriptions in Lua tables; a message is a Lua table that is written field by field, without
  names, in the order of the fields, and read back the same way.

  The writer is its initialised bytes and the capacity of its buffer, the reader is the rest of the
  message. \<open>luaL_error\<close> is the \<open>Inl\<close> case. A string that \<open>str_alloc\<close> interns is the string itself.
  The counters of type \<open>int\<close> are natural numbers: messages are shorter than 2 GiB. The Lua stack has
  room for the \<open>MAX_DEPTH * 2 + 8\<close> slots that encoding, decoding and loading reserve.
\<close>

section \<open>Data\<close>

definition BUFFER_SIZE :: nat where "BUFFER_SIZE = 128"
definition MAX_DEPTH :: nat where "MAX_DEPTH = 32"

datatype proto_error =
    Expect_table bytes
  | Expect_int bytes
  | Expect_float bytes
  | Expect_string bytes
  | Invalid_type bytes int
  | Pack_too_deep
  | Unpack_too_deep
  | Invalid_message
  | Invalid_int_type byte
  | Trailing_bytes
  | Index_error
  | Already_loaded
  | Argument_error
  | Wild_access

record message_writer =
  w_data :: bytes
  w_size :: nat

text \<open>A field: name, array flag, type, type name, the nested fields and the capacity of their array.\<close>

datatype field = Field (f_name: bytes) (f_array: bool) (f_type: int) (f_type_name: bytes)
  (f_nest: "field list") (f_cap: nat)

record protocol =
  p_name :: bytes
  p_field :: "field list"
  p_cap :: nat

record proto_context =
  ctx_slots :: "protocol option list"

section \<open>Writer\<close>

text \<open>The doubling loop; the capacity is never 0.\<close>

function grow :: "nat \<Rightarrow> nat \<Rightarrow> nat" where
  "grow nsize n = (if nsize = 0 \<or> n \<le> nsize then nsize else grow (nsize * 2) n)"
  by pat_completeness auto
termination by (relation "measure (\<lambda>(nsize, n). n - nsize)") auto

declare grow.simps [simp del]

definition writer_reserve :: "message_writer \<Rightarrow> nat \<Rightarrow> message_writer" where
  "writer_reserve w sz =
     (if length (w_data w) + sz > w_size w
      then w\<lparr>w_size := grow (w_size w * 2) (length (w_data w) + sz)\<rparr> else w)"

definition writer_init :: message_writer where
  "writer_init = \<lparr>w_data = [], w_size = BUFFER_SIZE\<rparr>"

definition writer_push :: "message_writer \<Rightarrow> bytes \<Rightarrow> message_writer" where
  "writer_push w bs = (let w = writer_reserve w (length bs) in w\<lparr>w_data := w_data w @ bs\<rparr>)"

definition write_byte :: "message_writer \<Rightarrow> byte \<Rightarrow> message_writer" where
  "write_byte w b = writer_push w [b]"

text \<open>The argument is converted to \<open>ushort\<close>.\<close>

definition write_short :: "message_writer \<Rightarrow> nat \<Rightarrow> message_writer" where
  "write_short w n = writer_push w (le_bytes 2 n)"

definition write_int :: "message_writer \<Rightarrow> 64 word \<Rightarrow> message_writer" where
  "write_int w v =
     (if v = 0 then write_byte w 0
      else if sint v \<noteq> sint (ucast v :: 32 word) then writer_push (write_byte w 4) (le_bytes 8 (unat v))
      else if sint v < 0 then writer_push (write_byte w 3) (le_bytes 4 (unat v))
      else if sint v < 0x100 then writer_push (write_byte w 1) (le_bytes 1 (unat v))
      else if sint v < 0x10000 then writer_push (write_byte w 2) (le_bytes 2 (unat v))
      else writer_push (write_byte w 3) (le_bytes 4 (unat v)))"

definition write_float :: "message_writer \<Rightarrow> 32 word \<Rightarrow> message_writer" where
  "write_float w v = writer_push w (le_bytes 4 (unat v))"

definition write_double :: "message_writer \<Rightarrow> 64 word \<Rightarrow> message_writer" where
  "write_double w v = writer_push w (le_bytes 8 (unat v))"

definition write_string :: "message_writer \<Rightarrow> bytes \<Rightarrow> message_writer" where
  "write_string w s = writer_push (write_short w (length s)) s"

section \<open>Reader\<close>

type_synonym 'a reader = "bytes \<Rightarrow> proto_error + ('a \<times> bytes)"

definition reader_pop :: "nat \<Rightarrow> bytes reader" where
  "reader_pop n r = (if length r < n then Inl Invalid_message else Inr (take n r, drop n r))"

definition read_short :: "nat reader" where
  "read_short r = rbind (reader_pop 2 r) (\<lambda>(bs, r). Inr (le_val bs, r))"

definition read_uint :: "nat \<Rightarrow> 64 word reader" where
  "read_uint n r = rbind (reader_pop n r) (\<lambda>(bs, r). Inr (word_of_nat (le_val bs), r))"

definition read_int :: "64 word reader" where
  "read_int r =
     rbind (reader_pop 1 r) (\<lambda>(t, r).
       let ty = hd t
       in if ty = 0 then Inr (0, r)
          else if ty = 1 then read_uint 1 r
          else if ty = 2 then read_uint 2 r
          else if ty = 3 then read_uint 4 r
          else if ty = 4 then read_uint 8 r
          else Inl (Invalid_int_type ty))"

definition read_float :: "32 word reader" where
  "read_float r = rbind (reader_pop 4 r) (\<lambda>(bs, r). Inr (word_of_nat (le_val bs), r))"

definition read_double :: "64 word reader" where
  "read_double r = rbind (reader_pop 8 r) (\<lambda>(bs, r). Inr (word_of_nat (le_val bs), r))"

definition read_string :: "bytes reader" where
  "read_string r =
     rbind (read_short r) (\<lambda>(n, r). if length r < n then Inl Invalid_message else Inr (take n r, drop n r))"

section \<open>Packing\<close>

text \<open>
  The four scalar packers have the same shape: an array field writes the length and every member, a
  plain field writes the value; the test and the writer of one member differ.
\<close>

definition pack_scalar ::
  "(bytes \<Rightarrow> proto_error) \<Rightarrow> (lua_value \<Rightarrow> bool) \<Rightarrow> (message_writer \<Rightarrow> lua_value \<Rightarrow> message_writer)
   \<Rightarrow> message_writer \<Rightarrow> field \<Rightarrow> lua_value \<Rightarrow> proto_error + message_writer" where
  "pack_scalar err ok wr w f v =
     (if f_array f
      then if \<not> is_table v then Inl (Expect_table (f_name f))
           else rfold (\<lambda>i w. let x = lua_rawgeti v i in if \<not> ok x then Inl (err (f_name f)) else Inr (wr w x))
                  [1..<Suc (lua_rawlen v)] (write_short w (lua_rawlen v))
      else if \<not> ok v then Inl (err (f_name f))
      else Inr (wr w v))"

definition pack_int :: "message_writer \<Rightarrow> field \<Rightarrow> lua_value \<Rightarrow> proto_error + message_writer" where
  "pack_int = pack_scalar Expect_int is_number (\<lambda>w v. write_int w (lua_tointeger v))"

definition pack_float :: "message_writer \<Rightarrow> field \<Rightarrow> lua_value \<Rightarrow> proto_error + message_writer" where
  "pack_float = pack_scalar Expect_float is_number (\<lambda>w v. write_float w (double_to_float (lua_tonumber v)))"

definition pack_double :: "message_writer \<Rightarrow> field \<Rightarrow> lua_value \<Rightarrow> proto_error + message_writer" where
  "pack_double = pack_scalar Expect_float is_number (\<lambda>w v. write_double w (lua_tonumber v))"

fun lua_tostring :: "lua_value \<Rightarrow> bytes" where
  "lua_tostring (LStr s) = s"
| "lua_tostring v = []"

definition pack_string :: "message_writer \<Rightarrow> field \<Rightarrow> lua_value \<Rightarrow> proto_error + message_writer" where
  "pack_string = pack_scalar Expect_string is_string (\<lambda>w v. write_string w (lua_tostring v))"

lemma nest_smaller: "f \<in> set (f_nest p) \<Longrightarrow> size f < size p"
  by (cases p) (auto dest: size_list_estimation' [OF _ order_refl, of _ _ size] simp: less_Suc_eq_le)

function pack_one :: "message_writer \<Rightarrow> field \<Rightarrow> lua_value \<Rightarrow> nat \<Rightarrow> proto_error + message_writer"
  and pack_field :: "message_writer \<Rightarrow> field \<Rightarrow> lua_value \<Rightarrow> nat \<Rightarrow> proto_error + message_writer" where
  "pack_one w f v depth =
     (if f_type f = 0 then pack_int w f v
      else if f_type f = 1 then pack_float w f v
      else if f_type f = 2 then pack_double w f v
      else if f_type f = 3 then pack_string w f v
      else if f_type f = 4 then pack_field w f v depth
      else Inl (Invalid_type (f_name f) (f_type f)))"
| "pack_field w parent v depth =
     (if Suc depth > MAX_DEPTH then Inl Pack_too_deep
      else if \<not> is_table v then Inl (Expect_table (f_name parent))
      else if f_array parent
      then rfold (\<lambda>i w. let x = lua_rawgeti v i
               in if \<not> is_table x then Inl (Expect_table (f_name parent))
                  else rfold (\<lambda>f w. pack_one w f (lua_getfield x (f_name f)) (Suc depth)) (f_nest parent) w)
             [1..<Suc (lua_rawlen v)] (write_short w (lua_rawlen v))
      else rfold (\<lambda>f w. pack_one w f (lua_getfield v (f_name f)) (Suc depth)) (f_nest parent) w)"
  by pat_completeness auto
termination
  by (relation "measure (\<lambda>x. case x of Inl (w, f, v, d) \<Rightarrow> Suc (2 * size f) | Inr (w, f, v, d) \<Rightarrow> 2 * size f)")
     (auto dest: nest_smaller)

declare pack_one.simps [simp del] pack_field.simps [simp del]

definition lencode_protocol :: "proto_context \<Rightarrow> int \<Rightarrow> lua_value \<Rightarrow> proto_error + bytes" where
  "lencode_protocol ctx index v =
     (if index < 0 then Inl Wild_access
      else if index \<ge> int (length (ctx_slots ctx)) then Inl Index_error
      else case ctx_slots ctx ! nat index of
        None \<Rightarrow> Inl Index_error
      | Some ptl \<Rightarrow>
          if \<not> is_table v then Inl Argument_error
          else rbind (rfold (\<lambda>f w. pack_one w f (lua_getfield v (f_name f)) 1) (p_field ptl) writer_init)
                 (\<lambda>w. Inr (w_data w)))"

section \<open>Unpacking\<close>

text \<open>The state of the unpackers: the table that receives the fields and the rest of the message.\<close>

definition unpack_scalar ::
  "lua_value reader \<Rightarrow> field \<Rightarrow> lua_value \<times> bytes \<Rightarrow> proto_error + (lua_value \<times> bytes)" where
  "unpack_scalar rd f s =
     (case s of (t, r) \<Rightarrow>
        if f_array f
        then rbind (read_short r) (\<lambda>(n, r).
             rbind (rfold (\<lambda>i (a, r). rbind (rd r) (\<lambda>(v, r). Inr (lua_rawseti a i v, r))) [1..<Suc n] (empty_table, r))
               (\<lambda>(a, r). Inr (lua_setfield t (f_name f) a, r)))
        else rbind (rd r) (\<lambda>(v, r). Inr (lua_setfield t (f_name f) v, r)))"

definition read_map :: "('a \<Rightarrow> 'b) \<Rightarrow> 'a reader \<Rightarrow> 'b reader" where
  "read_map g rd r = rbind (rd r) (\<lambda>(x, r). Inr (g x, r))"

definition unpack_int :: "field \<Rightarrow> lua_value \<times> bytes \<Rightarrow> proto_error + (lua_value \<times> bytes)" where
  "unpack_int = unpack_scalar (read_map LInt read_int)"

definition unpack_float :: "field \<Rightarrow> lua_value \<times> bytes \<Rightarrow> proto_error + (lua_value \<times> bytes)" where
  "unpack_float = unpack_scalar (read_map (\<lambda>x. LNum (float_to_double x)) read_float)"

definition unpack_double :: "field \<Rightarrow> lua_value \<times> bytes \<Rightarrow> proto_error + (lua_value \<times> bytes)" where
  "unpack_double = unpack_scalar (read_map LNum read_double)"

definition unpack_string :: "field \<Rightarrow> lua_value \<times> bytes \<Rightarrow> proto_error + (lua_value \<times> bytes)" where
  "unpack_string = unpack_scalar (read_map LStr read_string)"

function unpack_one :: "nat \<Rightarrow> field \<Rightarrow> lua_value \<times> bytes \<Rightarrow> proto_error + (lua_value \<times> bytes)"
  and unpack_field :: "nat \<Rightarrow> field \<Rightarrow> lua_value \<times> bytes \<Rightarrow> proto_error + (lua_value \<times> bytes)" where
  "unpack_one depth f s =
     (if f_type f = 0 then unpack_int f s
      else if f_type f = 1 then unpack_float f s
      else if f_type f = 2 then unpack_double f s
      else if f_type f = 3 then unpack_string f s
      else if f_type f = 4 then unpack_field depth f s
      else Inl (Invalid_type (f_name f) (f_type f)))"
| "unpack_field depth parent s =
     (case s of (t, r) \<Rightarrow>
        if Suc depth > MAX_DEPTH then Inl Unpack_too_deep
        else if f_array parent
        then rbind (read_short r) (\<lambda>(n, r).
             rbind (rfold (\<lambda>i (a, r). rbind (rfold (unpack_one (Suc depth)) (f_nest parent) (empty_table, r))
                        (\<lambda>(e, r). Inr (lua_rawseti a i e, r))) [1..<Suc n] (empty_table, r))
               (\<lambda>(a, r). Inr (lua_setfield t (f_name parent) a, r)))
        else rbind (rfold (unpack_one (Suc depth)) (f_nest parent) (empty_table, r))
               (\<lambda>(e, r). Inr (lua_setfield t (f_name parent) e, r)))"
  by pat_completeness auto
termination
  by (relation "measure (\<lambda>x. case x of Inl (d, f, s) \<Rightarrow> Suc (2 * size f) | Inr (d, f, s) \<Rightarrow> 2 * size f)")
     (auto dest: nest_smaller)

declare unpack_one.simps [simp del] unpack_field.simps [simp del]

definition ldecode_protocol :: "proto_context \<Rightarrow> int \<Rightarrow> bytes \<Rightarrow> proto_error + lua_value" where
  "ldecode_protocol ctx index msg =
     (if index < 0 then Inl Wild_access
      else if index \<ge> int (length (ctx_slots ctx)) then Inl Index_error
      else case ctx_slots ctx ! nat index of
        None \<Rightarrow> Inl Index_error
      | Some ptl \<Rightarrow>
          rbind (rfold (unpack_one 1) (p_field ptl) (empty_table, msg)) (\<lambda>(t, r).
            if r \<noteq> [] then Inl Trailing_bytes else Inr t))"

section \<open>Loading protocols\<close>

text \<open>A C string ends at the first zero byte.\<close>

definition c_str :: "bytes \<Rightarrow> bytes" where
  "c_str s = takeWhile (\<lambda>b. b \<noteq> 0) s"

definition lprotocol_ctx_new :: proto_context where
  "lprotocol_ctx_new = \<lparr>ctx_slots = replicate 64 None\<rparr>"

definition create_protocol :: "proto_context \<Rightarrow> nat \<Rightarrow> bytes \<Rightarrow> protocol \<times> proto_context" where
  "create_protocol ctx i name =
     (let ptl = \<lparr>p_name = c_str name, p_field = [], p_cap = 4\<rparr>;
          cap = length (ctx_slots ctx);
          ncap = (if i \<ge> cap * 2 then i + 1 else cap * 2);
          ss = (if i \<ge> cap then ctx_slots ctx @ replicate (ncap - cap) None else ctx_slots ctx)
      in (ptl, ctx\<lparr>ctx_slots := ss[i := Some ptl]\<rparr>))"

definition create_field :: "protocol \<Rightarrow> field \<Rightarrow> protocol" where
  "create_field ptl f =
     (let ptl = (if length (p_field ptl) \<ge> p_cap ptl then ptl\<lparr>p_cap := p_cap ptl * 2\<rparr> else ptl)
      in ptl\<lparr>p_field := p_field ptl @ [f]\<rparr>)"

text \<open>The null array of nested fields is the one of capacity 0.\<close>

fun create_nest_field :: "field \<Rightarrow> field \<Rightarrow> field" where
  "create_nest_field (Field name arr ty tname nest cap) f =
     (let cap = (if cap = 0 then 4 else cap);
          cap = (if length nest \<ge> cap then cap * 2 else cap)
      in Field name arr ty tname (nest @ [f]) cap)"

text \<open>
  \<open>lua_tostring\<close> converts a number; \<open>fmt\<close> is the text the interpreter gives to it. \<open>None\<close> is the null
  pointer.
\<close>

fun lua_tolstring :: "(lua_value \<Rightarrow> bytes) \<Rightarrow> lua_value \<Rightarrow> bytes option" where
  "lua_tolstring fmt (LStr s) = Some s"
| "lua_tolstring fmt v = (if is_number v then Some (fmt v) else None)"

text \<open>
  The attributes of a described field. A missing name is a null pointer. When both name and type
  name are numbers, the string made for the first is off the stack and may be collected when the
  second is made. The description is a table as the parser of the protocol files builds it: the
  type is a number, and the nesting stays within the stack slots that \<open>lload_protocol\<close> reserves.
\<close>

definition describe_field :: "(lua_value \<Rightarrow> bytes) \<Rightarrow> lua_value \<Rightarrow> proto_error + field" where
  "describe_field fmt x =
     (if \<not> is_table x then Inl Argument_error
      else let n = lua_getfield x (str ''name''); t = lua_getfield x (str ''type_name'')
      in case (lua_tolstring fmt n, lua_tolstring fmt t) of
        (Some name, Some tname) \<Rightarrow>
          if is_number n \<and> is_number t then Inl Wild_access
          else Inr (Field (c_str name) (lua_toboolean (lua_getfield x (str ''array'')))
                 (c_int (lua_getfield x (str ''type''))) (c_str tname) [] 0)
      | _ \<Rightarrow> Inl Wild_access)"

definition described :: "lua_value \<Rightarrow> lua_value list" where
  "described d = map (lua_rawgeti d) [1..<Suc (lua_rawlen d)]"

function import_nest_field :: "(lua_value \<Rightarrow> bytes) \<Rightarrow> field \<Rightarrow> lua_value \<Rightarrow> proto_error + field" where
  "import_nest_field fmt parent d =
     rfold (\<lambda>x parent. rbind (describe_field fmt x) (\<lambda>f.
              rbind (if f_type f = 4 then import_nest_field fmt f (lua_getfield x (str ''fields'')) else Inr f)
                (\<lambda>f. Inr (create_nest_field parent f))))
       (described d) parent"
  by pat_completeness auto
termination
proof (relation "measure (\<lambda>(fmt, parent, d). size d)", simp)
  fix fmt parent d x p f
  assume x: "x \<in> set (described d)" and f: "describe_field fmt x = Inr f"
  have t: "is_table x" using f by (auto simp: describe_field_def split: if_splits)
  have "size (lua_rawget x (LStr (str ''fields''))) < size x" by (rule lua_rawget_smaller [OF t])
  moreover have "size x \<le> size d"
    using x lua_rawget_no_larger by (auto simp: described_def lua_rawgeti_def)
  ultimately show "((fmt, f, lua_getfield x (str ''fields'')), fmt, parent, d) \<in> measure (\<lambda>(fmt, parent, d). size d)"
    by (simp add: lua_getfield_def)
qed

declare import_nest_field.simps [simp del]

definition import_field :: "(lua_value \<Rightarrow> bytes) \<Rightarrow> protocol \<Rightarrow> lua_value \<Rightarrow> proto_error + protocol" where
  "import_field fmt ptl d =
     rfold (\<lambda>x ptl. rbind (describe_field fmt x) (\<lambda>f.
              rbind (if f_type f = 4 then import_nest_field fmt f (lua_getfield x (str ''fields'')) else Inr f)
                (\<lambda>f. Inr (create_field ptl f))))
       (described d) ptl"

text \<open>The protocol is filled in place in its slot; the result is the context after success.\<close>

definition lload_protocol ::
  "(lua_value \<Rightarrow> bytes) \<Rightarrow> proto_context \<Rightarrow> int \<Rightarrow> bytes \<Rightarrow> lua_value \<Rightarrow> proto_error + proto_context" where
  "lload_protocol fmt ctx i name d =
     (if \<not> is_table d then Inl Argument_error
      else if i < 0 then Inl Wild_access
      else if i < int (length (ctx_slots ctx)) \<and> ctx_slots ctx ! nat i \<noteq> None then Inl Already_loaded
      else (case create_protocol ctx (nat i) name of (ptl, ctx) \<Rightarrow>
              if lua_getfield d (str ''fields'') = LNil then Inr ctx
              else rbind (import_field fmt ptl (lua_getfield d (str ''fields'')))
                     (\<lambda>ptl. Inr (ctx\<lparr>ctx_slots := (ctx_slots ctx)[nat i := Some ptl]\<rparr>))))"

section \<open>Inspecting protocols\<close>

definition ldump_protocol :: "proto_context \<Rightarrow> lua_value" where
  "ldump_protocol ctx =
     fold (\<lambda>i t. case ctx_slots ctx ! i of None \<Rightarrow> t
                 | Some ptl \<Rightarrow> lua_setfield t (p_name ptl) (LInt (word_of_nat i)))
       [0..<length (ctx_slots ctx)] empty_table"

text \<open>The two loops of \<open>dump_nest\<close> and \<open>ldetail_protocol\<close> over a list of fields.\<close>

function dump_nest :: "field list \<Rightarrow> lua_value" where
  "dump_nest fs =
     LTable (length fs)
       (map (\<lambda>(i, f). (LInt (word_of_nat (Suc i)),
          LTable 0 ([(LStr (str ''name''), LStr (f_name f)),
                     (LStr (str ''array''), LInt (if f_array f then 1 else 0)),
                     (LStr (str ''type''), LInt (word_of_int (f_type f))),
                     (LStr (str ''type_name''), LStr (f_type_name f))]
             @ (if f_type f = 4 then [(LStr (str ''fields''), dump_nest (f_nest f))] else []))))
         (enumerate 0 fs))"
  by pat_completeness auto
termination
proof (relation "measure (size_list size)", simp)
  fix fs :: "field list" and p i f
  assume "p \<in> set (enumerate 0 fs)" "(i, f) = p" "f_type f = 4"
  then have "f \<in> set fs" by (metis enumerate_eq_zip set_zip_rightD)
  then have "size f \<le> size_list size fs" by (rule size_list_estimation') simp
  moreover have "size_list size (f_nest f) < size f" by (cases f) simp
  ultimately show "(f_nest f, fs) \<in> measure (size_list size)" by simp
qed

declare dump_nest.simps [simp del]

definition ldetail_protocol :: "proto_context \<Rightarrow> int \<Rightarrow> proto_error + lua_value option" where
  "ldetail_protocol ctx index =
     (if index < 0 then Inl Wild_access
      else if index \<ge> int (length (ctx_slots ctx)) then Inr None
      else case ctx_slots ctx ! nat index of
        None \<Rightarrow> Inr None
      | Some ptl \<Rightarrow> Inr (Some (LTable 0 [(LStr (str ''name''), LStr (p_name ptl)),
                                         (LStr (str ''fields''), dump_nest (p_field ptl))])))"

section \<open>Writer and reader agree\<close>

lemma grow_enough: "0 < nsize \<Longrightarrow> n \<le> grow nsize n"
  by (induction nsize n rule: grow.induct) (subst grow.simps, simp)

definition writer_ok :: "message_writer \<Rightarrow> bool" where
  "writer_ok w \<longleftrightarrow> 0 < w_size w \<and> length (w_data w) \<le> w_size w"

lemma w_data_push [simp]: "w_data (writer_push w bs) = w_data w @ bs"
  by (simp add: writer_push_def writer_reserve_def Let_def)

lemma writer_push_ok: "writer_ok w \<Longrightarrow> writer_ok (writer_push w bs)"
  using grow_enough [of "w_size w * 2" "length (w_data w) + length bs"]
  by (auto simp: writer_push_def writer_reserve_def writer_ok_def Let_def)

text \<open>
  A packer and an unpacker agree when what the packer appends makes the unpacker perform a given
  change of its state and stop right behind it. The combinators follow the code's loops.
\<close>

definition agrees ::
  "(message_writer \<Rightarrow> 'e + message_writer) \<Rightarrow> ('s \<times> bytes \<Rightarrow> 'd + ('s \<times> bytes)) \<Rightarrow> ('s \<Rightarrow> 's) \<Rightarrow> bool" where
  "agrees P U G \<longleftrightarrow> (\<exists>bs. (\<forall>w. \<exists>w'. P w = Inr w' \<and> w_data w' = w_data w @ bs \<and> (writer_ok w \<longrightarrow> writer_ok w'))
     \<and> (\<forall>s r. U (s, bs @ r) = Inr (G s, r)))"

lemma agreesI:
  assumes "\<And>w. \<exists>w'. P w = Inr w' \<and> w_data w' = w_data w @ bs \<and> (writer_ok w \<longrightarrow> writer_ok w')"
    and "\<And>s r. U (s, bs @ r) = Inr (G s, r)"
  shows "agrees P U G"
  using assms unfolding agrees_def by blast

lemma agrees_rfold:
  assumes "\<And>x. x \<in> set xs \<Longrightarrow> agrees (P x) (U x) (G x)"
  shows "agrees (rfold P xs) (rfold U xs) (fold G xs)"
  using assms
proof (induction xs)
  case Nil
  then show ?case by (auto intro: agreesI [of _ "[]"])
next
  case (Cons x xs)
  obtain bs where bs: "\<And>w. \<exists>w'. P x w = Inr w' \<and> w_data w' = w_data w @ bs \<and> (writer_ok w \<longrightarrow> writer_ok w')"
    "\<And>s r. U x (s, bs @ r) = Inr (G x s, r)"
    using Cons.prems [of x] by (auto simp: agrees_def)
  obtain cs where cs: "\<And>w. \<exists>w'. rfold P xs w = Inr w' \<and> w_data w' = w_data w @ cs \<and> (writer_ok w \<longrightarrow> writer_ok w')"
    "\<And>s r. rfold U xs (s, cs @ r) = Inr (fold G xs s, r)"
    using Cons by (auto simp: agrees_def)
  show ?case
  proof (rule agreesI [of _ "bs @ cs"])
    fix w
    obtain w1 where w1: "P x w = Inr w1" "w_data w1 = w_data w @ bs" "writer_ok w \<longrightarrow> writer_ok w1" using bs(1) by blast
    obtain w2 where "rfold P xs w1 = Inr w2" "w_data w2 = w_data w1 @ cs" "writer_ok w1 \<longrightarrow> writer_ok w2" using cs(1) by blast
    with w1 show "\<exists>w'. rfold P (x # xs) w = Inr w' \<and> w_data w' = w_data w @ bs @ cs \<and> (writer_ok w \<longrightarrow> writer_ok w')" by simp
  qed (simp add: bs(2) cs(2))
qed

lemma agrees_cong: "agrees P U G \<Longrightarrow> (\<And>w. P' w = P w) \<Longrightarrow> (\<And>s. U' s = U s) \<Longrightarrow> (\<And>s. G' s = G s) \<Longrightarrow> agrees P' U' G'"
  by (simp add: agrees_def)

lemma agrees_inner:
  assumes "agrees P U G"
  shows "agrees P (\<lambda>(t, r). rbind (U (e, r)) (\<lambda>(a, r). Inr (H t a, r))) (\<lambda>t. H t (G e))"
  using assms unfolding agrees_def by fastforce

lemma agrees_short:
  assumes "agrees P (U n) G" "n < 65536"
  shows "agrees (\<lambda>w. P (write_short w n)) (\<lambda>(s, r). rbind (read_short r) (\<lambda>(m, r). U m (s, r))) G"
proof -
  obtain bs where bs: "\<And>w. \<exists>w'. P w = Inr w' \<and> w_data w' = w_data w @ bs \<and> (writer_ok w \<longrightarrow> writer_ok w')"
    "\<And>s r. U n (s, bs @ r) = Inr (G s, r)"
    using assms(1) by (auto simp: agrees_def)
  have sh: "read_short (le_bytes 2 n @ bs @ r) = Inr (n, bs @ r)" for r
    using assms(2) le_val_le_bytes [of 2 n]
    by (simp add: read_short_def reader_pop_def del: le_bytes.simps)
  show ?thesis
  proof (rule agreesI [of _ "le_bytes 2 n @ bs"])
    fix w
    obtain w1 where "P (write_short w n) = Inr w1" "w_data w1 = w_data (write_short w n) @ bs"
      "writer_ok (write_short w n) \<longrightarrow> writer_ok w1" using bs(1) by blast
    then show "\<exists>w'. P (write_short w n) = Inr w' \<and> w_data w' = w_data w @ le_bytes 2 n @ bs \<and> (writer_ok w \<longrightarrow> writer_ok w')"
      using writer_push_ok [of w "le_bytes 2 n"] by (simp add: write_short_def del: le_bytes.simps)
  qed (simp add: sh bs(2) del: le_bytes.simps)
qed

text \<open>A leaf: one value written, one value read.\<close>

definition leaf :: "(message_writer \<Rightarrow> message_writer) \<Rightarrow> 'a reader \<Rightarrow> 'a \<Rightarrow> bool" where
  "leaf wr rd x \<longleftrightarrow> (\<exists>bs. (\<forall>w. w_data (wr w) = w_data w @ bs \<and> (writer_ok w \<longrightarrow> writer_ok (wr w)))
      \<and> (\<forall>r. rd (bs @ r) = Inr (x, r)))"

lemma agrees_leaf:
  assumes "leaf wr rd x"
  shows "agrees (\<lambda>w. Inr (wr w)) (\<lambda>(t, r). rbind (rd r) (\<lambda>(v, r). Inr (H t v, r))) (\<lambda>t. H t x)"
  using assms unfolding leaf_def agrees_def by fastforce

lemma leaf_map: "leaf wr rd x \<Longrightarrow> leaf wr (read_map g rd) (g x)"
  unfolding leaf_def read_map_def by fastforce

lemma read_uint_le:
  assumes "unat v < 256 ^ n"
  shows "read_uint n (le_bytes n (unat v) @ r) = Inr (v, r)"
  using assms by (simp add: read_uint_def reader_pop_def le_val_le_bytes)

lemma negative_low_half:
  fixes v :: "64 word"
  assumes "- (2 ^ 31) \<le> sint v" "sint v < 0"
  shows "word_of_nat (unat v mod 256 ^ 4) = v + 0x100000000"
proof -
  have "uint v mod 2 ^ 32 = sint v mod 2 ^ 32"
    using uint_sint [of v] by (simp add: take_bit_eq_mod mod_mod_cancel)
  also have "\<dots> = sint v + 2 ^ 32"
    using assms mod_pos_pos_trivial [of "sint v + 2 ^ 32" "2 ^ 32"] mod_add_self2 [of "sint v" "2 ^ 32"] by simp
  finally have "int (unat v mod 256 ^ 4) = sint v + 2 ^ 32" by (simp add: zmod_int)
  then have "word_of_int (int (unat v mod 256 ^ 4)) = (word_of_int (sint v + 2 ^ 32) :: 64 word)" by simp
  then show ?thesis by simp
qed

text \<open>
  What an integer is read as: the negative ones of 32 bits do not survive, they are written in four
  bytes and read without their sign.
\<close>

definition int_survives :: "64 word \<Rightarrow> bool" where
  "int_survives v \<longleftrightarrow> \<not> (- (2 ^ 31) \<le> sint v \<and> sint v < 0)"

definition int_received :: "64 word \<Rightarrow> 64 word" where
  "int_received v = (if int_survives v then v else v + 0x100000000)"

lemma leaf_int_survives:
  assumes "int_survives v"
  shows "leaf (\<lambda>w. write_int w v) read_int v"
proof -
  have code: "\<exists>ty n. (\<forall>w. write_int w v = writer_push (write_byte w ty) (le_bytes n (unat v)))
      \<and> (\<forall>r. read_int (ty # r) = read_uint n r) \<and> unat v < 256 ^ n" if "v \<noteq> 0"
  proof (cases "sint v = sint (ucast v :: 32 word)")
    case False
    have "unat v < 256 ^ 8" using unsigned_less [of v, where 'a = nat] by simp
    with that False show ?thesis
      by (intro exI [of _ 4] exI [of _ 8]) (simp add: write_int_def read_int_def reader_pop_def del: le_bytes.simps)
  next
    case True
    then have pos: "0 \<le> sint v" "sint v < 2147483648"
      using assms sint_32_bounds [of "ucast v"] by (auto simp: int_survives_def)
    then have u: "sint v = int (unat v)" by (intro sint_nonneg)
    consider "sint v < 0x100" | "0x100 \<le> sint v" "sint v < 0x10000" | "0x10000 \<le> sint v" by linarith
    then show ?thesis
    proof cases
      case 1
      have "unat v < 256" using 1 u by linarith
      with 1 show ?thesis using that True pos
        by (intro exI [of _ 1] exI [of _ 1]) (simp add: write_int_def read_int_def reader_pop_def del: le_bytes.simps)
    next
      case 2
      have "unat v < 65536" using 2 u by linarith
      with 2 show ?thesis using that True pos
        by (intro exI [of _ 2] exI [of _ 2]) (simp add: write_int_def read_int_def reader_pop_def del: le_bytes.simps)
    next
      case 3
      have "unat v < 4294967296" using pos u by linarith
      with 3 show ?thesis using that True pos
        by (intro exI [of _ 3] exI [of _ 4]) (simp add: write_int_def read_int_def reader_pop_def del: le_bytes.simps)
    qed
  qed
  show ?thesis
  proof (cases "v = 0")
    case True
    then show ?thesis unfolding leaf_def
      by (intro exI [of _ "[0]"]) (simp add: write_int_def write_byte_def writer_push_ok read_int_def reader_pop_def)
  next
    case False
    then obtain ty n where c: "\<And>w. write_int w v = writer_push (write_byte w ty) (le_bytes n (unat v))"
      "\<And>r. read_int (ty # r) = read_uint n r" "unat v < 256 ^ n" using code by blast
    then show ?thesis unfolding leaf_def
      by (intro exI [of _ "ty # le_bytes n (unat v)"])
         (simp add: write_byte_def writer_push_ok read_uint_le del: le_bytes.simps)
  qed
qed

lemma leaf_int: "leaf (\<lambda>w. write_int w v) read_int (int_received v)"
proof (cases "int_survives v")
  case True
  then show ?thesis using leaf_int_survives by (simp add: int_received_def)
next
  case False
  then have n: "- (2 ^ 31) \<le> sint v" "sint v < 0" by (simp_all add: int_survives_def)
  have c: "sint (ucast v :: 32 word) = sint v"
    using n sint_ucast_32 [of v] by (simp add: signed_take_bit_int_eq_self)
  have "v \<noteq> 0" using n(2) by auto
  then have "write_int w v = writer_push (write_byte w 3) (le_bytes 4 (unat v))" for w
    using n c by (simp add: write_int_def del: le_bytes.simps)
  moreover have "read_int ((3 # le_bytes 4 (unat v)) @ r) = Inr (v + 0x100000000, r)" for r
    using negative_low_half [OF n] by (simp add: read_int_def read_uint_def reader_pop_def le_val_le_bytes del: le_bytes.simps)
  ultimately show ?thesis using False unfolding leaf_def
    by (intro exI [of _ "3 # le_bytes 4 (unat v)"])
       (simp add: int_received_def write_byte_def writer_push_ok del: le_bytes.simps)
qed

lemma leaf_float: "leaf (\<lambda>w. write_float w x) read_float x"
  unfolding leaf_def
  by (intro exI [of _ "le_bytes 4 (unat x)"])
     (simp add: write_float_def read_float_def reader_pop_def writer_push_ok le_val_word32 del: le_bytes.simps)

lemma leaf_double: "leaf (\<lambda>w. write_double w x) read_double x"
  unfolding leaf_def
  by (intro exI [of _ "le_bytes 8 (unat x)"])
     (simp add: write_double_def read_double_def reader_pop_def writer_push_ok le_val_word64 del: le_bytes.simps)

lemma leaf_string:
  assumes "length s < 65536"
  shows "leaf (\<lambda>w. write_string w s) read_string s"
  unfolding leaf_def using assms le_val_le_bytes [of 2 "length s"]
  by (intro exI [of _ "le_bytes 2 (length s) @ s"])
     (simp add: write_string_def write_short_def read_string_def read_short_def reader_pop_def writer_push_ok
      del: le_bytes.simps)

section \<open>Messages of a protocol\<close>

text \<open>What decoding gives back for a message: the declared fields, with the numbers converted.\<close>

definition scalar_canon :: "(lua_value \<Rightarrow> lua_value) \<Rightarrow> field \<Rightarrow> lua_value \<Rightarrow> lua_value" where
  "scalar_canon g f v =
     (if f_array f then fold (\<lambda>i t. lua_rawseti t i (g (lua_rawgeti v i))) [1..<Suc (lua_rawlen v)] empty_table
      else g v)"

function canon :: "field \<Rightarrow> lua_value \<Rightarrow> lua_value" where
  "canon f v =
     (if f_type f = 0 then scalar_canon (\<lambda>x. LInt (int_received (lua_tointeger x))) f v
      else if f_type f = 1 then scalar_canon (\<lambda>x. LNum (float_to_double (double_to_float (lua_tonumber x)))) f v
      else if f_type f = 2 then scalar_canon (\<lambda>x. LNum (lua_tonumber x)) f v
      else if f_type f = 3 then scalar_canon (\<lambda>x. LStr (lua_tostring x)) f v
      else scalar_canon (\<lambda>x. fold (\<lambda>g t. lua_setfield t (f_name g) (canon g (lua_getfield x (f_name g)))) (f_nest f) empty_table) f v)"
  by pat_completeness auto
termination by (relation "measure (\<lambda>(f, v). size f)") (auto dest: nest_smaller)

declare canon.simps [simp del]

text \<open>
  The messages the codec is made for: every declared field is there with its type, arrays and
  strings have lengths of 16 bits, and the nesting is not too deep.
\<close>

definition scalar_ok :: "(lua_value \<Rightarrow> bool) \<Rightarrow> field \<Rightarrow> lua_value \<Rightarrow> bool" where
  "scalar_ok ok f v =
     (if f_array f then is_table v \<and> lua_rawlen v < 65536 \<and> list_all (\<lambda>i. ok (lua_rawgeti v i)) [1..<Suc (lua_rawlen v)]
      else ok v)"

function conforms :: "nat \<Rightarrow> field \<Rightarrow> lua_value \<Rightarrow> bool" where
  "conforms depth f v =
     (if f_type f = 0 \<or> f_type f = 1 \<or> f_type f = 2 then scalar_ok is_number f v
      else if f_type f = 3 then scalar_ok (\<lambda>x. is_string x \<and> length (lua_tostring x) < 65536) f v
      else f_type f = 4 \<and> depth < MAX_DEPTH
        \<and> scalar_ok (\<lambda>x. is_table x \<and> list_all (\<lambda>g. conforms (Suc depth) g (lua_getfield x (f_name g))) (f_nest f)) f v)"
  by pat_completeness auto
termination by (relation "measure (\<lambda>(d, f, v). size f)") (auto dest: nest_smaller)

declare conforms.simps [simp del]

lemma agrees_array:
  assumes "\<And>i. i \<in> set [1..<Suc n] \<Longrightarrow> agrees (P i) (U i) (G i)" "n < 65536"
  shows "agrees (\<lambda>w. rfold P [1..<Suc n] (write_short w n))
     (\<lambda>(t, r). rbind (read_short r) (\<lambda>(m, r). rbind (rfold U [1..<Suc m] (empty_table, r)) (\<lambda>(a, r). Inr (lua_setfield t name a, r))))
     (\<lambda>t. lua_setfield t name (fold G [1..<Suc n] empty_table))"
proof -
  let ?V = "\<lambda>m (t, r). rbind (rfold U [1..<Suc m] (empty_table, r)) (\<lambda>(a, r). Inr (lua_setfield t name a, r))"
  have "agrees (rfold P [1..<Suc n]) (?V n) (\<lambda>t. lua_setfield t name (fold G [1..<Suc n] empty_table))"
    by (rule agrees_inner, rule agrees_rfold) (rule assms(1))
  from agrees_short [of "rfold P [1..<Suc n]" ?V n, OF this assms(2)] show ?thesis by simp
qed

lemma agrees_scalar:
  assumes "scalar_ok ok' f v" "\<And>x. ok' x \<Longrightarrow> ok x \<and> leaf (\<lambda>w. wr w x) rd (g x)"
  shows "agrees (\<lambda>w. pack_scalar err ok wr w f v) (unpack_scalar rd f) (\<lambda>t. lua_setfield t (f_name f) (scalar_canon g f v))"
proof (cases "f_array f")
  case False
  then have ok: "ok v" "leaf (\<lambda>w. wr w v) rd (g v)" using assms by (auto simp: scalar_ok_def)
  show ?thesis
    by (rule agrees_cong [OF agrees_leaf [OF ok(2), of "\<lambda>t x. lua_setfield t (f_name f) x"]])
       (use ok(1) False in \<open>simp_all add: pack_scalar_def unpack_scalar_def scalar_canon_def\<close>)
next
  case True
  let ?n = "lua_rawlen v"
  let ?P = "\<lambda>i w. let x = lua_rawgeti v i in if \<not> ok x then Inl (err (f_name f)) else Inr (wr w x)"
  let ?U = "\<lambda>i (a, r). rbind (rd r) (\<lambda>(v, r). Inr (lua_rawseti a i v, r))"
  let ?G = "\<lambda>i t. lua_rawseti t i (g (lua_rawgeti v i))"
  have t: "is_table v" "?n < 65536" "\<And>i. i \<in> set [1..<Suc ?n] \<Longrightarrow> ok' (lua_rawgeti v i)"
    using assms(1) True by (auto simp: scalar_ok_def list_all_iff)
  have el: "agrees (?P i) (?U i) (?G i)" if "i \<in> set [1..<Suc ?n]" for i
  proof -
    have ok: "ok (lua_rawgeti v i)" "leaf (\<lambda>w. wr w (lua_rawgeti v i)) rd (g (lua_rawgeti v i))"
      using assms(2) [OF t(3) [OF that]] by auto
    show ?thesis
      by (rule agrees_cong [OF agrees_leaf [OF ok(2), of "\<lambda>a x. lua_rawseti a i x"]]) (use ok(1) in simp_all)
  qed
  show ?thesis
    by (rule agrees_cong [OF agrees_array [OF el t(2), where name = "f_name f"]])
       (use t(1) True in \<open>simp_all add: pack_scalar_def unpack_scalar_def scalar_canon_def\<close>)
qed

lemma agrees_one_scalar:
  assumes "scalar_ok ok' f v" "\<And>x. ok' x \<Longrightarrow> ok x \<and> leaf (\<lambda>w. wr w x) rd (g x)"
    and "\<And>w. pack_one w f v depth = pack_scalar err ok wr w f v"
    and "\<And>s. unpack_one depth f s = unpack_scalar rd f s" "canon f v = scalar_canon g f v"
  shows "agrees (\<lambda>w. pack_one w f v depth) (unpack_one depth f) (\<lambda>t. lua_setfield t (f_name f) (canon f v))"
  by (rule agrees_cong [OF agrees_scalar [OF assms(1,2)]]) (simp_all add: assms(3-5))

lemma agrees_one_proto:
  assumes "f_type f = 4" "depth < MAX_DEPTH" "scalar_ok ok f v" "\<And>x. ok x \<Longrightarrow> is_table x"
    and fields: "\<And>x. ok x \<Longrightarrow> agrees (rfold (\<lambda>g w. pack_one w g (lua_getfield x (f_name g)) (Suc depth)) (f_nest f))
       (rfold (unpack_one (Suc depth)) (f_nest f))
       (fold (\<lambda>g t. lua_setfield t (f_name g) (canon g (lua_getfield x (f_name g)))) (f_nest f))"
  shows "agrees (\<lambda>w. pack_one w f v depth) (unpack_one depth f) (\<lambda>t. lua_setfield t (f_name f) (canon f v))"
proof (cases "f_array f")
  case False
  then have "ok v" using assms(3) by (simp add: scalar_ok_def)
  note v = fields [OF this] assms(4) [OF this]
  show ?thesis
    by (rule agrees_cong [OF agrees_inner [OF v(1), of empty_table "\<lambda>t e. lua_setfield t (f_name f) e"]])
       (use v(2) assms(1,2) False in \<open>simp_all add: pack_one.simps [of _ f] pack_field.simps unpack_one.simps [of _ f]
          unpack_field.simps canon.simps [of f] scalar_canon_def split_beta\<close>)
next
  case True
  let ?n = "lua_rawlen v"
  have t: "is_table v" "?n < 65536" "\<And>i. i \<in> set [1..<Suc ?n] \<Longrightarrow> ok (lua_rawgeti v i)"
    using assms(3) True by (auto simp: scalar_ok_def list_all_iff)
  let ?P = "\<lambda>i w. let x = lua_rawgeti v i in if \<not> is_table x then Inl (Expect_table (f_name f))
      else rfold (\<lambda>g w. pack_one w g (lua_getfield x (f_name g)) (Suc depth)) (f_nest f) w"
  let ?U = "\<lambda>i (a, r). rbind (rfold (unpack_one (Suc depth)) (f_nest f) (empty_table, r)) (\<lambda>(e, r). Inr (lua_rawseti a i e, r))"
  let ?G = "\<lambda>i t. lua_rawseti t i (fold (\<lambda>g t. lua_setfield t (f_name g) (canon g (lua_getfield (lua_rawgeti v i) (f_name g)))) (f_nest f) empty_table)"
  have el: "agrees (?P i) (?U i) (?G i)" if "i \<in> set [1..<Suc ?n]" for i
    by (rule agrees_cong [OF agrees_inner [OF fields [OF t(3) [OF that]], of empty_table "\<lambda>a e. lua_rawseti a i e"]])
       (use assms(4) [OF t(3) [OF that]] in \<open>simp_all add: split_beta\<close>)
  show ?thesis
    by (rule agrees_cong [OF agrees_array [OF el t(2), where name = "f_name f"]])
       (use t(1) assms(1,2) True in \<open>simp_all add: pack_one.simps [of _ f] pack_field.simps unpack_one.simps [of _ f]
          unpack_field.simps canon.simps [of f] scalar_canon_def split_beta Let_def\<close>)
qed

lemmas value_leaves =
  leaf_map [OF leaf_int, where g = LInt] leaf_map [OF leaf_float, where g = "\<lambda>x. LNum (float_to_double x)"]
  leaf_map [OF leaf_double, where g = LNum] leaf_map [OF leaf_string, where g = LStr]

lemma agrees_one:
  assumes "conforms depth f v"
  shows "agrees (\<lambda>w. pack_one w f v depth) (unpack_one depth f) (\<lambda>t. lua_setfield t (f_name f) (canon f v))"
  using assms
proof (induction depth f v rule: conforms.induct)
  case (1 depth f v)
  note unf = pack_one.simps [of _ f] unpack_one.simps [of _ f] canon.simps [of f]
  note ok = 1(2) [unfolded conforms.simps [of depth f v]]
  have "f_type f = 4" if "f_type f \<notin> {0, 1, 2, 3}" using ok that by simp
  then consider (int) "f_type f = 0" | (float) "f_type f = 1" | (double) "f_type f = 2" | (string) "f_type f = 3"
    | (proto) "f_type f = 4" by blast
  then show ?case
  proof cases
    case int
    then have "scalar_ok is_number f v" using ok by simp
    then show ?thesis
      by (rule agrees_one_scalar [where err = Expect_int and ok = is_number and rd = "read_map LInt read_int"
            and wr = "\<lambda>w v. write_int w (lua_tointeger v)" and g = "\<lambda>x. LInt (int_received (lua_tointeger x))"])
         (simp_all add: int unf value_leaves pack_int_def unpack_int_def)
  next
    case float
    then have "scalar_ok is_number f v" using ok by simp
    then show ?thesis
      by (rule agrees_one_scalar [where err = Expect_float and ok = is_number
            and rd = "read_map (\<lambda>x. LNum (float_to_double x)) read_float"
            and wr = "\<lambda>w v. write_float w (double_to_float (lua_tonumber v))"
            and g = "\<lambda>x. LNum (float_to_double (double_to_float (lua_tonumber x)))"])
         (simp_all add: float unf value_leaves pack_float_def unpack_float_def)
  next
    case double
    then have "scalar_ok is_number f v" using ok by simp
    then show ?thesis
      by (rule agrees_one_scalar [where err = Expect_float and ok = is_number
            and rd = "read_map LNum read_double" and wr = "\<lambda>w v. write_double w (lua_tonumber v)"
            and g = "\<lambda>x. LNum (lua_tonumber x)"])
         (simp_all add: double unf value_leaves pack_double_def unpack_double_def)
  next
    case string
    then have "scalar_ok (\<lambda>x. is_string x \<and> length (lua_tostring x) < 65536) f v" using ok by simp
    then show ?thesis
      by (rule agrees_one_scalar [where err = Expect_string and ok = is_string and rd = "read_map LStr read_string"
            and wr = "\<lambda>w v. write_string w (lua_tostring v)" and g = "\<lambda>x. LStr (lua_tostring x)"])
         (simp_all add: string unf value_leaves pack_string_def unpack_string_def)
  next
    case proto
    let ?ok = "\<lambda>x. is_table x \<and> list_all (\<lambda>g. conforms (Suc depth) g (lua_getfield x (f_name g))) (f_nest f)"
    have d: "depth < MAX_DEPTH" "scalar_ok ?ok f v" using ok proto by simp_all
    have el: "agrees (\<lambda>w. pack_one w g (lua_getfield x (f_name g)) (Suc depth)) (unpack_one (Suc depth) g)
        (\<lambda>t. lua_setfield t (f_name g) (canon g (lua_getfield x (f_name g))))" if "?ok x" "g \<in> set (f_nest f)" for x g
    proof -
      have "conforms (Suc depth) g (lua_getfield x (f_name g))" using that by (simp add: list_all_iff)
      then show ?thesis using 1(1) [of g x] proto that(2) by simp
    qed
    show ?thesis
      by (rule agrees_one_proto [OF proto d]) (blast, rule agrees_rfold, rule el)
  qed
qed

section \<open>Types of decoded messages\<close>

definition scalar_typed :: "(lua_value \<Rightarrow> bool) \<Rightarrow> field \<Rightarrow> lua_value \<Rightarrow> bool" where
  "scalar_typed ok f v =
     (if f_array f then is_table v \<and> list_all (\<lambda>p. ok (snd p)) (pairs_of v) else ok v)"

function typed :: "field \<Rightarrow> lua_value \<Rightarrow> bool" where
  "typed f v =
     (if f_type f = 0 then scalar_typed (\<lambda>x. \<exists>i. x = LInt i) f v
      else if f_type f = 1 \<or> f_type f = 2 then scalar_typed (\<lambda>x. \<exists>d. x = LNum d) f v
      else if f_type f = 3 then scalar_typed is_string f v
      else f_type f = 4
        \<and> scalar_typed (\<lambda>x. is_table x \<and> list_all (\<lambda>g. typed g (lua_getfield x (f_name g))) (f_nest f)) f v)"
  by pat_completeness auto
termination by (relation "measure (\<lambda>(f, v). size f)") (auto dest: nest_smaller)

declare typed.simps [simp del]

text \<open>Field names are distinct at every level.\<close>

function names_ok :: "field \<Rightarrow> bool" where
  "names_ok f \<longleftrightarrow> distinct (map f_name (f_nest f)) \<and> list_all names_ok (f_nest f)"
  by pat_completeness auto
termination by (relation "measure size") (auto dest: nest_smaller)

declare names_ok.simps [simp del]

lemma set_pairs_put: "q \<in> set (pairs_put k v ps) \<Longrightarrow> q = (k, v) \<or> q \<in> set ps"
  by (induction ps) (auto split: if_splits)

text \<open>One step of filling a table: the new field is typed, the other fields stay as they are.\<close>

definition sets_field :: "field \<Rightarrow> lua_value \<Rightarrow> lua_value \<Rightarrow> bool" where
  "sets_field f t t' \<longleftrightarrow> is_table t' \<and> typed f (lua_getfield t' (f_name f))
     \<and> (\<forall>n. n \<noteq> f_name f \<longrightarrow> lua_getfield t' n = lua_getfield t n)"

lemma sets_field_intro:
  assumes "typed f v" "v \<noteq> LNil"
  shows "sets_field f t (lua_setfield t (f_name f) v)"
  using assms lua_getfield_setfield [OF assms(2), of t "f_name f"]
  by (simp add: sets_field_def) (simp add: lua_setfield_def lua_rawset_def)

lemma rawseti_members:
  assumes "is_table t" "list_all (\<lambda>p. ok (snd p)) (pairs_of t)" "ok v" "v \<noteq> LNil"
  shows "is_table (lua_rawseti t i v) \<and> list_all (\<lambda>p. ok (snd p)) (pairs_of (lua_rawseti t i v))"
  using assms by (auto simp: lua_rawseti_def lua_rawset_def list_all_iff dest!: set_pairs_put)

lemma array_members:
  assumes "rfold (\<lambda>i (a, r). rbind (rd r) (\<lambda>(v, r). Inr (lua_rawseti a i v, r))) xs (empty_table, r) = Inr (t, r')"
    and "\<And>r v r'. rd r = Inr (v, r') \<Longrightarrow> ok v \<and> v \<noteq> LNil"
  shows "is_table t \<and> list_all (\<lambda>p. ok (snd p)) (pairs_of t)"
proof -
  have "(\<lambda>(t, r). is_table t \<and> list_all (\<lambda>p. ok (snd p)) (pairs_of t)) (t, r')"
    by (rule rfold_invariant [OF assms(1)])
       (auto simp: empty_table_def rbind_eq_Inr_iff dest!: assms(2) intro!: rawseti_members [THEN conjunct1] rawseti_members [THEN conjunct2])
  then show ?thesis by simp
qed

lemma unpack_scalar_typed:
  assumes "unpack_scalar rd f (t, r) = Inr (t', r')" "\<And>r v r'. rd r = Inr (v, r') \<Longrightarrow> ok v \<and> v \<noteq> LNil"
  shows "\<exists>v. t' = lua_setfield t (f_name f) v \<and> scalar_typed ok f v \<and> v \<noteq> LNil"
proof (cases "f_array f")
  case True
  then obtain n r1 a where a: "rfold (\<lambda>i (a, r). rbind (rd r) (\<lambda>(v, r). Inr (lua_rawseti a i v, r))) [1..<Suc n] (empty_table, r1) = Inr (a, r')"
    "t' = lua_setfield t (f_name f) a"
    using assms(1) by (auto simp: unpack_scalar_def rbind_eq_Inr_iff simp del: upt_Suc)
  have "is_table a \<and> list_all (\<lambda>p. ok (snd p)) (pairs_of a)" by (rule array_members [OF a(1) assms(2)])
  then show ?thesis using a(2) True by (auto simp: scalar_typed_def)
next
  case False
  then obtain v where v: "rd r = Inr (v, r')" "t' = lua_setfield t (f_name f) v"
    using assms(1) by (auto simp: unpack_scalar_def rbind_eq_Inr_iff)
  show ?thesis using assms(2) [OF v(1)] v(2) False by (intro exI [of _ v]) (simp add: scalar_typed_def)
qed

lemma read_map_result: "read_map g rd r = Inr (v, r') \<Longrightarrow> \<exists>x. v = g x"
  by (auto simp: read_map_def rbind_eq_Inr_iff)

lemma fields_typed:
  assumes "rfold (unpack_one depth) fs (t, r) = Inr (t', r')" "distinct (map f_name fs)" "is_table t"
    and "\<And>f t r t' r'. f \<in> set fs \<Longrightarrow> unpack_one depth f (t, r) = Inr (t', r') \<Longrightarrow> sets_field f t t'"
  shows "is_table t' \<and> list_all (\<lambda>f. typed f (lua_getfield t' (f_name f))) fs
     \<and> (\<forall>n. n \<notin> f_name ` set fs \<longrightarrow> lua_getfield t' n = lua_getfield t n)"
  using assms
proof (induction fs arbitrary: t r)
  case (Cons f fs)
  obtain t1 r1 where u: "unpack_one depth f (t, r) = Inr (t1, r1)" "rfold (unpack_one depth) fs (t1, r1) = Inr (t', r')"
    using Cons.prems(1) by (auto simp: rbind_eq_Inr_iff)
  have s: "sets_field f t t1" by (rule Cons.prems(4) [OF _ u(1)]) simp
  have t1: "is_table t1" using s by (simp add: sets_field_def)
  have fs: "distinct (map f_name fs)" using Cons.prems(2) by simp
  have "is_table t' \<and> list_all (\<lambda>f. typed f (lua_getfield t' (f_name f))) fs
      \<and> (\<forall>n. n \<notin> f_name ` set fs \<longrightarrow> lua_getfield t' n = lua_getfield t1 n)"
    by (rule Cons.IH [OF u(2) fs t1]) (rule Cons.prems(4), simp_all)
  moreover have "f_name f \<notin> f_name ` set fs" using Cons.prems(2) by simp
  ultimately show ?case using s by (auto simp: sets_field_def)
qed simp

lemma unpack_leaf_typed:
  assumes "unpack_scalar rd f (t, r) = Inr (t', r')"
    and "\<And>r v r'. rd r = Inr (v, r') \<Longrightarrow> ok v \<and> v \<noteq> LNil"
    and "\<And>v. typed f v = scalar_typed ok f v"
  shows "sets_field f t t'"
proof -
  have "\<exists>v. t' = lua_setfield t (f_name f) v \<and> scalar_typed ok f v \<and> v \<noteq> LNil"
    by (rule unpack_scalar_typed [OF assms(1)]) (rule assms(2))
  then obtain v where "t' = lua_setfield t (f_name f) v" "scalar_typed ok f v" "v \<noteq> LNil" by blast
  then show ?thesis using assms(3) by (simp add: sets_field_intro)
qed

lemma unpack_one_typed:
  assumes "names_ok f" "unpack_one depth f (t, r) = Inr (t', r')"
  shows "sets_field f t t'"
  using assms
proof (induction f arbitrary: depth t r t' r' rule: names_ok.induct)
  case (1 f)
  have ty: "f_type f = 4" if "f_type f \<notin> {0, 1, 2, 3}"
    using 1(3) that by (cases "f_type f = 4") (simp_all add: unpack_one.simps [of depth f])
  consider (int) "f_type f = 0" | (float) "f_type f = 1" | (double) "f_type f = 2" | (string) "f_type f = 3"
    | (proto) "f_type f = 4" using ty by blast
  then show ?case
  proof cases
    case int
    have "unpack_scalar (read_map LInt read_int) f (t, r) = Inr (t', r')"
      using 1(3) int by (simp add: unpack_one.simps [of depth f] unpack_int_def)
    then show ?thesis
      by (rule unpack_leaf_typed [where ok = "\<lambda>x. \<exists>i. x = LInt i"]) (auto simp: int typed.simps [of f] dest: read_map_result)
  next
    case float
    have "unpack_scalar (read_map (\<lambda>x. LNum (float_to_double x)) read_float) f (t, r) = Inr (t', r')"
      using 1(3) float by (simp add: unpack_one.simps [of depth f] unpack_float_def)
    then show ?thesis
      by (rule unpack_leaf_typed [where ok = "\<lambda>x. \<exists>d. x = LNum d"]) (auto simp: float typed.simps [of f] dest: read_map_result)
  next
    case double
    have "unpack_scalar (read_map LNum read_double) f (t, r) = Inr (t', r')"
      using 1(3) double by (simp add: unpack_one.simps [of depth f] unpack_double_def)
    then show ?thesis
      by (rule unpack_leaf_typed [where ok = "\<lambda>x. \<exists>d. x = LNum d"]) (auto simp: double typed.simps [of f] dest: read_map_result)
  next
    case string
    have "unpack_scalar (read_map LStr read_string) f (t, r) = Inr (t', r')"
      using 1(3) string by (simp add: unpack_one.simps [of depth f] unpack_string_def)
    then show ?thesis
      by (rule unpack_leaf_typed [where ok = "is_string"]) (auto simp: string typed.simps [of f] dest: read_map_result)
  next
    case proto
    let ?rd = "\<lambda>r. rfold (unpack_one (Suc depth)) (f_nest f) (empty_table, r)"
    have names: "distinct (map f_name (f_nest f))" "\<And>g. g \<in> set (f_nest f) \<Longrightarrow> names_ok g"
      using 1(2) by (auto simp: names_ok.simps [of f] list_all_iff)
    have nest: "(is_table e \<and> list_all (\<lambda>g. typed g (lua_getfield e (f_name g))) (f_nest f)) \<and> e \<noteq> LNil"
      if "?rd r = Inr (e, r')" for r e r'
    proof -
      have "is_table e \<and> list_all (\<lambda>g. typed g (lua_getfield e (f_name g))) (f_nest f)
          \<and> (\<forall>n. n \<notin> f_name ` set (f_nest f) \<longrightarrow> lua_getfield e n = lua_getfield empty_table n)"
        by (rule fields_typed [OF that names(1)]) (simp add: empty_table_def, rule 1(1), use names(2) in auto)
      then show ?thesis by auto
    qed
    have "unpack_scalar ?rd f (t, r) = Inr (t', r')"
      using 1(3) proto by (simp add: unpack_one.simps [of depth f] unpack_field.simps unpack_scalar_def split: if_splits)
    then show ?thesis
      by (rule unpack_leaf_typed [OF _ nest]) (simp_all add: typed.simps [of f] proto)
  qed
qed

section \<open>The codec\<close>

lemma fold_setfield_lookup:
  assumes "distinct (map f_name fs)"
  shows "lua_getfield (fold (\<lambda>f t. lua_setfield t (f_name f) (val f)) fs t) n
     = (case find (\<lambda>f. f_name f = n) fs of Some f \<Rightarrow> val f | None \<Rightarrow> lua_getfield t n)"
  unfolding lua_getfield_def lua_setfield_def
  using fold_rawset_lookup [of "\<lambda>f. LStr (f_name f)" fs val t "LStr n"] assms by (simp add: distinct_map inj_on_def)

lemma find_self: "distinct (map h xs) \<Longrightarrow> x \<in> set xs \<Longrightarrow> find (\<lambda>y. h y = h x) xs = Some x"
  by (induction xs) auto

text \<open>
  C26. A message with every field of its protocol, of the right type, is encoded when its strings and
  arrays are shorter than 65536 and its protocols are nested less than \<open>MAX_DEPTH\<close> deep. Decoding the
  bytes gives a table in which every field of the protocol has the value of the message, with the
  numbers converted to the number type of the field; only the integers from \<open>-2^31\<close> to \<open>-1\<close> come back
  changed, increased by \<open>2^32\<close>.
\<close>

theorem encode_decode:
  assumes "i < length (ctx_slots ctx)" "ctx_slots ctx ! i = Some ptl" "is_table v" "distinct (map f_name (p_field ptl))"
    and "\<forall>f \<in> set (p_field ptl). conforms 1 f (lua_getfield v (f_name f))"
  shows "\<exists>bs t. lencode_protocol ctx (int i) v = Inr bs \<and> ldecode_protocol ctx (int i) bs = Inr t
     \<and> (\<forall>f \<in> set (p_field ptl). lua_getfield t (f_name f) = canon f (lua_getfield v (f_name f)))"
proof -
  let ?val = "\<lambda>f. canon f (lua_getfield v (f_name f))"
  let ?t = "fold (\<lambda>f t. lua_setfield t (f_name f) (?val f)) (p_field ptl) empty_table"
  have "agrees (rfold (\<lambda>f w. pack_one w f (lua_getfield v (f_name f)) 1) (p_field ptl)) (rfold (unpack_one 1) (p_field ptl))
      (fold (\<lambda>f t. lua_setfield t (f_name f) (?val f)) (p_field ptl))"
    by (rule agrees_rfold, rule agrees_one) (use assms(5) in blast)
  then obtain bs where p: "\<And>w. \<exists>w'. rfold (\<lambda>f w. pack_one w f (lua_getfield v (f_name f)) 1) (p_field ptl) w = Inr w' \<and> w_data w' = w_data w @ bs"
    and u: "\<And>s r. rfold (unpack_one 1) (p_field ptl) (s, bs @ r)
      = Inr (fold (\<lambda>f t. lua_setfield t (f_name f) (?val f)) (p_field ptl) s, r)" unfolding agrees_def by blast
  have "lencode_protocol ctx (int i) v = Inr bs"
    using p [of writer_init] assms(1-3) by (auto simp: lencode_protocol_def writer_init_def)
  moreover have "ldecode_protocol ctx (int i) bs = Inr ?t"
    using u [of empty_table "[]"] assms(1,2) by (simp add: ldecode_protocol_def)
  moreover have "lua_getfield ?t (f_name f) = ?val f" if "f \<in> set (p_field ptl)" for f
    using find_self [OF assms(4) that] by (simp add: fold_setfield_lookup [OF assms(4)])
  ultimately show ?thesis by blast
qed

definition sample_field :: field where
  "sample_field = Field (str ''pos'') True 4 (str ''point'') [Field (str ''x'') False 0 (str ''int'') [] 0, Field (str ''s'') False 3 (str ''string'') [] 0] 4"

definition sample_context :: proto_context where
  "sample_context = \<lparr>ctx_slots = [None, Some \<lparr>p_name = str ''move'', p_field = [sample_field], p_cap = 4\<rparr>]\<rparr>"

definition sample_message :: lua_value where
  "sample_message = LTable 0 [(LStr (str ''pos''),
     LTable 1 [(LInt 1, LTable 0 [(LStr (str ''x''), LInt 300), (LStr (str ''s''), LStr (str ''ab''))])])]"

theorem encode_decode_witness:
  "\<exists>bs t. lencode_protocol sample_context 1 sample_message = Inr bs \<and> ldecode_protocol sample_context 1 bs = Inr t
     \<and> lua_getfield t (str ''pos'') = canon sample_field (lua_getfield sample_message (str ''pos''))"
proof -
  have "conforms 1 sample_field (lua_getfield sample_message (str ''pos''))"
    by (simp add: conforms.simps sample_field_def sample_message_def lua_getfield_def lua_rawget_def scalar_ok_def
        MAX_DEPTH_def lua_rawgeti_def str_def)
  then show ?thesis
    using encode_decode [of 1 sample_context "\<lparr>p_name = str ''move'', p_field = [sample_field], p_cap = 4\<rparr>" sample_message]
    by (simp add: sample_context_def) (simp add: sample_message_def sample_field_def)
qed

text \<open>
  C29. A negative integer of 32 bits does not survive: it comes back increased by 2 to the power of 32.
\<close>

theorem read_int_negative:
  assumes "- (2 ^ 31) \<le> sint v" "sint v < 0"
  shows "read_int (w_data (write_int writer_init v)) = Inr (v + 0x100000000, [])"
proof -
  have c: "sint (ucast v :: 32 word) = sint v"
    using assms sint_ucast_32 [of v] by (simp add: signed_take_bit_int_eq_self)
  have v: "v \<noteq> 0" using assms(2) by auto
  have "w_data (write_int writer_init v) = 3 # le_bytes 4 (unat v)"
    using assms c v by (simp add: write_int_def write_byte_def writer_init_def del: le_bytes.simps)
  then show ?thesis using negative_low_half [OF assms]
    by (simp add: read_int_def read_uint_def reader_pop_def le_val_le_bytes del: le_bytes.simps)
qed

theorem read_int_negative_witness: "read_int (w_data (write_int writer_init (- 1))) = Inr (0xFFFFFFFF, [])"
  using read_int_negative [of "- 1"] by simp

text \<open>
  C27. Whatever bytes come in, a message that is decoded has every field of the protocol, at every
  level of nesting, with a value of the declared type: integers, floats, strings, tables with all
  the nested fields, and arrays of such values.
\<close>

theorem decode_typed:
  assumes "ldecode_protocol ctx (int i) bs = Inr t" "ctx_slots ctx ! i = Some ptl"
    and "distinct (map f_name (p_field ptl))" "list_all names_ok (p_field ptl)"
  shows "is_table t \<and> list_all (\<lambda>f. typed f (lua_getfield t (f_name f))) (p_field ptl)"
proof -
  have "rfold (unpack_one 1) (p_field ptl) (empty_table, bs) = Inr (t, [])"
    using assms(1,2) by (auto simp: ldecode_protocol_def rbind_eq_Inr_iff split: if_splits)
  then have "is_table t \<and> list_all (\<lambda>f. typed f (lua_getfield t (f_name f))) (p_field ptl)
      \<and> (\<forall>n. n \<notin> f_name ` set (p_field ptl) \<longrightarrow> lua_getfield t n = lua_getfield empty_table n)"
    using assms(3)
  proof (rule fields_typed)
    show "is_table empty_table" by (simp add: empty_table_def)
    fix f t r t' r'
    assume "f \<in> set (p_field ptl)" "unpack_one 1 f (t, r) = Inr (t', r')"
    then show "sets_field f t t'" using assms(4) by (intro unpack_one_typed) (auto simp: list_all_iff)
  qed
  then show ?thesis by blast
qed

theorem decode_typed_witness:
  "\<exists>t. ldecode_protocol sample_context 1 [1, 0, 1, 7, 1, 0, 65] = Inr t \<and> typed sample_field (lua_getfield t (str ''pos''))"
proof -
  have n: "list_all names_ok [sample_field]" by (simp add: sample_field_def names_ok.simps str_def)
  have "isl (ldecode_protocol sample_context 1 [1, 0, 1, 7, 1, 0, 65]) = False" by code_simp
  then obtain t where t: "ldecode_protocol sample_context (int 1) [1, 0, 1, 7, 1, 0, 65] = Inr t"
    by (cases "ldecode_protocol sample_context 1 [1, 0, 1, 7, 1, 0, 65]") auto
  show ?thesis
    using decode_typed [OF t, of "\<lparr>p_name = str ''move'', p_field = [sample_field], p_cap = 4\<rparr>"] n t
    by (simp add: sample_context_def) (simp add: sample_field_def)
qed

text \<open>Loading: the arrays of fields are never filled beyond their capacity.\<close>

function fits :: "field \<Rightarrow> bool" where
  "fits f \<longleftrightarrow> length (f_nest f) \<le> f_cap f \<and> list_all fits (f_nest f)"
  by pat_completeness auto
termination by (relation "measure size") (auto dest: nest_smaller)

declare fits.simps [simp del]

definition protocol_fits :: "protocol \<Rightarrow> bool" where
  "protocol_fits ptl \<longleftrightarrow> 0 < p_cap ptl \<and> length (p_field ptl) \<le> p_cap ptl \<and> list_all fits (p_field ptl)"

text \<open>
  A field that is as described: its attributes are those of the description, and it has nested
  fields, as described, exactly when it is of a protocol type.
\<close>

definition as_described :: "(lua_value \<Rightarrow> bytes) \<Rightarrow> lua_value \<Rightarrow> field \<Rightarrow> bool" where
  "as_described fmt x f \<longleftrightarrow>
     Some (f_name f) = map_option c_str (lua_tolstring fmt (lua_getfield x (str ''name'')))
     \<and> Some (f_type_name f) = map_option c_str (lua_tolstring fmt (lua_getfield x (str ''type_name'')))
     \<and> f_array f = lua_toboolean (lua_getfield x (str ''array'')) \<and> f_type f = c_int (lua_getfield x (str ''type''))"

function field_matches :: "(lua_value \<Rightarrow> bytes) \<Rightarrow> lua_value \<Rightarrow> field \<Rightarrow> bool" where
  "field_matches fmt x f \<longleftrightarrow> as_described fmt x f
     \<and> (let ds = (if f_type f = 4 then described (lua_getfield x (str ''fields'')) else [])
        in length (f_nest f) = length ds \<and> list_all (\<lambda>(g, y). field_matches fmt y g) (zip (f_nest f) ds))"
  by pat_completeness auto
termination by (relation "measure (\<lambda>(fmt, x, f). size f)") (auto dest: nest_smaller set_zip_leftD)

declare field_matches.simps [simp del]

lemma field_matches_iff:
  "field_matches fmt x f \<longleftrightarrow> as_described fmt x f
     \<and> list_all2 (field_matches fmt) (if f_type f = 4 then described (lua_getfield x (str ''fields'')) else []) (f_nest f)"
  by (subst field_matches.simps) (auto simp: Let_def list_all2_conv_all_nth list_all_length)

lemma describe_field_result:
  assumes "describe_field fmt x = Inr f"
  shows "fits f" "as_described fmt x f" "f_nest f = []"
  using assms
  by (auto simp: describe_field_def as_described_def fits.simps Let_def split: if_splits option.splits)

lemma create_nest_field_fits: "fits p \<Longrightarrow> fits f \<Longrightarrow> fits (create_nest_field p f)"
  by (cases p) (auto simp: fits.simps [of "Field _ _ _ _ _ _"] Let_def)

lemma create_nest_field_parts [simp]:
  "f_name (create_nest_field p f) = f_name p" "f_array (create_nest_field p f) = f_array p"
  "f_type (create_nest_field p f) = f_type p" "f_type_name (create_nest_field p f) = f_type_name p"
  "f_nest (create_nest_field p f) = f_nest p @ [f]"
  by (cases p; simp add: Let_def)+

text \<open>The nested fields that an import adds to a field.\<close>

definition imported :: "(lua_value \<Rightarrow> bytes) \<Rightarrow> lua_value list \<Rightarrow> field \<Rightarrow> field \<Rightarrow> bool" where
  "imported fmt xs p p' \<longleftrightarrow> (fits p \<longrightarrow> fits p') \<and> f_name p' = f_name p \<and> f_array p' = f_array p \<and> f_type p' = f_type p
     \<and> f_type_name p' = f_type_name p \<and> (\<exists>ns. f_nest p' = f_nest p @ ns \<and> list_all2 (field_matches fmt) xs ns)"

text \<open>One described field with what it nests, given that nested imports are right.\<close>

lemma import_described:
  assumes "describe_field fmt x = Inr f"
    and "(if f_type f = 4 then import_nest_field fmt f (lua_getfield x (str ''fields'')) else Inr f) = Inr f'"
    and "\<And>f'. f_type f = 4 \<Longrightarrow> import_nest_field fmt f (lua_getfield x (str ''fields'')) = Inr f' \<Longrightarrow>
           imported fmt (described (lua_getfield x (str ''fields''))) f f'"
  shows "fits f' \<and> field_matches fmt x f'"
proof (cases "f_type f = 4")
  case True
  then have "imported fmt (described (lua_getfield x (str ''fields''))) f f'" using assms(2,3) by simp
  then show ?thesis using describe_field_result [OF assms(1)] True
    by (auto simp: imported_def field_matches_iff [of fmt x f'] as_described_def)
next
  case False
  then have "f' = f" using assms(2) by simp
  then show ?thesis using describe_field_result [OF assms(1)] False by (simp add: field_matches_iff [of fmt x f])
qed

lemma import_nest_field_imports: "import_nest_field fmt p d = Inr p' \<Longrightarrow> imported fmt (described d) p p'"
proof (induction fmt p d arbitrary: p' rule: import_nest_field.induct)
  case (1 fmt p d)
  let ?step = "\<lambda>x parent. rbind (describe_field fmt x) (\<lambda>f.
    rbind (if f_type f = 4 then import_nest_field fmt f (lua_getfield x (str ''fields'')) else Inr f)
      (\<lambda>f. Inr (create_nest_field parent f)))"
  have "imported fmt xs s t" if "rfold ?step xs s = Inr t" "set xs \<subseteq> set (described d)" for xs s t
    using that
  proof (induction xs arbitrary: s)
    case Nil
    then show ?case by (simp add: imported_def)
  next
    case (Cons x xs)
    obtain f f' where f: "describe_field fmt x = Inr f"
      "(if f_type f = 4 then import_nest_field fmt f (lua_getfield x (str ''fields'')) else Inr f) = Inr f'"
      "rfold ?step xs (create_nest_field s f') = Inr t"
      using Cons.prems(1) by (auto simp: rbind_eq_Inr_iff)
    have "x \<in> set (described d)" using Cons.prems(2) by simp
    then have m: "fits f' \<and> field_matches fmt x f'" using import_described [OF f(1,2)] 1(1) [OF _ f(1)] by blast
    have "imported fmt xs (create_nest_field s f') t" using Cons.IH [OF f(3)] Cons.prems(2) by simp
    then show ?case using m create_nest_field_fits [of s f'] by (auto simp: imported_def)
  qed
  then show ?case using 1(2) unfolding import_nest_field.simps [of fmt p d] by blast
qed

definition import_one :: "(lua_value \<Rightarrow> bytes) \<Rightarrow> lua_value \<Rightarrow> protocol \<Rightarrow> proto_error + protocol" where
  "import_one fmt x ptl = rbind (describe_field fmt x) (\<lambda>f.
     rbind (if f_type f = 4 then import_nest_field fmt f (lua_getfield x (str ''fields'')) else Inr f)
       (\<lambda>f. Inr (create_field ptl f)))"

lemma import_one_fits:
  assumes "import_one fmt x ptl = Inr ptl'" "protocol_fits ptl"
  shows "protocol_fits ptl' \<and> p_name ptl' = p_name ptl \<and> (\<exists>f. p_field ptl' = p_field ptl @ [f] \<and> field_matches fmt x f)"
proof -
  obtain f f' where f: "describe_field fmt x = Inr f"
    "(if f_type f = 4 then import_nest_field fmt f (lua_getfield x (str ''fields'')) else Inr f) = Inr f'" "ptl' = create_field ptl f'"
    using assms(1) by (auto simp: import_one_def rbind_eq_Inr_iff)
  have "fits f' \<and> field_matches fmt x f'" using import_described [OF f(1,2)] import_nest_field_imports by blast
  then show ?thesis using assms(2) f(3) by (auto simp: create_field_def protocol_fits_def Let_def)
qed

lemma import_fields_fit:
  assumes "rfold (import_one fmt) xs ptl = Inr ptl'" "protocol_fits ptl"
  shows "protocol_fits ptl' \<and> p_name ptl' = p_name ptl
     \<and> (\<exists>fs. p_field ptl' = p_field ptl @ fs \<and> list_all2 (field_matches fmt) xs fs)"
  using assms
proof (induction xs arbitrary: ptl)
  case (Cons x xs)
  obtain p where p: "import_one fmt x ptl = Inr p" "rfold (import_one fmt) xs p = Inr ptl'"
    using Cons.prems(1) by (auto simp: rbind_eq_Inr_iff)
  note one = import_one_fits [OF p(1) Cons.prems(2)]
  show ?case using one Cons.IH [OF p(2) one [THEN conjunct1]] by auto
qed simp

lemma import_field_one: "import_field fmt ptl d = rfold (import_one fmt) (described d) ptl"
  unfolding import_field_def by (rule rfold_cong) (simp_all add: import_one_def)

lemma create_protocol_slots:
  assumes "create_protocol ctx i name = (ptl, ctx')"
  shows "protocol_fits ptl \<and> p_name ptl = c_str name \<and> p_field ptl = []" "i < length (ctx_slots ctx')"
    "ctx_slots ctx' ! i = Some ptl"
    "j \<noteq> i \<Longrightarrow> j < length (ctx_slots ctx') \<Longrightarrow>
       ctx_slots ctx' ! j = (if j < length (ctx_slots ctx) then ctx_slots ctx ! j else None)"
  using assms by (auto simp: create_protocol_def protocol_fits_def Let_def nth_append split: if_splits)

text \<open>
  C28. Loading a protocol fills the slot of its index and no other: the protocol has the described
  name and the described fields in their order, each with the described name, array flag, type and
  type name and, at every level of nesting, the described nested fields when its type is a
  protocol and none otherwise. No array of fields is filled beyond its capacity, the other slots
  keep what they hold or are empty when new, and the index cannot be loaded again.
\<close>

theorem lload_protocol_slot:
  assumes "lload_protocol fmt ctx i name d = Inr ctx'"
  shows "\<exists>ptl. nat i < length (ctx_slots ctx') \<and> ctx_slots ctx' ! nat i = Some ptl \<and> protocol_fits ptl \<and> p_name ptl = c_str name
     \<and> list_all2 (field_matches fmt) (described (lua_getfield d (str ''fields''))) (p_field ptl)
     \<and> (\<forall>j. j \<noteq> nat i \<longrightarrow> j < length (ctx_slots ctx') \<longrightarrow>
          ctx_slots ctx' ! j = (if j < length (ctx_slots ctx) then ctx_slots ctx ! j else None))
     \<and> (\<forall>name' d'. is_table d' \<longrightarrow> lload_protocol fmt ctx' i name' d' = Inl Already_loaded)"
proof -
  obtain p0 and ctx0 :: proto_context where c: "create_protocol ctx (nat i) name = (p0, ctx0)" by fastforce
  note sl = create_protocol_slots [OF c]
  have i: "0 \<le> i" using assms by (auto simp: lload_protocol_def split: if_splits)
  have "\<exists>ptl. ctx' = ctx0\<lparr>ctx_slots := (ctx_slots ctx0)[nat i := Some ptl]\<rparr> \<and> protocol_fits ptl \<and> p_name ptl = c_str name
      \<and> list_all2 (field_matches fmt) (described (lua_getfield d (str ''fields''))) (p_field ptl)"
  proof (cases "lua_getfield d (str ''fields'') = LNil")
    case True
    then have "ctx' = ctx0" using assms c by (auto simp: lload_protocol_def split: if_splits)
    moreover have "(ctx_slots ctx0)[nat i := Some p0] = ctx_slots ctx0" using list_update_id [of "ctx_slots ctx0" "nat i"] sl(3) by simp
    ultimately show ?thesis using sl(1) True by (intro exI [of _ p0]) (simp add: described_def)
  next
    case False
    then obtain ptl where p: "import_field fmt p0 (lua_getfield d (str ''fields'')) = Inr ptl"
      "ctx' = ctx0\<lparr>ctx_slots := (ctx_slots ctx0)[nat i := Some ptl]\<rparr>"
      using assms c by (auto simp: lload_protocol_def rbind_eq_Inr_iff split: if_splits)
    show ?thesis using p(2) sl(1) import_fields_fit [OF p(1) [unfolded import_field_one]] by (intro exI [of _ ptl]) simp
  qed
  then obtain ptl where p: "ctx' = ctx0\<lparr>ctx_slots := (ctx_slots ctx0)[nat i := Some ptl]\<rparr>" "protocol_fits ptl" "p_name ptl = c_str name"
    "list_all2 (field_matches fmt) (described (lua_getfield d (str ''fields''))) (p_field ptl)" by blast
  have "i < int (length (ctx_slots ctx0))" using sl(2) i by linarith
  then have "is_table d' \<Longrightarrow> lload_protocol fmt ctx' i name' d' = Inl Already_loaded" for name' d'
    using p(1) sl(2) i by (simp add: lload_protocol_def)
  then show ?thesis using p sl(2,4) by (intro exI [of _ ptl]) simp
qed

text \<open>A protocol with an array of nested points.\<close>

definition sample_description :: lua_value where
  "sample_description = LTable 0 [(LStr (str ''fields''), LTable 1 [(LInt 1,
     LTable 0 [(LStr (str ''name''), LStr (str ''path'')), (LStr (str ''type''), LInt 4), (LStr (str ''type_name''), LStr (str ''point'')),
       (LStr (str ''array''), LBool True), (LStr (str ''fields''), LTable 1 [(LInt 1,
         LTable 0 [(LStr (str ''name''), LStr (str ''x'')), (LStr (str ''type''), LInt 0), (LStr (str ''type_name''), LStr (str ''int''))])])])])]"

theorem lload_protocol_slot_witness:
  "\<exists>ctx' ptl f g. lload_protocol (\<lambda>_. []) lprotocol_ctx_new 70 (str ''login'') sample_description = Inr ctx'
     \<and> ctx_slots ctx' ! 70 = Some ptl \<and> p_field ptl = [f] \<and> f_name f = str ''path'' \<and> f_array f \<and> f_type f = 4
     \<and> f_nest f = [g] \<and> f_name g = str ''x'' \<and> \<not> f_array g \<and> f_type g = 0 \<and> f_nest g = []"
proof -
  let ?load = "lload_protocol (\<lambda>_. []) lprotocol_ctx_new 70 (str ''login'') sample_description"
  have "isl ?load = False" by code_simp
  then obtain ctx' :: proto_context where l: "?load = Inr ctx'" by (cases ?load) auto
  let ?f = "lua_rawgeti (lua_getfield sample_description (str ''fields'')) 1"
  let ?g = "lua_rawgeti (lua_getfield ?f (str ''fields'')) 1"
  have d: "described (lua_getfield sample_description (str ''fields'')) = [?f]" "described (lua_getfield ?f (str ''fields'')) = [?g]"
    by code_simp+
  obtain ptl f where f: "ctx_slots ctx' ! 70 = Some ptl" "p_field ptl = [f]" "field_matches (\<lambda>_. []) ?f f"
    using lload_protocol_slot [OF l] unfolding d(1) by (auto simp: list_all2_Cons1)
  have af: "f_name f = str ''path'' \<and> f_array f \<and> f_type f = 4" if "as_described (\<lambda>_. []) ?f f"
  proof -
    have "map_option c_str (lua_tolstring (\<lambda>_. []) (lua_getfield ?f (str ''name''))) = Some (str ''path'')"
      "lua_toboolean (lua_getfield ?f (str ''array''))" "c_int (lua_getfield ?f (str ''type'')) = 4" by code_simp+
    then show ?thesis using that unfolding as_described_def by auto
  qed
  then have nest: "list_all2 (field_matches (\<lambda>_. [])) [?g] (f_nest f)"
    using f(3) unfolding field_matches_iff [of _ ?f f] d(2) by auto
  then obtain g where g: "f_nest f = [g]" "field_matches (\<lambda>_. []) ?g g" by (auto simp: list_all2_Cons1)
  have "f_name g = str ''x'' \<and> \<not> f_array g \<and> f_type g = 0" if "as_described (\<lambda>_. []) ?g g"
  proof -
    have "map_option c_str (lua_tolstring (\<lambda>_. []) (lua_getfield ?g (str ''name''))) = Some (str ''x'')"
      "\<not> lua_toboolean (lua_getfield ?g (str ''array''))" "c_int (lua_getfield ?g (str ''type'')) = 0" by code_simp+
    then show ?thesis using that unfolding as_described_def by auto
  qed
  then show ?thesis using l f af g field_matches_iff [of _ ?f f] field_matches_iff [of _ ?g g] by auto
qed

end
