(* ===== verification/Serialize.thy ===== *)
theory Serialize
  imports Lua_Value
begin

unbundle bit_operations_syntax

text \<open>
  The serializer of \<open>src/luaclib/lua-serialize.c\<close>: Lua values are written into a chain of blocks,
  each value as a byte of type and cookie followed by its data, and read back from a flat buffer.

  A write block is the filled blocks before the current one, the bytes written to the current one
  and the total length; the index \<open>ptr\<close> is the number of bytes in the current block. A read block
  is the unread rest of the buffer, so that \<open>len\<close> is its length. Raised errors are the \<open>Inl\<close>
  case. The reader is given fuel; what bounds its recursion besides the input is the size of the Lua
  stack, whose slots in use it is given as \<open>used\<close>. Sizes are below 2 GiB, and neither memory nor the
  C stack is exhausted: \<open>lua_createtable\<close>, which only allocates room for the elements that the input
  announces, is the empty table. The depth of the writer is bounded by \<open>MAX_DEPTH\<close>, so it is not given
  the stack: the check of \<open>wb_table\<close> succeeds when the callers leave two hundred slots.
\<close>

section \<open>Data\<close>

definition TYPE_NIL :: nat where "TYPE_NIL = 0"
definition TYPE_BOOLEAN :: nat where "TYPE_BOOLEAN = 1"
definition TYPE_NUMBER :: nat where "TYPE_NUMBER = 2"
definition TYPE_NUMBER_ZERO :: nat where "TYPE_NUMBER_ZERO = 0"
definition TYPE_NUMBER_BYTE :: nat where "TYPE_NUMBER_BYTE = 1"
definition TYPE_NUMBER_WORD :: nat where "TYPE_NUMBER_WORD = 2"
definition TYPE_NUMBER_DWORD :: nat where "TYPE_NUMBER_DWORD = 4"
definition TYPE_NUMBER_QWORD :: nat where "TYPE_NUMBER_QWORD = 6"
definition TYPE_NUMBER_REAL :: nat where "TYPE_NUMBER_REAL = 8"
definition TYPE_USERDATA :: nat where "TYPE_USERDATA = 3"
definition TYPE_SHORT_STRING :: nat where "TYPE_SHORT_STRING = 4"
definition TYPE_LONG_STRING :: nat where "TYPE_LONG_STRING = 5"
definition TYPE_TABLE :: nat where "TYPE_TABLE = 6"
definition MAX_COOKIE :: nat where "MAX_COOKIE = 32"
definition BLOCK_SIZE :: nat where "BLOCK_SIZE = 128"
definition MAX_DEPTH :: nat where "MAX_DEPTH = 32"

lemmas seri_types = TYPE_NIL_def TYPE_BOOLEAN_def TYPE_NUMBER_def TYPE_USERDATA_def TYPE_SHORT_STRING_def
  TYPE_LONG_STRING_def TYPE_TABLE_def

lemmas number_types = TYPE_NUMBER_ZERO_def TYPE_NUMBER_BYTE_def TYPE_NUMBER_WORD_def TYPE_NUMBER_DWORD_def
  TYPE_NUMBER_QWORD_def TYPE_NUMBER_REAL_def

definition COMBINE_TYPE :: "nat \<Rightarrow> nat \<Rightarrow> byte" where
  "COMBINE_TYPE t v = word_of_nat t OR push_bit 3 (word_of_nat v)"

datatype seri_error =
    Too_deep
  | Unsupported
  | Replaced_key
  | Not_a_table
  | Wild_access
  | Invalid_stream
  | Block_too_big
  | Bad_key
  | Stack_overflow
  | Out_of_fuel

record write_block =
  wb_full :: "bytes list"
  wb_cur :: bytes
  wb_len :: nat

text \<open>
  What the serializer asks the Lua code of the application. \<open>pack_method\<close> is the result of the
  method \<open>pack\<close> of a table, and none when there is no such function or its call fails.
  \<open>meta_pairs\<close> is the sequence of pairs that the iterator of a \<open>__pairs\<close> metamethod gives.
\<close>

record host =
  pack_method :: "lua_value \<Rightarrow> lua_value option"
  meta_pairs :: "lua_value \<Rightarrow> (lua_value \<times> lua_value) list option"

section \<open>Blocks\<close>

definition blk_alloc :: "write_block \<Rightarrow> write_block" where
  "blk_alloc b = b\<lparr>wb_full := wb_full b @ [wb_cur b], wb_cur := []\<rparr>"

text \<open>The part of \<open>wb_push\<close> behind the label: copy what fits, and go on in a new block.\<close>

function wb_copy :: "write_block \<Rightarrow> bytes \<Rightarrow> write_block" where
  "wb_copy b buf =
     (if length (wb_cur b) + length buf \<le> BLOCK_SIZE
      then b\<lparr>wb_cur := wb_cur b @ buf, wb_len := wb_len b + length buf\<rparr>
      else (let copy = BLOCK_SIZE - length (wb_cur b)
            in wb_copy (blk_alloc (b\<lparr>wb_cur := wb_cur b @ take copy buf, wb_len := wb_len b + copy\<rparr>)) (drop copy buf)))"
  by pat_completeness auto
termination
  by (relation "measure (\<lambda>(b, buf). 2 * length buf + (if wb_cur b = [] then 0 else 1))")
     (auto simp: blk_alloc_def BLOCK_SIZE_def)

declare wb_copy.simps [simp del]

definition wb_push :: "write_block \<Rightarrow> bytes \<Rightarrow> write_block" where
  "wb_push b buf = wb_copy (if length (wb_cur b) = BLOCK_SIZE then blk_alloc b else b) buf"

definition wb_init :: write_block where
  "wb_init = \<lparr>wb_full = [], wb_cur = [], wb_len = 0\<rparr>"

definition wb_blocks :: "write_block \<Rightarrow> bytes list" where
  "wb_blocks b = wb_full b @ [wb_cur b]"

text \<open>Flattening the chain of blocks.\<close>

fun seri :: "bytes list \<Rightarrow> nat \<Rightarrow> seri_error + bytes" where
  "seri bs 0 = Inr []"
| "seri [] len = Inl Wild_access"
| "seri (b # bs) len =
     (if len \<ge> BLOCK_SIZE then rbind (seri bs (len - BLOCK_SIZE)) (\<lambda>r. Inr (take BLOCK_SIZE b @ r))
      else Inr (take len b))"

section \<open>Writing values\<close>

definition wb_nil :: "write_block \<Rightarrow> write_block" where
  "wb_nil w = wb_push w [word_of_nat TYPE_NIL]"

definition wb_boolean :: "write_block \<Rightarrow> bool \<Rightarrow> write_block" where
  "wb_boolean w b = wb_push w [COMBINE_TYPE TYPE_BOOLEAN (if b then 1 else 0)]"

definition wb_integer :: "write_block \<Rightarrow> 64 word \<Rightarrow> write_block" where
  "wb_integer w v =
     (if v = 0 then wb_push w [COMBINE_TYPE TYPE_NUMBER TYPE_NUMBER_ZERO]
      else if sint v \<noteq> sint (ucast v :: 32 word)
      then wb_push (wb_push w [COMBINE_TYPE TYPE_NUMBER TYPE_NUMBER_QWORD]) (le_bytes 8 (unat v))
      else if sint v < 0
      then wb_push (wb_push w [COMBINE_TYPE TYPE_NUMBER TYPE_NUMBER_DWORD]) (le_bytes 4 (unat v))
      else if sint v < 0x100
      then wb_push (wb_push w [COMBINE_TYPE TYPE_NUMBER TYPE_NUMBER_BYTE]) (le_bytes 1 (unat v))
      else if sint v < 0x10000
      then wb_push (wb_push w [COMBINE_TYPE TYPE_NUMBER TYPE_NUMBER_WORD]) (le_bytes 2 (unat v))
      else wb_push (wb_push w [COMBINE_TYPE TYPE_NUMBER TYPE_NUMBER_DWORD]) (le_bytes 4 (unat v)))"

definition wb_real :: "write_block \<Rightarrow> 64 word \<Rightarrow> write_block" where
  "wb_real w d = wb_push (wb_push w [COMBINE_TYPE TYPE_NUMBER TYPE_NUMBER_REAL]) (le_bytes 8 (unat d))"

definition wb_pointer :: "write_block \<Rightarrow> 64 word \<Rightarrow> write_block" where
  "wb_pointer w p = wb_push (wb_push w [word_of_nat TYPE_USERDATA]) (le_bytes 8 (unat p))"

definition wb_string :: "write_block \<Rightarrow> bytes \<Rightarrow> write_block" where
  "wb_string w s =
     (if length s < MAX_COOKIE
      then (let w = wb_push w [COMBINE_TYPE TYPE_SHORT_STRING (length s)] in if length s > 0 then wb_push w s else w)
      else if length s < 0x10000
      then wb_push (wb_push (wb_push w [COMBINE_TYPE TYPE_LONG_STRING 2]) (le_bytes 2 (length s))) s
      else wb_push (wb_push (wb_push w [COMBINE_TYPE TYPE_LONG_STRING 4]) (le_bytes 4 (length s))) s)"

text \<open>The keys that the array part has already written.\<close>

fun in_array :: "nat \<Rightarrow> lua_value \<Rightarrow> bool" where
  "in_array n (LInt x) \<longleftrightarrow> 0 < sint x \<and> sint x \<le> int n"
| "in_array n k \<longleftrightarrow> False"

definition wb_array_size :: "write_block \<Rightarrow> nat \<Rightarrow> write_block" where
  "wb_array_size w n =
     (if n \<ge> MAX_COOKIE - 1 then wb_integer (wb_push w [COMBINE_TYPE TYPE_TABLE (MAX_COOKIE - 1)]) (word_of_nat n)
      else wb_push w [COMBINE_TYPE TYPE_TABLE n])"

text \<open>
  The value that \<open>pack_one\<close> returns is the one it leaves in the stack slot it packs: a table is
  replaced by the result of its \<open>pack\<close> method. A key that has been replaced is not the key that
  the iteration can go on from: \<open>lua_next\<close> raises an error, and a \<open>__pairs\<close> iterator is called with
  an argument it did not return, which the model ends with \<open>Replaced_key\<close>. A \<open>pack\<close> method that
  returns no table leads to table accesses on a value that is none.
\<close>

function pack_one :: "host \<Rightarrow> write_block \<Rightarrow> lua_value \<Rightarrow> nat \<Rightarrow> seri_error + (write_block \<times> lua_value)"
  and wb_table :: "host \<Rightarrow> write_block \<Rightarrow> lua_value \<Rightarrow> nat \<Rightarrow> seri_error + (write_block \<times> lua_value)"
  and wb_table_array :: "host \<Rightarrow> write_block \<Rightarrow> lua_value \<Rightarrow> nat \<Rightarrow> seri_error + write_block"
  and wb_table_hash :: "host \<Rightarrow> write_block \<Rightarrow> lua_value \<Rightarrow> nat \<Rightarrow> nat \<Rightarrow> seri_error + write_block"
  and wb_table_metapairs :: "host \<Rightarrow> write_block \<Rightarrow> (lua_value \<times> lua_value) list \<Rightarrow> nat \<Rightarrow> seri_error + write_block" where
  "pack_one h w v depth =
     (if depth > MAX_DEPTH then Inl Too_deep
      else case v of
        LNil \<Rightarrow> Inr (wb_nil w, v)
      | LInt i \<Rightarrow> Inr (wb_integer w i, v)
      | LNum d \<Rightarrow> Inr (wb_real w d, v)
      | LBool b \<Rightarrow> Inr (wb_boolean w b, v)
      | LStr s \<Rightarrow> Inr (wb_string w s, v)
      | LLight p \<Rightarrow> Inr (wb_pointer w p, v)
      | LTable n ps \<Rightarrow> wb_table h w v (Suc depth)
      | LOther k \<Rightarrow> Inl Unsupported)"
| "wb_table h w t depth =
     (let t = (if lua_rawget t (LStr (str ''__name'')) \<noteq> LNil
               then (case pack_method h t of Some t' \<Rightarrow> t' | None \<Rightarrow> t) else t)
      in case meta_pairs h t of
           Some ps \<Rightarrow> rbind (wb_table_metapairs h w ps depth) (\<lambda>w. Inr (w, t))
         | None \<Rightarrow>
             if \<not> is_table t then Inl Not_a_table
             else rbind (wb_table_array h w t depth) (\<lambda>w.
                  rbind (wb_table_hash h w t depth (lua_rawlen t)) (\<lambda>w. Inr (w, t))))"
| "wb_table_array h w t depth =
     rfold (\<lambda>i w. rbind (pack_one h w (lua_rawgeti t i) depth) (\<lambda>(w, _). Inr w))
       [1..<Suc (lua_rawlen t)] (wb_array_size w (lua_rawlen t))"
| "wb_table_hash h w t depth array_size =
     rbind (rfold (\<lambda>(k, v) w.
              if in_array array_size k then Inr w
              else rbind (pack_one h w k depth) (\<lambda>(w, k').
                   rbind (pack_one h w v depth) (\<lambda>(w, _). if k' \<noteq> k then Inl Replaced_key else Inr w)))
             (pairs_of t) w)
       (\<lambda>w. Inr (wb_nil w))"
| "wb_table_metapairs h w ps depth =
     rbind (rfold (\<lambda>(k, v) w.
              rbind (pack_one h w k depth) (\<lambda>(w, k').
              rbind (pack_one h w v depth) (\<lambda>(w, _). if k' \<noteq> k then Inl Replaced_key else Inr w)))
             ps (wb_push w [COMBINE_TYPE TYPE_TABLE 0]))
       (\<lambda>w. Inr (wb_nil w))"
  by pat_completeness auto
termination
  by (relation "measure (\<lambda>x. case x of
        Inl (Inl (h, w, v, d)) \<Rightarrow> 4 * (34 - d)
      | Inl (Inr (h, w, t, d)) \<Rightarrow> 4 * (34 - d) + 2
      | Inr (Inl (h, w, t, d)) \<Rightarrow> 4 * (34 - d) + 1
      | Inr (Inr (Inl (h, w, t, d, n))) \<Rightarrow> 4 * (34 - d) + 1
      | Inr (Inr (Inr (h, w, ps, d))) \<Rightarrow> 4 * (34 - d) + 1)")
     (auto simp: MAX_DEPTH_def)

declare pack_one.simps [simp del] wb_table.simps [simp del] wb_table_array.simps [simp del]
  wb_table_hash.simps [simp del] wb_table_metapairs.simps [simp del]

definition pack_from :: "host \<Rightarrow> write_block \<Rightarrow> lua_value list \<Rightarrow> seri_error + write_block" where
  "pack_from h w vs = rfold (\<lambda>v w. rbind (pack_one h w v 0) (\<lambda>(w, _). Inr w)) vs w"

text \<open>The buffer and its size, and the string.\<close>

definition luaseri_pack :: "host \<Rightarrow> lua_value list \<Rightarrow> seri_error + (bytes \<times> nat)" where
  "luaseri_pack h vs =
     rbind (pack_from h wb_init vs) (\<lambda>w. rbind (seri (wb_blocks w) (wb_len w)) (\<lambda>bs. Inr (bs, wb_len w)))"

definition luaseri_tostring :: "host \<Rightarrow> lua_value list \<Rightarrow> seri_error + bytes" where
  "luaseri_tostring h vs = rbind (pack_from h wb_init vs) (\<lambda>w. seri (wb_blocks w) (wb_len w))"

section \<open>Reading values\<close>

type_synonym 'a seri_reader = "bytes \<Rightarrow> seri_error + ('a \<times> bytes)"

text \<open>A null result of \<open>rb_read\<close> is none; the sizes that are not negative.\<close>

definition rb_read :: "bytes \<Rightarrow> nat \<Rightarrow> (bytes \<times> bytes) option" where
  "rb_read r sz = (if length r < sz then None else Some (take sz r, drop sz r))"

text \<open>Reading, with an invalid stream reported when the buffer is too short.\<close>

definition rb_get :: "nat \<Rightarrow> bytes seri_reader" where
  "rb_get sz r = (case rb_read r sz of None \<Rightarrow> Inl Invalid_stream | Some (bs, r) \<Rightarrow> Inr (bs, r))"

definition get_integer :: "nat \<Rightarrow> 64 word seri_reader" where
  "get_integer cookie r =
     (if cookie = TYPE_NUMBER_ZERO then Inr (0, r)
      else if cookie = TYPE_NUMBER_BYTE then rbind (rb_get 1 r) (\<lambda>(bs, r). Inr (word_of_nat (le_val bs), r))
      else if cookie = TYPE_NUMBER_WORD then rbind (rb_get 2 r) (\<lambda>(bs, r). Inr (word_of_nat (le_val bs), r))
      else if cookie = TYPE_NUMBER_DWORD
      then rbind (rb_get 4 r) (\<lambda>(bs, r). Inr (word_of_int (sint (word_of_nat (le_val bs) :: 32 word)), r))
      else if cookie = TYPE_NUMBER_QWORD then rbind (rb_get 8 r) (\<lambda>(bs, r). Inr (word_of_nat (le_val bs), r))
      else Inl Invalid_stream)"

definition get_real :: "64 word seri_reader" where
  "get_real r = rbind (rb_get 8 r) (\<lambda>(bs, r). Inr (word_of_nat (le_val bs), r))"

definition get_pointer :: "64 word seri_reader" where
  "get_pointer r = rbind (rb_get 8 r) (\<lambda>(bs, r). Inr (word_of_nat (le_val bs), r))"

text \<open>
  The length is converted to \<open>int\<close>. A negative one passes the test of \<open>rb_read\<close> and makes
  \<open>lua_pushlstring\<close> raise an error for a block that is too big.
\<close>

definition get_buffer :: "nat \<Rightarrow> lua_value seri_reader" where
  "get_buffer len r =
     (let n = sint (word_of_nat len :: 32 word)
      in if n < 0 then Inl Block_too_big else rbind (rb_get (nat n) r) (\<lambda>(bs, r). Inr (LStr bs, r)))"

text \<open>The size of the array part, as an \<open>int\<close>.\<close>

definition get_array_size :: "nat \<Rightarrow> int seri_reader" where
  "get_array_size cookie r =
     (if cookie = MAX_COOKIE - 1
      then rbind (rb_get 1 r) (\<lambda>(bs, r).
             let ty = hd bs; cookie = unat (drop_bit 3 ty)
             in if unat (ty AND 7) \<noteq> TYPE_NUMBER \<or> cookie = TYPE_NUMBER_REAL then Inl Invalid_stream
                else rbind (get_integer cookie r) (\<lambda>(n, r). Inr (sint (ucast n :: 32 word), r)))
      else Inr (int cookie, r))"

definition get_string :: "nat \<Rightarrow> lua_value seri_reader" where
  "get_string cookie r =
     (if cookie = 2 then rbind (rb_get 2 r) (\<lambda>(bs, r). get_buffer (le_val bs) r)
      else if cookie \<noteq> 4 then Inl Invalid_stream
      else rbind (rb_get 4 r) (\<lambda>(bs, r). get_buffer (le_val bs) r))"

definition get_number :: "nat \<Rightarrow> lua_value seri_reader" where
  "get_number cookie r =
     (if cookie = TYPE_NUMBER_REAL then rbind (get_real r) (\<lambda>(d, r). Inr (LNum d, r))
      else rbind (get_integer cookie r) (\<lambda>(i, r). Inr (LInt i, r)))"

text \<open>
  \<open>lua_checkstack\<close> of the interpreter: whether the stack can grow to hold \<open>n\<close> more slots. The slots in
  use are counted from the bottom of the stack of the Lua thread.
\<close>

definition LUAI_MAXSTACK :: nat where "LUAI_MAXSTACK = 1000000"
definition LUA_MINSTACK :: nat where "LUA_MINSTACK = 20"
definition EXTRA_STACK :: nat where "EXTRA_STACK = 5"

definition lua_checkstack :: "nat \<Rightarrow> nat \<Rightarrow> bool" where
  "lua_checkstack used n \<longleftrightarrow> \<not> used + EXTRA_STACK > LUAI_MAXSTACK - n"

text \<open>
  \<open>array_loop\<close> and \<open>hash_loop\<close> are the two loops of \<open>unpack_table\<close>; the table is on the stack, and the
  key while the value is read.
\<close>

function (sequential) unpack_one :: "nat \<Rightarrow> nat \<Rightarrow> lua_value seri_reader"
  and push_value :: "nat \<Rightarrow> nat \<Rightarrow> nat \<Rightarrow> nat \<Rightarrow> lua_value seri_reader"
  and unpack_table :: "nat \<Rightarrow> nat \<Rightarrow> nat \<Rightarrow> lua_value seri_reader"
  and array_loop :: "nat \<Rightarrow> nat \<Rightarrow> nat \<Rightarrow> int \<Rightarrow> lua_value \<Rightarrow> lua_value seri_reader"
  and hash_loop :: "nat \<Rightarrow> nat \<Rightarrow> lua_value \<Rightarrow> lua_value seri_reader" where
  "unpack_one 0 used r = Inl Out_of_fuel"
| "unpack_one (Suc fuel) used r =
     rbind (rb_get 1 r) (\<lambda>(t, r). push_value fuel used (unat (hd t AND 7)) (unat (drop_bit 3 (hd t))) r)"
| "push_value fuel used ty cookie r =
     (if ty = TYPE_NIL then Inr (LNil, r)
      else if ty = TYPE_BOOLEAN then Inr (LBool (cookie \<noteq> 0), r)
      else if ty = TYPE_NUMBER then get_number cookie r
      else if ty = TYPE_USERDATA then rbind (get_pointer r) (\<lambda>(p, r). Inr (LLight p, r))
      else if ty = TYPE_SHORT_STRING then get_buffer cookie r
      else if ty = TYPE_LONG_STRING then get_string cookie r
      else if ty = TYPE_TABLE then unpack_table fuel used cookie r
      else Inl Invalid_stream)"
| "unpack_table fuel used cookie r =
     rbind (get_array_size cookie r) (\<lambda>(n, r).
       if \<not> lua_checkstack used LUA_MINSTACK then Inl Stack_overflow
       else rbind (array_loop fuel (Suc used) 1 n empty_table r) (\<lambda>(t, r). hash_loop fuel (Suc used) t r))"
| "array_loop fuel used i n t r =
     (if int i > n then Inr (t, r)
      else case fuel of 0 \<Rightarrow> Inl Out_of_fuel
      | Suc fuel \<Rightarrow> rbind (unpack_one fuel used r) (\<lambda>(v, r). array_loop fuel used (Suc i) n (lua_rawseti t i v) r))"
| "hash_loop 0 used t r = Inl Out_of_fuel"
| "hash_loop (Suc fuel) used t r =
     rbind (unpack_one fuel used r) (\<lambda>(k, r).
       if k = LNil then Inr (t, r)
       else rbind (unpack_one fuel (Suc used) r) (\<lambda>(v, r).
            case table_key k of None \<Rightarrow> Inl Bad_key
            | Some k \<Rightarrow> hash_loop fuel used (lua_rawset t k v) r))"
  by pat_completeness auto
termination
  by (relation "measure (\<lambda>x. case x of
        Inl (Inl (f, used, r)) \<Rightarrow> 4 * f
      | Inl (Inr (f, used, ty, c, r)) \<Rightarrow> 4 * f + 3
      | Inr (Inl (f, used, c, r)) \<Rightarrow> 4 * f + 2
      | Inr (Inr (Inl (f, used, i, n, t, r))) \<Rightarrow> 4 * f + 1
      | Inr (Inr (Inr (f, used, t, r))) \<Rightarrow> 4 * f + 1)") auto

declare unpack_one.simps [simp del] push_value.simps [simp del] unpack_table.simps [simp del]
  array_loop.simps [simp del] hash_loop.simps [simp del]

text \<open>
  The loop of \<open>luaseri_unpack\<close> ends when no byte is left; it makes room on the stack for every eighth
  value. The argument stays on the stack above the \<open>base\<close> slots of the callers.
\<close>

fun unpack_loop :: "nat \<Rightarrow> nat \<Rightarrow> nat \<Rightarrow> bytes \<Rightarrow> seri_error + lua_value list" where
  "unpack_loop 0 i used r = Inl Out_of_fuel"
| "unpack_loop (Suc fuel) i used r =
     (if i mod 8 = 7 \<and> \<not> lua_checkstack used LUA_MINSTACK then Inl Stack_overflow
      else case rb_read r 1 of None \<Rightarrow> Inr []
      | Some (t, r) \<Rightarrow>
          rbind (push_value fuel used (unat (hd t AND 7)) (unat (drop_bit 3 (hd t))) r) (\<lambda>(v, r).
          rbind (unpack_loop fuel (Suc i) (Suc used) r) (\<lambda>vs. Inr (v # vs))))"

definition luaseri_unpack :: "nat \<Rightarrow> bytes \<Rightarrow> seri_error + lua_value list" where
  "luaseri_unpack base bs = (if bs = [] then Inr [] else unpack_loop (2 * length bs + 2) 0 (Suc base) bs)"

section \<open>The chain of blocks is a buffer\<close>

definition wb_bytes :: "write_block \<Rightarrow> bytes" where
  "wb_bytes w = concat (wb_blocks w)"

definition wb_ok :: "write_block \<Rightarrow> bool" where
  "wb_ok w \<longleftrightarrow> list_all (\<lambda>b. length b = BLOCK_SIZE) (wb_full w) \<and> length (wb_cur w) \<le> BLOCK_SIZE \<and> wb_len w = length (wb_bytes w)"

lemma wb_init_ok: "wb_ok wb_init" "wb_bytes wb_init = []"
  by (simp_all add: wb_init_def wb_ok_def wb_bytes_def wb_blocks_def)

lemma blk_alloc_ok: "wb_ok w \<Longrightarrow> length (wb_cur w) = BLOCK_SIZE \<Longrightarrow> wb_ok (blk_alloc w) \<and> wb_bytes (blk_alloc w) = wb_bytes w"
  by (simp add: blk_alloc_def wb_ok_def wb_bytes_def wb_blocks_def)

lemma wb_append_ok:
  "wb_ok w \<Longrightarrow> length (wb_cur w) + length buf \<le> BLOCK_SIZE \<Longrightarrow>
     wb_ok (w\<lparr>wb_cur := wb_cur w @ buf, wb_len := wb_len w + length buf\<rparr>)
     \<and> wb_bytes (w\<lparr>wb_cur := wb_cur w @ buf, wb_len := wb_len w + length buf\<rparr>) = wb_bytes w @ buf"
  by (simp add: wb_ok_def wb_bytes_def wb_blocks_def)

lemma wb_copy_ok: "wb_ok w \<Longrightarrow> wb_ok (wb_copy w buf) \<and> wb_bytes (wb_copy w buf) = wb_bytes w @ buf"
proof (induction w buf rule: wb_copy.induct)
  case (1 w buf)
  show ?case
  proof (cases "length (wb_cur w) + length buf \<le> BLOCK_SIZE")
    case True
    then show ?thesis using wb_append_ok [OF 1(2)] by (simp add: wb_copy.simps [of w])
  next
    case False
    define c where "c = BLOCK_SIZE - length (wb_cur w)"
    define w1 where "w1 = w\<lparr>wb_cur := wb_cur w @ take c buf, wb_len := wb_len w + c\<rparr>"
    have c: "length (take c buf) = c" "length (wb_cur w) + c = BLOCK_SIZE"
      using False 1(2) by (auto simp: c_def wb_ok_def)
    have w1: "wb_ok w1" "wb_bytes w1 = wb_bytes w @ take c buf"
      using wb_append_ok [OF 1(2), of "take c buf"] c by (simp_all add: w1_def)
    have "wb_copy w buf = wb_copy (blk_alloc w1) (drop c buf)"
      using False by (simp add: wb_copy.simps [of w] c_def [symmetric] w1_def)
    moreover have "wb_ok (blk_alloc w1)" "wb_bytes (blk_alloc w1) = wb_bytes w1"
      using blk_alloc_ok [OF w1(1)] c by (simp_all add: w1_def)
    ultimately show ?thesis using 1(1) [OF False c_def] w1(2) by (simp add: w1_def)
  qed
qed

lemma wb_push_ok: "wb_ok w \<Longrightarrow> wb_ok (wb_push w buf)"
  and wb_bytes_push: "wb_ok w \<Longrightarrow> wb_bytes (wb_push w buf) = wb_bytes w @ buf"
  using wb_copy_ok [of w buf] wb_copy_ok [of "blk_alloc w" buf] blk_alloc_ok [of w] by (auto simp: wb_push_def)

lemma seri_Cons:
  "0 < len \<Longrightarrow> seri (b # bs) len =
     (if len \<ge> BLOCK_SIZE then rbind (seri bs (len - BLOCK_SIZE)) (\<lambda>r. Inr (take BLOCK_SIZE b @ r)) else Inr (take len b))"
  by (cases len) simp_all

lemma seri_blocks:
  assumes "list_all (\<lambda>b. length b = BLOCK_SIZE) bs" "length c \<le> BLOCK_SIZE"
  shows "seri (bs @ [c]) (length (concat bs) + length c) = Inr (concat bs @ c)"
  using assms
proof (induction bs)
  case Nil
  then show ?case by (cases "c = []") (simp_all add: seri_Cons)
next
  case (Cons b bs)
  then have "0 < length b" by (simp add: BLOCK_SIZE_def)
  with Cons show ?case by (simp add: seri_Cons)
qed

lemma seri_ok: "wb_ok w \<Longrightarrow> seri (wb_blocks w) (wb_len w) = Inr (wb_bytes w)"
  using seri_blocks [of "wb_full w" "wb_cur w"] by (simp add: wb_ok_def wb_bytes_def wb_blocks_def)

text \<open>
  C32. The chain of blocks is a flat buffer: after any sequence of pushes, \<open>seri\<close> copies exactly the
  pushed bytes in their order out of the blocks, however they are cut at the block boundaries.
\<close>

theorem seri_pushes:
  "let w = fold (\<lambda>buf w. wb_push w buf) bufs wb_init
   in seri (wb_blocks w) (wb_len w) = Inr (concat bufs) \<and> wb_len w = length (concat bufs)"
proof -
  have "wb_ok w \<Longrightarrow> wb_ok (fold (\<lambda>buf w. wb_push w buf) bufs w)
      \<and> wb_bytes (fold (\<lambda>buf w. wb_push w buf) bufs w) = wb_bytes w @ concat bufs" for w
    by (induction bufs arbitrary: w) (simp_all add: wb_push_ok wb_bytes_push)
  from this [OF wb_init_ok(1)] show ?thesis
    by (simp add: Let_def seri_ok wb_init_ok) (simp add: wb_ok_def wb_init_ok)
qed

section \<open>Reading ends\<close>

lemma rb_get_length: "rb_get n r = Inr (bs, r') \<Longrightarrow> length bs = n \<and> length r = n + length r'"
  by (auto simp: rb_get_def rb_read_def split: if_splits)

lemma rb_get_append [simp]: "length bs = n \<Longrightarrow> rb_get n (bs @ r) = Inr (bs, r)"
  by (simp add: rb_get_def rb_read_def)

lemmas readers = get_integer_def get_real_def get_pointer_def get_buffer_def get_string_def get_number_def get_array_size_def

lemma leaf_lengths:
  "get_integer c r = Inr (i, r') \<Longrightarrow> length r' \<le> length r"
  "get_number c r = Inr (v, r') \<Longrightarrow> length r' \<le> length r"
  "get_buffer n r = Inr (v, r') \<Longrightarrow> length r' \<le> length r"
  "get_string c r = Inr (v, r') \<Longrightarrow> length r' \<le> length r"
  "get_pointer r = Inr (d, r') \<Longrightarrow> length r' \<le> length r"
  "get_array_size c r = Inr (m, r') \<Longrightarrow> length r' \<le> length r"
proof -
  show int: "get_integer c r = Inr (i, r') \<Longrightarrow> length r' \<le> length r" for c r i r'
    by (auto simp: get_integer_def rbind_eq_Inr_iff dest!: rb_get_length split: if_splits)
  show "get_number c r = Inr (v, r') \<Longrightarrow> length r' \<le> length r"
    by (auto simp: get_number_def get_real_def rbind_eq_Inr_iff dest!: rb_get_length int split: if_splits)
  show buf: "get_buffer n r = Inr (v, r') \<Longrightarrow> length r' \<le> length r" for n r v r'
    by (auto simp: get_buffer_def Let_def rbind_eq_Inr_iff dest!: rb_get_length split: if_splits)
  show "get_string c r = Inr (v, r') \<Longrightarrow> length r' \<le> length r"
    by (auto simp: get_string_def rbind_eq_Inr_iff dest!: rb_get_length buf split: if_splits)
  show "get_pointer r = Inr (d, r') \<Longrightarrow> length r' \<le> length r"
    by (auto simp: get_pointer_def rbind_eq_Inr_iff dest!: rb_get_length)
  show "get_array_size c r = Inr (m, r') \<Longrightarrow> length r' \<le> length r"
    by (auto simp: get_array_size_def Let_def rbind_eq_Inr_iff dest!: rb_get_length int split: if_splits)
qed

text \<open>Every value takes at least its byte of type.\<close>

lemma unpack_lengths:
  "unpack_one f used r = Inr (v, r') \<Longrightarrow> length r' < length r"
  "push_value f used ty c r = Inr (v, r') \<Longrightarrow> length r' \<le> length r"
  "unpack_table f used c r = Inr (v, r') \<Longrightarrow> length r' \<le> length r"
  "array_loop f used i n t r = Inr (v, r') \<Longrightarrow> length r' \<le> length r"
  "hash_loop f used t r = Inr (v, r') \<Longrightarrow> length r' < length r"
proof (induction f used r and f used ty c r and f used c r and f used i n t r and f used t r
    arbitrary: v r' and v r' and v r' and v r' and v r'
    rule: unpack_one_push_value_unpack_table_array_loop_hash_loop.induct)
  case (2 fuel used r)
  then show ?case by (fastforce simp: unpack_one.simps rbind_eq_Inr_iff dest: rb_get_length)
next
  case (3 fuel used ty cookie r)
  then show ?case
    by (auto simp: push_value.simps rbind_eq_Inr_iff dest: leaf_lengths split: if_splits)
next
  case (4 fuel used cookie r)
  then show ?case by (fastforce simp: unpack_table.simps rbind_eq_Inr_iff dest: leaf_lengths split: if_splits)
next
  case (5 fuel used i n t r)
  then show ?case by (fastforce simp: array_loop.simps [of fuel] rbind_eq_Inr_iff split: if_splits nat.splits)
next
  case (7 fuel used t r)
  then show ?case by (fastforce simp: hash_loop.simps rbind_eq_Inr_iff split: if_splits option.splits)
qed (simp_all add: unpack_one.simps hash_loop.simps)

lemma rb_get_fuel [simp]: "rb_get n r \<noteq> Inl Out_of_fuel"
  by (simp add: rb_get_def rb_read_def)

lemma rbind_fuel: "rbind m f = Inl e \<longleftrightarrow> m = Inl e \<or> (\<exists>x. m = Inr x \<and> f x = Inl e)"
  by (cases m) simp_all

lemma leaf_fuel [simp]:
  "get_integer c r \<noteq> Inl Out_of_fuel" "get_number c r \<noteq> Inl Out_of_fuel" "get_buffer n r \<noteq> Inl Out_of_fuel"
  "get_string c r \<noteq> Inl Out_of_fuel" "get_pointer r \<noteq> Inl Out_of_fuel" "get_array_size c r \<noteq> Inl Out_of_fuel"
  by (auto simp: readers Let_def rbind_fuel)






lemma luaseri_unpack_loop: "unpack_loop (2 * length bs + 2) 0 (Suc base) bs = luaseri_unpack base bs"
  by (cases "bs = []") (simp_all add: luaseri_unpack_def rb_read_def numeral_2_eq_2)


section \<open>Values written and read\<close>

lemma combine_parts:
  assumes "t < 8" "c < 32"
  shows "unat (COMBINE_TYPE t c AND 7) = t" "unat (drop_bit 3 (COMBINE_TYPE t c)) = c"
proof -
  have "list_all (\<lambda>t. list_all (\<lambda>c. unat (COMBINE_TYPE t c AND 7) = t \<and> unat (drop_bit 3 (COMBINE_TYPE t c)) = c) [0..<32]) [0..<8]"
    by code_simp
  then show "unat (COMBINE_TYPE t c AND 7) = t" "unat (drop_bit 3 (COMBINE_TYPE t c)) = c"
    using assms by (auto simp: list_all_iff)
qed

text \<open>
  A writer that appends given bytes, and bytes that read as a given value when the stack has room for
  \<open>k\<close> more slots.
\<close>

definition emits :: "(write_block \<Rightarrow> write_block) \<Rightarrow> bytes \<Rightarrow> bool" where
  "emits P bs \<longleftrightarrow> (\<forall>w. wb_ok w \<longrightarrow> wb_ok (P w) \<and> wb_bytes (P w) = wb_bytes w @ bs)"

definition STACK_ROOM :: nat where
  "STACK_ROOM = LUAI_MAXSTACK - LUA_MINSTACK - EXTRA_STACK"

definition reads :: "nat \<Rightarrow> lua_value \<Rightarrow> bytes \<Rightarrow> bool" where
  "reads k v bs \<longleftrightarrow> (\<forall>f r used. 2 * length (bs @ r) + 1 \<le> f \<longrightarrow> used + k \<le> STACK_ROOM \<longrightarrow> unpack_one f used (bs @ r) = Inr (v, r))"

lemma checkstack_room: "lua_checkstack used LUA_MINSTACK \<longleftrightarrow> used \<le> STACK_ROOM"
  by (auto simp: lua_checkstack_def STACK_ROOM_def LUAI_MAXSTACK_def LUA_MINSTACK_def EXTRA_STACK_def)

lemma reads_mono: "reads k v bs \<Longrightarrow> k \<le> k' \<Longrightarrow> reads k' v bs"
  by (simp add: reads_def)

lemma emits_push: "emits (\<lambda>w. wb_push w bs) bs"
  by (simp add: emits_def wb_push_ok wb_bytes_push)

lemma emits_seq: "emits P bs \<Longrightarrow> emits Q cs \<Longrightarrow> emits (\<lambda>w. Q (P w)) (bs @ cs)"
  by (simp add: emits_def)

lemma emits_then_push: "emits P bs \<Longrightarrow> emits (\<lambda>w. wb_push (P w) cs) (bs @ cs)"
  by (simp add: emits_def wb_push_ok wb_bytes_push)

lemmas emits_pushes = emits_push emits_then_push [OF emits_push] emits_then_push [OF emits_then_push [OF emits_push]]

lemma unpack_one_byte:
  "unpack_one (Suc f) used (b # r) = push_value f used (unat (b AND 7)) (unat (drop_bit 3 b)) r"
  by (simp add: unpack_one.simps rb_get_def rb_read_def)

lemma readsI:
  assumes "t < 8" "c < 32"
    and "\<And>f r used. 2 * length (bs @ r) + 2 \<le> f \<Longrightarrow> used + k \<le> STACK_ROOM \<Longrightarrow> push_value f used t c (bs @ r) = Inr (v, r)"
  shows "reads k v (COMBINE_TYPE t c # bs)"
  unfolding reads_def
proof (intro allI impI)
  fix f r used
  assume f: "2 * length ((COMBINE_TYPE t c # bs) @ r) + 1 \<le> f" and used: "used + k \<le> STACK_ROOM"
  then obtain f' where "f = Suc f'" by (cases f) simp_all
  with f used assms show "unpack_one f used ((COMBINE_TYPE t c # bs) @ r) = Inr (v, r)"
    by (simp add: unpack_one_byte combine_parts)
qed

lemma get_le:
  fixes v :: "64 word"
  assumes "unat v < 256 ^ n"
  shows "rbind (rb_get n (le_bytes n (unat v) @ r)) (\<lambda>(bs, r). Inr (word_of_nat (le_val bs) :: 64 word, r)) = Inr (v, r)"
  using assms by (simp add: le_val_le_bytes)

lemma integer_codeI:
  assumes "\<And>w. wb_integer w v = wb_push (wb_push w [COMBINE_TYPE TYPE_NUMBER c]) bs" "c < 8"
    and "\<And>r. get_integer c (bs @ r) = Inr (v, r)"
  shows "\<exists>c bs. c < 8 \<and> emits (\<lambda>w. wb_integer w v) (COMBINE_TYPE TYPE_NUMBER c # bs) \<and> (\<forall>r. get_integer c (bs @ r) = Inr (v, r))"
  using assms emits_pushes(2) [of "[COMBINE_TYPE TYPE_NUMBER c]" bs] by (intro exI [of _ c] exI [of _ bs]) simp

lemma wb_integer_code:
  "\<exists>c bs. c < 8 \<and> emits (\<lambda>w. wb_integer w v) (COMBINE_TYPE TYPE_NUMBER c # bs) \<and> (\<forall>r. get_integer c (bs @ r) = Inr (v, r))"
proof (cases "v = 0")
  case True
  then show ?thesis using emits_push [of "[COMBINE_TYPE TYPE_NUMBER 0]"]
    by (intro exI [of _ 0] exI [of _ "[]"]) (simp add: wb_integer_def get_integer_def number_types)
next
  case False
  note defs = wb_integer_def get_integer_def number_types
  show ?thesis
  proof (cases "sint v = sint (ucast v :: 32 word)")
    case False
    have "unat v < 256 ^ 8" using unsigned_less [of v, where 'a = nat] by simp
    then show ?thesis using False \<open>v \<noteq> 0\<close> get_le [of v 8]
      by (intro integer_codeI [of v TYPE_NUMBER_QWORD "le_bytes 8 (unat v)"]) (simp_all add: defs del: le_bytes.simps)
  next
    case True
    have dword: "get_integer TYPE_NUMBER_DWORD (le_bytes 4 (unat v) @ r) = Inr (v, r)" for r
    proof -
      have "(word_of_nat (unat v mod 256 ^ 4) :: 32 word) = ucast v"
        by (simp add: word_unat_eq_iff unat_of_nat unsigned_ucast_eq take_bit_eq_mod)
      moreover have "word_of_int (sint (ucast v :: 32 word)) = v" unfolding True [symmetric] by simp
      ultimately show ?thesis by (simp add: defs le_val_le_bytes del: le_bytes.simps)
    qed
    consider (neg) "sint v < 0" | (byte) "0 \<le> sint v" "sint v < 0x100" | (word) "0x100 \<le> sint v" "sint v < 0x10000"
      | (big) "0x10000 \<le> sint v" by linarith
    then show ?thesis
    proof cases
      case neg
      then show ?thesis using True \<open>v \<noteq> 0\<close> dword
        by (intro integer_codeI [of v TYPE_NUMBER_DWORD "le_bytes 4 (unat v)"]) (simp_all add: wb_integer_def number_types del: le_bytes.simps)
    next
      case byte
      have "unat v < 256" using byte(2) sint_nonneg [OF byte(1)] by linarith
      then show ?thesis using True \<open>v \<noteq> 0\<close> byte get_le [of v 1]
        by (intro integer_codeI [of v TYPE_NUMBER_BYTE "le_bytes 1 (unat v)"]) (simp_all add: defs del: le_bytes.simps)
    next
      case word
      have "sint v = int (unat v)" using word(1) by (intro sint_nonneg) linarith
      then have "unat v < 65536" using word(2) by linarith
      then show ?thesis using True \<open>v \<noteq> 0\<close> word get_le [of v 2]
        by (intro integer_codeI [of v TYPE_NUMBER_WORD "le_bytes 2 (unat v)"]) (simp_all add: defs del: le_bytes.simps)
    next
      case big
      then show ?thesis using True \<open>v \<noteq> 0\<close> dword
        by (intro integer_codeI [of v TYPE_NUMBER_DWORD "le_bytes 4 (unat v)"]) (simp_all add: wb_integer_def number_types del: le_bytes.simps)
    qed
  qed
qed

lemma sint_32_small: "n < 2147483648 \<Longrightarrow> sint (word_of_nat n :: 32 word) = int n"
  by (simp add: signed_of_nat signed_take_bit_int_eq_self)

lemma sint_64_small: "n < 2147483648 \<Longrightarrow> sint (word_of_nat n :: 64 word) = int n"
  by (simp add: signed_of_nat signed_take_bit_int_eq_self)

lemma get_buffer_append: "length s < 2147483648 \<Longrightarrow> get_buffer (length s) (s @ r) = Inr (LStr s, r)"
  by (simp add: get_buffer_def sint_32_small)

text \<open>Packing a value appends its code and leaves it in place.\<close>

definition packs :: "host \<Rightarrow> nat \<Rightarrow> lua_value \<Rightarrow> bytes \<Rightarrow> bool" where
  "packs h d v bs \<longleftrightarrow>
     (\<forall>w. wb_ok w \<longrightarrow> (\<exists>w'. pack_one h w v d = Inr (w', v) \<and> wb_ok w' \<and> wb_bytes w' = wb_bytes w @ bs))"

lemma packsI: "(\<And>w. pack_one h w v d = Inr (P w, v)) \<Longrightarrow> emits P bs \<Longrightarrow> packs h d v bs"
  by (auto simp: packs_def emits_def)

fun is_scalar :: "lua_value \<Rightarrow> bool" where
  "is_scalar (LTable n ps) = False"
| "is_scalar (LOther k) = False"
| "is_scalar (LStr s) \<longleftrightarrow> length s < 2147483648"
| "is_scalar v = True"

lemma string_code:
  assumes "length s < 2147483648"
  shows "\<exists>bs. emits (\<lambda>w. wb_string w s) bs \<and> reads 0 (LStr s) bs"
proof -
  consider (short) "length s < MAX_COOKIE" | (word) "\<not> length s < MAX_COOKIE" "length s < 0x10000"
    | (dword) "\<not> length s < MAX_COOKIE" "\<not> length s < 0x10000" by linarith
  then show ?thesis
  proof cases
    case short
    have "emits (\<lambda>w. wb_string w s) (COMBINE_TYPE TYPE_SHORT_STRING (length s) # s)"
      using short emits_pushes(2) [of "[COMBINE_TYPE TYPE_SHORT_STRING (length s)]" s]
        emits_push [of "[COMBINE_TYPE TYPE_SHORT_STRING (length s)]"] by (cases "s = []") (simp_all add: wb_string_def)
    moreover have "reads 0 (LStr s) (COMBINE_TYPE TYPE_SHORT_STRING (length s) # s)"
      using short assms by (intro readsI) (simp_all add: seri_types MAX_COOKIE_def push_value.simps get_buffer_append)
    ultimately show ?thesis by blast
  next
    case word
    have "emits (\<lambda>w. wb_string w s) (COMBINE_TYPE TYPE_LONG_STRING 2 # le_bytes 2 (length s) @ s)"
      using word emits_pushes(3) [of "[COMBINE_TYPE TYPE_LONG_STRING 2]" "le_bytes 2 (length s)" s]
      by (simp add: wb_string_def del: le_bytes.simps)
    moreover have "reads 0 (LStr s) (COMBINE_TYPE TYPE_LONG_STRING 2 # le_bytes 2 (length s) @ s)"
      using word assms by (intro readsI)
        (simp_all add: seri_types push_value.simps get_string_def le_val_le_bytes get_buffer_append del: le_bytes.simps)
    ultimately show ?thesis by blast
  next
    case dword
    have "emits (\<lambda>w. wb_string w s) (COMBINE_TYPE TYPE_LONG_STRING 4 # le_bytes 4 (length s) @ s)"
      using dword emits_pushes(3) [of "[COMBINE_TYPE TYPE_LONG_STRING 4]" "le_bytes 4 (length s)" s]
      by (simp add: wb_string_def del: le_bytes.simps)
    moreover have "reads 0 (LStr s) (COMBINE_TYPE TYPE_LONG_STRING 4 # le_bytes 4 (length s) @ s)"
      using dword assms by (intro readsI)
        (simp_all add: seri_types push_value.simps get_string_def le_val_le_bytes get_buffer_append del: le_bytes.simps)
    ultimately show ?thesis by blast
  qed
qed

lemma combine_small: "COMBINE_TYPE TYPE_NIL 0 = 0" "COMBINE_TYPE TYPE_USERDATA 0 = 3"
  by (simp_all add: COMBINE_TYPE_def seri_types)

lemma scalar_code:
  assumes "is_scalar v" "d \<le> MAX_DEPTH"
  shows "\<exists>bs. packs h d v bs \<and> reads 0 v bs"
proof -
  have get8: "rbind (rb_get 8 (le_bytes 8 (unat x) @ r)) (\<lambda>(bs, r). Inr (word_of_nat (le_val bs) :: 64 word, r)) = Inr (x, r)"
    for x :: "64 word" and r
    using unsigned_less [of x, where 'a = nat] by (intro get_le) simp
  show ?thesis
  proof (cases v)
    case LNil
    have "reads 0 LNil (COMBINE_TYPE TYPE_NIL 0 # [])" by (rule readsI) (simp_all add: seri_types push_value.simps)
    then show ?thesis using LNil assms(2) emits_push [of "[0]"]
      by (intro exI [of _ "[0]"] conjI packsI [where P = "\<lambda>w. wb_push w [0]"])
         (simp_all add: pack_one.simps wb_nil_def TYPE_NIL_def combine_small [unfolded TYPE_NIL_def])
  next
    case (LBool b)
    then show ?thesis using assms(2) emits_push [of "[COMBINE_TYPE TYPE_BOOLEAN (if b then 1 else 0)]"]
      by (intro exI [of _ "COMBINE_TYPE TYPE_BOOLEAN (if b then 1 else 0) # []"] conjI packsI [where P = "\<lambda>w. wb_boolean w b"] readsI)
         (simp_all add: pack_one.simps wb_boolean_def seri_types push_value.simps)
  next
    case (LInt i)
    obtain c bs where "c < 8" "emits (\<lambda>w. wb_integer w i) (COMBINE_TYPE TYPE_NUMBER c # bs)" "\<And>r. get_integer c (bs @ r) = Inr (i, r)"
      using wb_integer_code by blast
    then show ?thesis using LInt assms(2)
      by (intro exI [of _ "COMBINE_TYPE TYPE_NUMBER c # bs"] conjI packsI [where P = "\<lambda>w. wb_integer w i"] readsI)
         (simp_all add: pack_one.simps seri_types push_value.simps get_number_def TYPE_NUMBER_REAL_def)
  next
    case (LNum x)
    then show ?thesis using assms(2) get8 emits_pushes(2) [of "[COMBINE_TYPE TYPE_NUMBER TYPE_NUMBER_REAL]" "le_bytes 8 (unat x)"]
      by (intro exI [of _ "COMBINE_TYPE TYPE_NUMBER TYPE_NUMBER_REAL # le_bytes 8 (unat x)"] conjI packsI [where P = "\<lambda>w. wb_real w x"] readsI)
         (simp_all add: pack_one.simps wb_real_def seri_types push_value.simps get_number_def get_real_def TYPE_NUMBER_REAL_def del: le_bytes.simps)
  next
    case (LStr s)
    then obtain bs where "emits (\<lambda>w. wb_string w s) bs" "reads 0 (LStr s) bs" using string_code [of s] assms(1) by auto
    then show ?thesis using LStr assms(2)
      by (intro exI [of _ bs] conjI packsI [where P = "\<lambda>w. wb_string w s"]) (simp_all add: pack_one.simps)
  next
    case (LLight x)
    have "reads 0 (LLight x) (COMBINE_TYPE TYPE_USERDATA 0 # le_bytes 8 (unat x))"
      using get8 by (intro readsI) (simp_all add: seri_types push_value.simps get_pointer_def del: le_bytes.simps)
    then show ?thesis using LLight assms(2) emits_pushes(2) [of "[3]" "le_bytes 8 (unat x)"]
      by (intro exI [of _ "3 # le_bytes 8 (unat x)"] conjI packsI [where P = "\<lambda>w. wb_pointer w x"])
         (simp_all add: pack_one.simps wb_pointer_def combine_small, simp_all add: TYPE_USERDATA_def)
  qed (use assms(1) in simp_all)
qed

section \<open>Tables written and read\<close>

text \<open>
  The values the serializer is made for: supported types, at most \<open>MAX_DEPTH\<close> levels, tables without
  hooks of the application, whose keys are no tables. The border of a table is one.
\<close>

function packable :: "host \<Rightarrow> nat \<Rightarrow> lua_value \<Rightarrow> bool" where
  "packable h d v \<longleftrightarrow> d \<le> MAX_DEPTH \<and>
     (case v of LTable n ps \<Rightarrow>
        (lua_rawget v (LStr (str ''__name'')) = LNil \<or> pack_method h v = None) \<and> meta_pairs h v = None
        \<and> n < 2147483648 \<and> (n = 0 \<or> lua_rawgeti v n \<noteq> LNil) \<and> distinct (map fst ps)
        \<and> list_all (\<lambda>(k, x). is_scalar k \<and> table_key k = Some k \<and> x \<noteq> LNil \<and> packable h (Suc d) x) ps
      | _ \<Rightarrow> is_scalar v)"
  by pat_completeness auto
termination by (relation "measure (\<lambda>(h, d, v). size v)") (auto dest: pair_smaller)

declare packable.simps [simp del]

text \<open>What reading gives back: the elements of the array, then the other pairs in their order.\<close>

function rebuild :: "lua_value \<Rightarrow> lua_value" where
  "rebuild v =
     (case v of LTable n ps \<Rightarrow>
        fold (\<lambda>(k, x) t. lua_rawset t k (rebuild x)) (filter (\<lambda>(k, x). \<not> in_array n k) ps)
          (fold (\<lambda>i t. lua_rawseti t i (rebuild (lua_rawgeti v i))) [1..<Suc n] empty_table)
      | _ \<Rightarrow> v)"
  by pat_completeness auto
termination
  by (relation "measure size") (auto dest: pair_smaller simp: lua_rawgeti_def intro: lua_rawget_smaller simp del: lua_value.size)

declare rebuild.simps [simp del]

lemma rebuild_scalar: "is_scalar v \<Longrightarrow> rebuild v = v"
  by (cases v) (simp_all add: rebuild.simps)

lemma array_size_code:
  assumes "n < 2147483648"
  shows "\<exists>c bs. c < 32 \<and> emits (\<lambda>w. wb_array_size w n) (COMBINE_TYPE TYPE_TABLE c # bs)
     \<and> (\<forall>r. get_array_size c (bs @ r) = Inr (int n, r))"
proof (cases "n \<ge> MAX_COOKIE - 1")
  case True
  obtain c bs where c: "c < 8" "emits (\<lambda>w. wb_integer w (word_of_nat n)) (COMBINE_TYPE TYPE_NUMBER c # bs)"
    "\<And>r. get_integer c (bs @ r) = Inr (word_of_nat n, r)" using wb_integer_code by blast
  have "sint (ucast (word_of_nat n :: 64 word) :: 32 word) = int n"
    using assms by (simp add: sint_ucast_32 sint_64_small signed_take_bit_int_eq_self)
  moreover have "rb_get 1 (COMBINE_TYPE TYPE_NUMBER c # r) = Inr ([COMBINE_TYPE TYPE_NUMBER c], r)" for r
    by (simp add: rb_get_def rb_read_def)
  ultimately have "get_array_size 31 ((COMBINE_TYPE TYPE_NUMBER c # bs) @ r) = Inr (int n, r)" for r
    using c(1,3) by (simp add: get_array_size_def MAX_COOKIE_def combine_parts seri_types TYPE_NUMBER_REAL_def)
  moreover have "emits (\<lambda>w. wb_array_size w n) (COMBINE_TYPE TYPE_TABLE 31 # COMBINE_TYPE TYPE_NUMBER c # bs)"
    using emits_seq [OF emits_push [of "[COMBINE_TYPE TYPE_TABLE 31]"] c(2)] True by (simp add: wb_array_size_def MAX_COOKIE_def)
  ultimately show ?thesis by (intro exI [of _ 31] exI [of _ "COMBINE_TYPE TYPE_NUMBER c # bs"]) simp
next
  case False
  then show ?thesis using emits_push [of "[COMBINE_TYPE TYPE_TABLE n]"]
    by (intro exI [of _ n] exI [of _ "[]"]) (simp add: wb_array_size_def get_array_size_def MAX_COOKIE_def)
qed

lemma fuel_step:
  fixes a b c f :: nat
  assumes "2 * (a + b) + 2 \<le> Suc f" "0 < a" "c \<le> b"
  shows "2 * c + 2 \<le> f"
  using assms by presburger

lemma array_loop_reads:
  assumes "\<And>j. i \<le> j \<Longrightarrow> j \<le> m \<Longrightarrow> reads k (val j) (code j)" "2 * length (concat (map code [i..<Suc m]) @ r) + 2 \<le> f"
    and "used + k \<le> STACK_ROOM"
  shows "array_loop f used i (int m) t (concat (map code [i..<Suc m]) @ r) = Inr (fold (\<lambda>j t. lua_rawseti t j (val j)) [i..<Suc m] t, r)"
  using assms(1,2)
proof (induction "Suc m - i" arbitrary: i t f)
  case 0
  then show ?case by (simp add: array_loop.simps [of f])
next
  case (Suc n)
  have "i \<le> m" using Suc.hyps(2) by simp
  then have i: "i \<le> m" "[i..<Suc m] = i # [Suc i..<Suc m]" by (simp_all add: upt_conv_Cons del: upt_Suc)
  let ?rest = "concat (map code [Suc i..<Suc m]) @ r"
  obtain f' where f: "f = Suc f'" using Suc.prems(2) by (cases f) simp_all
  have len: "2 * length (code i @ ?rest) + 2 \<le> Suc f'" using Suc.prems(2) f i(2) by simp
  have u: "unpack_one f' used (code i @ ?rest) = Inr (val i, ?rest)"
    using Suc.prems(1) [of i] i(1) len assms(3) by (simp add: reads_def)
  have "0 < length (code i)" using unpack_lengths(1) [OF u] by simp
  then have "2 * length ?rest + 2 \<le> f'" by (rule fuel_step [OF len [unfolded length_append [of "code i"]]]) simp
  then have "array_loop f' used (Suc i) (int m) (lua_rawseti t i (val i)) ?rest
      = Inr (fold (\<lambda>j t. lua_rawseti t j (val j)) [Suc i..<Suc m] (lua_rawseti t i (val i)), r)"
    using Suc.hyps(2) Suc.prems(1) by (intro Suc.hyps(1)) (simp_all del: upt_Suc)
  then show ?case using u i by (simp add: array_loop.simps [of "Suc f'"] f del: upt_Suc)
qed

lemma hash_loop_end:
  assumes "2 \<le> f"
  shows "hash_loop f used t (0 # r) = Inr (t, r)"
proof -
  obtain f' where f: "f = Suc (Suc f')" using assms by (cases f; cases "f - 1") simp_all
  then show ?thesis by (simp add: hash_loop.simps unpack_one_byte push_value.simps TYPE_NIL_def)
qed

lemma hash_loop_reads:
  assumes "\<And>k x. (k, x) \<in> set ps \<Longrightarrow> reads n k (code k) \<and> reads n (val x) (code x) \<and> table_key k = Some k"
    and "2 * length (concat (map (\<lambda>(k, x). code k @ code x) ps) @ 0 # r) + 2 \<le> f" "Suc used + n \<le> STACK_ROOM"
  shows "hash_loop f used t (concat (map (\<lambda>(k, x). code k @ code x) ps) @ 0 # r)
     = Inr (fold (\<lambda>(k, x) t. lua_rawset t k (val x)) ps t, r)"
  using assms(1,2)
proof (induction ps arbitrary: t f)
  case Nil
  then show ?case by (simp add: hash_loop_end)
next
  case (Cons p ps)
  obtain k x where p: "p = (k, x)" by fastforce
  let ?rest = "concat (map (\<lambda>(k, x). code k @ code x) ps) @ 0 # r"
  obtain f' where f: "f = Suc f'" using Cons.prems(2) by (cases f) simp_all
  have c: "reads n k (code k)" "reads n (val x) (code x)" "table_key k = Some k" using Cons.prems(1) [of k x] p by simp_all
  have len: "2 * length (code k @ code x @ ?rest) + 2 \<le> Suc f'" using Cons.prems(2) f p by simp
  have uk: "unpack_one f' used (code k @ code x @ ?rest) = Inr (k, code x @ ?rest)" using c(1) len assms(3) by (simp add: reads_def)
  have ux: "unpack_one f' (Suc used) (code x @ ?rest) = Inr (val x, ?rest)" using c(2) len assms(3) by (simp add: reads_def)
  have k: "k \<noteq> LNil" using c(3) by auto
  have "0 < length (code k)" using unpack_lengths(1) [OF uk] by simp
  then have "2 * length ?rest + 2 \<le> f'" by (rule fuel_step [OF len [unfolded length_append [of "code k"]]]) simp
  then have "hash_loop f' used (lua_rawset t k (val x)) ?rest = Inr (fold (\<lambda>(k, x) t. lua_rawset t k (val x)) ps (lua_rawset t k (val x)), r)"
    using Cons.prems(1) by (intro Cons.IH) auto
  then show ?case using uk ux c(3) k by (simp add: hash_loop.simps f p)
qed

lemma rfold_packs:
  assumes "\<And>x w. x \<in> set xs \<Longrightarrow> wb_ok w \<Longrightarrow> \<exists>w'. F x w = Inr w' \<and> wb_ok w' \<and> wb_bytes w' = wb_bytes w @ code x" "wb_ok w"
  shows "\<exists>w'. rfold F xs w = Inr w' \<and> wb_ok w' \<and> wb_bytes w' = wb_bytes w @ concat (map code xs)"
  using assms
proof (induction xs arbitrary: w)
  case (Cons x xs)
  obtain w1 where w1: "F x w = Inr w1" "wb_ok w1" "wb_bytes w1 = wb_bytes w @ code x" using Cons.prems by fastforce
  obtain w2 where "rfold F xs w1 = Inr w2" "wb_ok w2" "wb_bytes w2 = wb_bytes w1 @ concat (map code xs)"
    using Cons.IH [OF _ w1(2)] Cons.prems(1) by fastforce
  with w1 show ?case by simp
qed simp

lemma rawget_member: "lua_rawget t k \<noteq> LNil \<Longrightarrow> (k, lua_rawget t k) \<in> set (pairs_of t)"
  by (auto simp: lua_rawget_def split: option.splits dest: map_of_SomeD)

lemma concat_skip: "concat (map (\<lambda>x. if P x then [] else g x) xs) = concat (map g (filter (\<lambda>x. \<not> P x) xs))"
  by (induction xs) auto

text \<open>The two parts of a table, given codes for its keys and members.\<close>

lemma table_packs:
  assumes v: "v = LTable n ps" and plain: "lua_rawget v (LStr (str ''__name'')) = LNil \<or> pack_method h v = None" "meta_pairs h v = None"
    and d: "d \<le> MAX_DEPTH" and size: "emits (\<lambda>w. wb_array_size w n) bs"
    and arr: "\<And>i. i \<in> set [1..<Suc n] \<Longrightarrow> packs h (Suc d) (lua_rawgeti v i) (code (lua_rawgeti v i))"
    and hash: "\<And>k x. (k, x) \<in> set ps \<Longrightarrow> packs h (Suc d) k (code k) \<and> packs h (Suc d) x (code x)"
  shows "packs h d v (bs @ concat (map (\<lambda>i. code (lua_rawgeti v i)) [1..<Suc n])
     @ concat (map (\<lambda>(k, x). code k @ code x) (filter (\<lambda>(k, x). \<not> in_array n k) ps)) @ [0])"
  unfolding packs_def
proof (intro allI impI)
  fix w
  assume "wb_ok w"
  then have w0: "wb_ok (wb_array_size w n)" "wb_bytes (wb_array_size w n) = wb_bytes w @ bs" using size by (simp_all add: emits_def)
  let ?A = "\<lambda>i w. rbind (pack_one h w (lua_rawgeti v i) (Suc d)) (\<lambda>(w, _). Inr w)"
  have "\<exists>w'. rfold ?A [1..<Suc n] (wb_array_size w n) = Inr w' \<and> wb_ok w'
      \<and> wb_bytes w' = wb_bytes (wb_array_size w n) @ concat (map (\<lambda>i. code (lua_rawgeti v i)) [1..<Suc n])"
    using arr by (intro rfold_packs w0(1)) (fastforce simp: packs_def)
  then obtain w1 where w1: "wb_table_array h w v (Suc d) = Inr w1" "wb_ok w1"
    "wb_bytes w1 = wb_bytes w @ bs @ concat (map (\<lambda>i. code (lua_rawgeti v i)) [1..<Suc n])"
    using w0(2) v by (auto simp: wb_table_array.simps simp del: upt_Suc)
  let ?H = "\<lambda>(k, x) w. if in_array n k then Inr w
      else rbind (pack_one h w k (Suc d)) (\<lambda>(w, k'). rbind (pack_one h w x (Suc d)) (\<lambda>(w, _). if k' \<noteq> k then Inl Replaced_key else Inr w))"
  let ?code = "\<lambda>p. if in_array n (fst p) then [] else code (fst p) @ code (snd p)"
  have "\<exists>w'. rfold ?H ps w1 = Inr w' \<and> wb_ok w' \<and> wb_bytes w' = wb_bytes w1 @ concat (map ?code ps)"
  proof (intro rfold_packs w1(2))
    fix p w
    assume p: "p \<in> set ps" and w: "wb_ok w"
    obtain k x where kx: "p = (k, x)" by fastforce
    obtain u1 where u1: "pack_one h w k (Suc d) = Inr (u1, k)" "wb_ok u1" "wb_bytes u1 = wb_bytes w @ code k"
      using hash [of k x] p kx w by (auto simp: packs_def)
    obtain u2 where "pack_one h u1 x (Suc d) = Inr (u2, x)" "wb_ok u2" "wb_bytes u2 = wb_bytes u1 @ code x"
      using hash [of k x] p kx u1(2) by (auto simp: packs_def)
    with u1 w kx show "\<exists>w'. ?H p w = Inr w' \<and> wb_ok w' \<and> wb_bytes w' = wb_bytes w @ ?code p" by simp
  qed
  then obtain w2 where w2: "rfold ?H ps w1 = Inr w2" "wb_ok w2" "wb_bytes w2 = wb_bytes w1 @ concat (map ?code ps)" by blast
  have "pack_one h w v d = Inr (wb_nil w2, v)"
    using d plain w1(1) w2(1) by (auto simp: pack_one.simps v wb_table.simps wb_table_hash.simps Let_def split: option.split)
  then show "\<exists>w'. pack_one h w v d = Inr (w', v) \<and> wb_ok w' \<and> wb_bytes w' = wb_bytes w @ bs
      @ concat (map (\<lambda>i. code (lua_rawgeti v i)) [1..<Suc n])
      @ concat (map (\<lambda>(k, x). code k @ code x) (filter (\<lambda>(k, x). \<not> in_array n k) ps)) @ [0]"
    using w2 w1(3) by (intro exI [of _ "wb_nil w2"])
      (simp add: wb_nil_def wb_push_ok wb_bytes_push TYPE_NIL_def concat_skip case_prod_unfold del: upt_Suc)
qed

lemma table_reads:
  assumes v: "v = LTable n ps" and c: "c < 32" "\<And>r. get_array_size c (bs @ r) = Inr (int n, r)"
    and arr: "\<And>i. i \<in> set [1..<Suc n] \<Longrightarrow> reads m (rebuild (lua_rawgeti v i)) (code (lua_rawgeti v i))"
    and hash: "\<And>k x. (k, x) \<in> set ps \<Longrightarrow> reads m k (code k) \<and> reads m (rebuild x) (code x) \<and> table_key k = Some k"
  shows "reads (m + 2) (rebuild v) (COMBINE_TYPE TYPE_TABLE c # bs @ concat (map (\<lambda>i. code (lua_rawgeti v i)) [1..<Suc n])
     @ concat (map (\<lambda>(k, x). code k @ code x) (filter (\<lambda>(k, x). \<not> in_array n k) ps)) @ [0])"
proof (rule readsI [OF _ c(1)])
  let ?A = "concat (map (\<lambda>i. code (lua_rawgeti v i)) [1..<Suc n])"
  let ?qs = "filter (\<lambda>(k, x). \<not> in_array n k) ps"
  let ?H = "concat (map (\<lambda>(k, x). code k @ code x) ?qs)"
  let ?t = "fold (\<lambda>i t. lua_rawseti t i (rebuild (lua_rawgeti v i))) [1..<Suc n] empty_table"
  fix f r used
  assume f: "2 * length ((bs @ ?A @ ?H @ [0]) @ r) + 2 \<le> f" and room: "used + (m + 2) \<le> STACK_ROOM"
  have "2 * length (?A @ ?H @ 0 # r) + 2 \<le> f" by (rule order_trans [OF _ f]) simp
  then have a: "array_loop f (Suc used) 1 (int n) empty_table (?A @ ?H @ 0 # r) = Inr (?t, ?H @ 0 # r)"
    by (rule array_loop_reads [where k = m, rotated]) (use arr room in \<open>simp_all del: upt_Suc\<close>)
  have "2 * length (?H @ 0 # r) + 2 \<le> f" by (rule order_trans [OF _ f]) simp
  then have h: "hash_loop f (Suc used) ?t (?H @ 0 # r) = Inr (fold (\<lambda>(k, x) t. lua_rawset t k (rebuild x)) ?qs ?t, r)"
    by (rule hash_loop_reads [where n = m, rotated]) (use hash room in auto)
  have "rebuild v = fold (\<lambda>(k, x) t. lua_rawset t k (rebuild x)) ?qs ?t"
    by (subst rebuild.simps) (simp add: v del: upt_Suc)
  then show "push_value f used TYPE_TABLE c ((bs @ ?A @ ?H @ [0]) @ r) = Inr (rebuild v, r)"
    using a h c(2) room by (simp add: push_value.simps seri_types unpack_table.simps checkstack_room del: upt_Suc)
qed (simp add: seri_types)

text \<open>The slots of the stack that a value at a given depth takes: two for every level below.\<close>

definition slots_below :: "nat \<Rightarrow> nat" where
  "slots_below d = 2 * (Suc MAX_DEPTH - d)"

lemma slots_below_Suc: "d \<le> MAX_DEPTH \<Longrightarrow> slots_below d = slots_below (Suc d) + 2"
  by (simp add: slots_below_def)

lemma value_code:
  assumes "packable h d v"
  shows "\<exists>bs. packs h d v bs \<and> reads (slots_below d) (rebuild v) bs"
  using assms
proof (induction v arbitrary: d rule: measure_induct_rule [of size])
  case (less v)
  have d: "d \<le> MAX_DEPTH" using less.prems by (simp add: packable.simps [of h d])
  show ?case
  proof (cases "\<exists>n ps. v = LTable n ps")
    case False
    then have "is_scalar v" using less.prems by (cases v) (simp_all add: packable.simps [of h d])
    then show ?thesis using scalar_code [OF _ d, of v h] rebuild_scalar [of v] reads_mono [of 0 v] by auto
  next
    case True
    then obtain n ps where v: "v = LTable n ps" by blast
    have t: "lua_rawget v (LStr (str ''__name'')) = LNil \<or> pack_method h v = None" "meta_pairs h v = None" "n < 2147483648"
      "n = 0 \<or> lua_rawgeti v n \<noteq> LNil"
      and el: "\<And>k x. (k, x) \<in> set ps \<Longrightarrow> is_scalar k \<and> table_key k = Some k \<and> packable h (Suc d) x"
      using less.prems by (auto simp: packable.simps [of h d] v list_all_iff)
    define good where "good x \<longleftrightarrow> packable h (Suc d) x \<and> (is_scalar x \<or> size x < size v)" for x
    have "\<exists>bs. good x \<longrightarrow> packs h (Suc d) x bs \<and> reads (slots_below (Suc d)) (rebuild x) bs" for x
    proof (cases "is_scalar x \<and> Suc d \<le> MAX_DEPTH")
      case True
      then show ?thesis using scalar_code [of x "Suc d" h] rebuild_scalar [of x] reads_mono [of 0 x] by auto
    next
      case False
      then show ?thesis using less.IH [of x "Suc d"] by (auto simp: good_def packable.simps [of h "Suc d"])
    qed
    then obtain code where code: "\<And>x. good x \<Longrightarrow> packs h (Suc d) x (code x) \<and> reads (slots_below (Suc d)) (rebuild x) (code x)" by metis
    have deep: "Suc d \<le> MAX_DEPTH" if "(k, x) \<in> set ps" for k x using el [OF that] by (simp add: packable.simps [of h "Suc d"])
    have gk: "good k" if "(k, x) \<in> set ps" for k x
      using el [OF that] deep [OF that] by (cases k) (auto simp: good_def packable.simps [of h "Suc d"])
    have gx: "good x" if "(k, x) \<in> set ps" for k x
      using el [OF that] pair_smaller [OF that, of n] by (simp add: good_def v)
    have gi: "good (lua_rawgeti v i)" if "i \<in> set [1..<Suc n]" for i
    proof (cases "lua_rawgeti v i = LNil")
      case True
      have "Suc d \<le> MAX_DEPTH"
        using rawget_member [of v "LInt (word_of_nat n)"] t(4) that deep by (auto simp: v lua_rawgeti_def)
      then show ?thesis using True by (simp add: good_def packable.simps [of h "Suc d"])
    next
      case False
      then show ?thesis using gx rawget_member [of v] by (auto simp: v lua_rawgeti_def)
    qed
    obtain c bs where size: "c < 32" "emits (\<lambda>w. wb_array_size w n) (COMBINE_TYPE TYPE_TABLE c # bs)"
      "\<And>r. get_array_size c (bs @ r) = Inr (int n, r)" using array_size_code [OF t(3)] by blast
    show ?thesis
    proof (intro exI conjI)
      show "packs h d v ((COMBINE_TYPE TYPE_TABLE c # bs) @ concat (map (\<lambda>i. code (lua_rawgeti v i)) [1..<Suc n])
          @ concat (map (\<lambda>(k, x). code k @ code x) (filter (\<lambda>(k, x). \<not> in_array n k) ps)) @ [0])"
        using code gi gk gx by (intro table_packs [OF v t(1,2) d size(2)]) blast+
      show "reads (slots_below d) (rebuild v) ((COMBINE_TYPE TYPE_TABLE c # bs) @ concat (map (\<lambda>i. code (lua_rawgeti v i)) [1..<Suc n])
          @ concat (map (\<lambda>(k, x). code k @ code x) (filter (\<lambda>(k, x). \<not> in_array n k) ps)) @ [0])"
        unfolding append_Cons slots_below_Suc [OF d] by (rule table_reads [OF v size(1,3)]) (use code gi gk gx el rebuild_scalar in \<open>blast, metis\<close>)
    qed
  qed
qed

lemma in_array_iff:
  assumes "n < 2147483648"
  shows "in_array n k \<longleftrightarrow> (\<exists>i \<in> {1..n}. k = LInt (word_of_nat i))"
proof
  assume a: "in_array n k"
  then obtain w where w: "k = LInt w" "0 < sint w" "sint w \<le> int n" by (cases k) simp_all
  have "word_of_int (int (nat (sint w))) = w" using w(2) by simp
  then show "\<exists>i \<in> {1..n}. k = LInt (word_of_nat i)" using w by (intro bexI [of _ "nat (sint w)"]) auto
qed (use assms in \<open>auto simp: sint_64_small\<close>)

lemma find_pairs: "find (\<lambda>p. fst p = k) (filter (\<lambda>p. \<not> P (fst p)) ps) = (if P k then None else map_option (Pair k) (map_of ps k))"
  by (induction ps) auto

lemma rebuild_lookup:
  assumes "packable h d v"
  shows "lua_rawget (rebuild v) k = rebuild (lua_rawget v k)"
proof (cases "\<exists>n ps. v = LTable n ps")
  case False
  then have "is_scalar v" using assms by (cases v) (simp_all add: packable.simps [of h d])
  moreover have "lua_rawget v k = LNil" using False by (cases v) (simp_all add: lua_rawget_def)
  ultimately show ?thesis by (simp add: rebuild_scalar)
next
  case True
  then obtain n ps where v: "v = LTable n ps" by blast
  have n: "n < 2147483648" and dis: "distinct (map fst ps)" using assms by (auto simp: packable.simps [of h d] v)
  let ?key = "\<lambda>i. LInt (word_of_nat i)"
  let ?arr = "fold (\<lambda>i t. lua_rawset t (?key i) (rebuild (lua_rawget v (?key i)))) [1..<Suc n] empty_table"
  have "i = j" if "i \<le> n" "j \<le> n" "word_of_nat i = (word_of_nat j :: 64 word)" for i j
  proof -
    have "int i = int j" using arg_cong [OF that(3), of sint] sint_64_small [of i] sint_64_small [of j] that(1,2) n by linarith
    then show ?thesis by simp
  qed
  then have "distinct (map ?key [1..<Suc n])" by (auto simp: distinct_map inj_on_def simp del: upt_Suc)
  note arr = fold_rawset_lookup [OF this, of "\<lambda>i. rebuild (lua_rawget v (?key i))" empty_table k]
  have "distinct (map fst (filter (\<lambda>p. \<not> in_array n (fst p)) ps))" using dis by (rule distinct_map_filter)
  note hash = fold_rawset_lookup [OF this, of "\<lambda>p. rebuild (snd p)" ?arr k]
  have r: "rebuild v = fold (\<lambda>p t. lua_rawset t (fst p) (rebuild (snd p))) (filter (\<lambda>p. \<not> in_array n (fst p)) ps) ?arr"
    by (subst rebuild.simps) (simp add: v lua_rawseti_def lua_rawgeti_def case_prod_unfold del: upt_Suc)
  have split: "lua_rawget (rebuild v) k = (if in_array n k then lua_rawget ?arr k
      else case map_of ps k of Some x \<Rightarrow> rebuild x | None \<Rightarrow> lua_rawget ?arr k)"
    unfolding r hash find_pairs by (auto split: option.split)
  show ?thesis
  proof (cases "in_array n k")
    case True
    then obtain i where "find (\<lambda>i. ?key i = k) [1..<Suc n] = Some i"
      using in_array_iff [OF n, of k] find_None_iff [of "\<lambda>i. ?key i = k" "[1..<Suc n]"]
      by (cases "find (\<lambda>i. ?key i = k) [1..<Suc n]") fastforce+
    moreover from this have "?key i = k" by (auto simp: find_Some_iff simp del: upt_Suc)
    ultimately show ?thesis using True unfolding split arr by simp
  next
    case False
    then have "find (\<lambda>i. ?key i = k) [1..<Suc n] = None"
      using in_array_iff [OF n, of k] by (fastforce simp: find_None_iff simp del: upt_Suc)
    then have "lua_rawget ?arr k = LNil" unfolding arr by (simp add: empty_table_def lua_rawget_def)
    moreover have "lua_rawget v k = (case map_of ps k of Some x \<Rightarrow> x | None \<Rightarrow> LNil)"
      by (simp add: lua_rawget_def v split: option.split)
    ultimately show ?thesis using False unfolding split by (simp add: rebuild_scalar split: option.split)
  qed
qed

section \<open>Serialization\<close>

text \<open>Following a path of keys into a value.\<close>

fun lookup_path :: "lua_value \<Rightarrow> lua_value list \<Rightarrow> lua_value" where
  "lookup_path v [] = v"
| "lookup_path v (k # ks) = lookup_path (lua_rawget v k) ks"

lemma rawget_packable:
  assumes "packable h d v" "lua_rawget v k \<noteq> LNil"
  shows "packable h (Suc d) (lua_rawget v k)"
proof (cases v)
  case (LTable n ps)
  then show ?thesis using assms(1) rawget_member [OF assms(2)] by (auto simp: packable.simps [of h d] list_all_iff)
qed (use assms(2) in \<open>simp_all add: lua_rawget_def\<close>)

lemma lookup_path_nil: "lookup_path LNil ks = LNil"
  by (induction ks) (simp_all add: lua_rawget_def)

lemma rebuild_path: "packable h d v \<Longrightarrow> lookup_path (rebuild v) ks = rebuild (lookup_path v ks)"
proof (induction ks arbitrary: v d)
  case (Cons k ks)
  show ?case
  proof (cases "lua_rawget v k = LNil")
    case True
    then show ?thesis using rebuild_lookup [OF Cons.prems, of k] by (simp add: lookup_path_nil rebuild_scalar)
  next
    case False
    then show ?thesis using rebuild_lookup [OF Cons.prems, of k] Cons.IH [OF rawget_packable [OF Cons.prems False]] by simp
  qed
qed simp

lemma is_table_rebuild: "is_table (rebuild v) = is_table v"
proof -
  have set: "is_table (fold (\<lambda>x t. lua_rawset t (key x) (val x)) xs t)" if "is_table t" for key val t and xs :: "'x list"
    using that by (induction xs arbitrary: t) (simp_all add: lua_rawset_def)
  show ?thesis
  proof (cases v)
    case (LTable n ps)
    have "is_table (fold (\<lambda>i t. lua_rawseti t i (rebuild (lua_rawgeti v i))) [1..<Suc n] empty_table)"
      unfolding lua_rawseti_def by (rule set) (simp add: empty_table_def)
    then show ?thesis using LTable by (subst rebuild.simps) (simp add: case_prod_unfold set del: upt_Suc)
  qed (simp_all add: rebuild.simps)
qed

lemma unpack_loop_reads:
  assumes "list_all2 (reads k) vs bss" "2 * length (concat bss) + 2 \<le> f" "used + length vs + k \<le> Suc STACK_ROOM"
    and "used + length vs \<le> STACK_ROOM"
  shows "unpack_loop f i used (concat bss) = Inr vs"
  using assms
proof (induction arbitrary: f i used rule: list_all2_induct)
  case Nil
  then show ?case by (cases f) (simp_all add: rb_read_def checkstack_room)
next
  case (Cons v vs bs bss)
  obtain f' where f: "f = Suc f'" using Cons.prems by (cases f) simp_all
  have u: "unpack_one f used (bs @ concat bss) = Inr (v, concat bss)" using Cons.hyps(1) Cons.prems by (simp add: reads_def)
  then obtain b bs' where bs: "bs = b # bs'" using unpack_lengths(1) [OF u] by (cases bs) simp_all
  have "unpack_loop f' (Suc i) (Suc used) (concat bss) = Inr vs" using Cons.prems f bs by (intro Cons.IH) simp_all
  moreover have "lua_checkstack used LUA_MINSTACK" using Cons.prems(3) by (simp add: checkstack_room)
  ultimately show ?case using u by (simp add: f bs unpack_one_byte rb_read_def)
qed

lemma pack_from_code:
  assumes "list_all (packable h 0) vs"
  shows "\<exists>bss w. list_all2 (reads (slots_below 0)) (map rebuild vs) bss \<and> pack_from h wb_init vs = Inr w \<and> wb_ok w \<and> wb_bytes w = concat bss"
proof -
  have "\<forall>v. \<exists>bs. v \<in> set vs \<longrightarrow> packs h 0 v bs \<and> reads (slots_below 0) (rebuild v) bs"
    using assms value_code by (fastforce simp: list_all_iff)
  then obtain code where code: "\<And>v. v \<in> set vs \<Longrightarrow> packs h 0 v (code v) \<and> reads (slots_below 0) (rebuild v) (code v)" by metis
  have "\<exists>w. rfold (\<lambda>v w. rbind (pack_one h w v 0) (\<lambda>(w, _). Inr w)) vs wb_init = Inr w \<and> wb_ok w
      \<and> wb_bytes w = wb_bytes wb_init @ concat (map code vs)"
    using code by (intro rfold_packs wb_init_ok(1)) (fastforce simp: packs_def)
  moreover have "list_all2 (reads (slots_below 0)) (map rebuild vs) (map code vs)" using code by (simp add: list_all2_conv_all_nth)
  ultimately show ?thesis by (intro exI [of _ "map code vs"]) (simp add: pack_from_def wb_init_ok)
qed

text \<open>
  C30. Serialization is lossless: values of the supported types are packed, to a string or to a
  buffer with its size, and unpacking the bytes gives the values again when the Lua stack has room
  for them (it holds a million slots, of which \<open>base\<close> are in use). A value that is no table
  comes back unchanged, and every path of keys leads to the same member in a table and in the
  table that comes back.
\<close>

theorem serialize_roundtrip:
  assumes "list_all (packable h 0) vs" "base + length vs \<le> 999900"
  shows "\<exists>bs us. luaseri_tostring h vs = Inr bs \<and> luaseri_pack h vs = Inr (bs, length bs) \<and> luaseri_unpack base bs = Inr us
     \<and> list_all2 (\<lambda>v u. \<forall>ks. (is_scalar (lookup_path v ks) \<longrightarrow> lookup_path u ks = lookup_path v ks)
          \<and> is_table (lookup_path u ks) = is_table (lookup_path v ks)) vs us"
proof -
  obtain bss w where w: "list_all2 (reads (slots_below 0)) (map rebuild vs) bss" "pack_from h wb_init vs = Inr w" "wb_ok w"
    "wb_bytes w = concat bss"
    using pack_from_code [OF assms(1)] by blast
  have "luaseri_tostring h vs = Inr (concat bss)" using w by (simp add: luaseri_tostring_def seri_ok)
  moreover have "luaseri_pack h vs = Inr (concat bss, length (concat bss))"
    using w by (simp add: luaseri_pack_def seri_ok) (simp add: wb_ok_def)
  moreover have room: "Suc base + length (map rebuild vs) + slots_below 0 \<le> Suc STACK_ROOM" "Suc base + length (map rebuild vs) \<le> STACK_ROOM"
    using assms(2) by (simp_all add: slots_below_def MAX_DEPTH_def STACK_ROOM_def LUAI_MAXSTACK_def LUA_MINSTACK_def EXTRA_STACK_def)
  have "luaseri_unpack base (concat bss) = Inr (map rebuild vs)"
    unfolding luaseri_unpack_loop [symmetric] by (rule unpack_loop_reads [OF w(1) _ room]) simp
  moreover have "list_all2 (\<lambda>v u. \<forall>ks. (is_scalar (lookup_path v ks) \<longrightarrow> lookup_path u ks = lookup_path v ks)
      \<and> is_table (lookup_path u ks) = is_table (lookup_path v ks)) vs (map rebuild vs)"
    using assms(1) rebuild_path [of h 0] rebuild_scalar is_table_rebuild by (simp add: list_all2_conv_all_nth list_all_length)
  ultimately show ?thesis by blast
qed

definition plain_host :: host where
  "plain_host = \<lparr>pack_method = (\<lambda>_. None), meta_pairs = (\<lambda>_. None)\<rparr>"

definition sample_value :: lua_value where
  "sample_value = LTable 2 [(LInt 1, LBool True), (LInt 2, LTable 0 [(LStr (str ''n''), LInt (- 7))]), (LStr (str ''s''), LStr (str ''text''))]"

theorem serialize_roundtrip_witness:
  "\<exists>bs us. luaseri_tostring plain_host [sample_value] = Inr bs \<and> luaseri_unpack 3 bs = Inr us \<and> length us = 1
     \<and> lookup_path (hd us) [LInt 2, LStr (str ''n'')] = LInt (- 7)"
proof -
  have p: "list_all (packable plain_host 0) [sample_value]"
    by (simp add: packable.simps sample_value_def plain_host_def MAX_DEPTH_def lua_rawget_def lua_rawgeti_def str_def)
  have l: "lookup_path sample_value [LInt 2, LStr (str ''n'')] = LInt (- 7)" by (simp add: sample_value_def lua_rawget_def)
  obtain bs us where s: "luaseri_tostring plain_host [sample_value] = Inr bs" "luaseri_unpack 3 bs = Inr us"
    and a: "list_all2 (\<lambda>v u. \<forall>ks. (is_scalar (lookup_path v ks) \<longrightarrow> lookup_path u ks = lookup_path v ks)
          \<and> is_table (lookup_path u ks) = is_table (lookup_path v ks)) [sample_value] us"
    using serialize_roundtrip [OF p, of 3] by auto
  obtain u where u: "us = [u]" "\<And>ks. is_scalar (lookup_path sample_value ks) \<Longrightarrow> lookup_path u ks = lookup_path sample_value ks"
    using a by (auto simp: list_all2_Cons1)
  then show ?thesis using s u(2) [of "[LInt 2, LStr (str ''n'')]"] unfolding l by simp
qed

text \<open>A value nested \<open>n\<close> levels below its outermost table, and its code.\<close>

fun nested :: "nat \<Rightarrow> lua_value" where
  "nested 0 = LTable 0 []"
| "nested (Suc n) = LTable 1 [(LInt 1, nested n)]"

definition nested_code :: "nat \<Rightarrow> bytes" where
  "nested_code n = replicate n 14 @ [6, 0] @ replicate n 0"

lemma combine_tables: "COMBINE_TYPE TYPE_TABLE 0 = 6" "COMBINE_TYPE TYPE_TABLE 1 = 14"
  by code_simp+

lemma nested_code_Suc: "nested_code (Suc n) = COMBINE_TYPE TYPE_TABLE 1 # nested_code n @ [0]"
  by (simp add: nested_code_def combine_tables [unfolded One_nat_def] replicate_append_same)

lemma nested_reads: "reads n (nested n) (nested_code n)"
proof (induction n)
  case 0
  have "reads 0 (LTable 0 []) (COMBINE_TYPE TYPE_TABLE 0 # [0])"
    by (intro readsI) (simp_all add: seri_types push_value.simps unpack_table.simps get_array_size_def MAX_COOKIE_def
        array_loop.simps empty_table_def hash_loop_end checkstack_room)
  then show ?case by (simp add: nested_code_def combine_tables)
next
  case (Suc n)
  show ?case unfolding nested_code_Suc
  proof (rule readsI)
    fix f r used
    assume f: "2 * length ((nested_code n @ [0]) @ r) + 2 \<le> f" and used: "used + Suc n \<le> STACK_ROOM"
    have "array_loop f (Suc used) 1 (int 1) empty_table (nested_code n @ 0 # r) = Inr (lua_rawseti empty_table 1 (nested n), 0 # r)"
      using array_loop_reads [where i = 1 and m = 1 and k = n and val = "\<lambda>_. nested n" and code = "\<lambda>_. nested_code n" and r = "0 # r"]
        Suc f used by simp
    moreover have "hash_loop f (Suc used) t (0 # r) = Inr (t, r)" for t
      using hash_loop_end [of f] f by simp
    moreover have "nested n \<noteq> LNil" by (cases n) simp_all
    ultimately show "push_value f used TYPE_TABLE 1 ((nested_code n @ [0]) @ r) = Inr (nested (Suc n), r)"
      using used by (simp add: push_value.simps seri_types unpack_table.simps get_array_size_def MAX_COOKIE_def checkstack_room)
         (simp add: lua_rawseti_def lua_rawset_def empty_table_def)
  qed (simp_all add: seri_types)
qed

text \<open>Without room on the stack, the reader raises an error.\<close>

lemma nested_overflow:
  assumes "STACK_ROOM < used + n" "2 * length (nested_code n @ r) + 1 \<le> f"
  shows "unpack_one f used (nested_code n @ r) = Inl Stack_overflow"
  using assms
proof (induction n arbitrary: f used r)
  case 0
  obtain f' where f: "f = Suc f'" using 0(2) by (cases f) simp_all
  have "nested_code 0 @ r = COMBINE_TYPE TYPE_TABLE 0 # 0 # r" by (simp add: nested_code_def combine_tables)
  then show ?case using 0(1)
    by (simp add: f unpack_one_byte combine_parts seri_types push_value.simps unpack_table.simps get_array_size_def
        MAX_COOKIE_def checkstack_room)
next
  case (Suc n)
  obtain f' where f: "f = Suc f'" using Suc.prems(2) by (cases f) simp_all
  obtain f'' where f': "f' = Suc f''" using Suc.prems(2) f by (cases f') (simp_all add: nested_code_def)
  have "unpack_one f'' (Suc used) (nested_code n @ 0 # r) = Inl Stack_overflow"
    using Suc.prems f f' by (intro Suc.IH) (simp_all add: nested_code_def)
  then have "array_loop f' (Suc used) 1 1 empty_table (nested_code n @ 0 # r) = Inl Stack_overflow"
    unfolding f' by (simp add: array_loop.simps [of "Suc f''"])
  then show ?case unfolding nested_code_Suc f
    by (simp add: unpack_one_byte combine_parts seri_types push_value.simps unpack_table.simps get_array_size_def MAX_COOKIE_def)
qed

lemma nested_pack:
  assumes "meta_pairs h = (\<lambda>_. None)" "MAX_DEPTH < d + n"
  shows "pack_one h w (nested n) d = Inl Too_deep"
  using assms(2)
proof (induction n arbitrary: d w)
  case (Suc n)
  have "wb_table h w (nested (Suc n)) (Suc d) = Inl Too_deep"
    using Suc.IH [of "Suc d"] Suc.prems assms(1)
    by (simp add: wb_table.simps wb_table_array.simps lua_rawget_def lua_rawgeti_def)
  then show ?case by (simp add: pack_one.simps)
qed (simp add: pack_one.simps)

text \<open>
  C33. Only the writer bounds the nesting at \<open>MAX_DEPTH\<close> levels: a value nested deeper is refused, but
  \<open>2 * n + 2\<close> bytes make the reader build a value of \<open>n\<close> levels, with as many nested calls, for every \<open>n\<close>
  for which the Lua stack of a million slots has room, and raise an error beyond that.
\<close>

theorem unpack_depth_limit:
  assumes "meta_pairs h = (\<lambda>_. None)" "MAX_DEPTH < n"
  shows "luaseri_tostring h [nested n] = Inl Too_deep \<and> length (nested_code n) = 2 * n + 2
     \<and> luaseri_unpack base (nested_code n) = (if base + n < 999975 then Inr [nested n] else Inl Stack_overflow)"
proof -
  let ?f = "2 * length (nested_code n) + 2"
  have "luaseri_tostring h [nested n] = Inl Too_deep"
    using nested_pack [OF assms(1), of 0 n] assms(2) by (simp add: luaseri_tostring_def pack_from_def)
  moreover have room: "STACK_ROOM = 999975"
    by (simp add: STACK_ROOM_def LUAI_MAXSTACK_def LUA_MINSTACK_def EXTRA_STACK_def)
  have "unpack_loop ?f 0 (Suc base) (nested_code n) = (if base + n < 999975 then Inr [nested n] else Inl Stack_overflow)"
  proof (cases "base + n < 999975")
    case True
    have "unpack_loop ?f 0 (Suc base) (concat [nested_code n]) = Inr [nested n]"
      by (rule unpack_loop_reads [of n]) (use True assms(2) nested_reads in \<open>simp_all add: room MAX_DEPTH_def\<close>)
    then show ?thesis using True by simp
  next
    case False
    have "unpack_one ?f (Suc base) (nested_code n @ []) = Inl Stack_overflow"
      using False by (intro nested_overflow) (simp_all add: room)
    moreover obtain b bs where "nested_code n = b # bs" by (cases "nested_code n") (simp_all add: nested_code_def)
    ultimately show ?thesis using False by (simp add: numeral_2_eq_2 unpack_one_byte rb_read_def)
  qed
  ultimately show ?thesis unfolding luaseri_unpack_loop by (simp add: nested_code_def)
qed

theorem unpack_depth_limit_witness:
  "luaseri_unpack 10 (nested_code 900000) = Inr [nested 900000] \<and> luaseri_unpack 10 (nested_code 1000000) = Inl Stack_overflow"
  using unpack_depth_limit [of plain_host 900000 10] unpack_depth_limit [of plain_host 1000000 10]
  by (simp add: plain_host_def MAX_DEPTH_def)

end
