(* ===== verification/Min_Heap.thy ===== *)
theory Min_Heap
  imports Prelude
begin

text \<open>
  The binary heap of \<open>src/luaclib/minheap.c\<close>. The array of element pointers starts at index 1 and
  the elements store their own position. The array is a map from indices to elements, where none is
  a null pointer, the positions are a map from elements to indices, and 0 means not in a heap. The
  comparison function is a parameter of the operations.

  The operations do not fault: the map is total, and following a null pointer gives an unspecified
  element. The invariant keeps the elements in the indices from 1 to the size, without null
  pointers, and the size within the capacity; the lemmas about the operations assume it and show
  that it is kept. The capacity and the size, \<open>int\<close> in the code, are natural numbers: doubling
  the capacity overflows only with more than \<open>2^30\<close> elements.

  The structural invariant needs nothing of the comparison, the order of the heap needs it to
  compare keys of a linear order.
\<close>

section \<open>Data\<close>

record 'e minheap =
  mh_cap :: nat
  mh_size :: nat
  mh_elts :: "nat \<Rightarrow> 'e option"
  mh_index :: "'e \<Rightarrow> nat"

definition heap_at :: "'e minheap \<Rightarrow> nat \<Rightarrow> 'e" where
  "heap_at mh i = the (mh_elts mh i)"

section \<open>Operations\<close>

definition minheap_create :: "nat \<Rightarrow> 'e minheap" where
  "minheap_create cap = \<lparr>mh_cap = cap, mh_size = 0, mh_elts = (\<lambda>_. None), mh_index = (\<lambda>_. 0)\<rparr>"

text \<open>The part of clearing that concerns the heap; a callback also resets the position.\<close>

definition minheap_clear :: "'e minheap \<Rightarrow> 'e minheap" where
  "minheap_clear mh =
     (fold (\<lambda>i mh. mh\<lparr>mh_index := (mh_index mh)(heap_at mh i := 0)\<rparr>) [1..<Suc (mh_size mh)] mh)\<lparr>mh_size := 0\<rparr>"

definition minheap_top :: "'e minheap \<Rightarrow> 'e option" where
  "minheap_top mh = (if mh_size mh > 0 then mh_elts mh 1 else None)"

definition swap :: "'e minheap \<Rightarrow> nat \<Rightarrow> nat \<Rightarrow> 'e minheap" where
  "swap mh index0 index1 =
     (let elts = (mh_elts mh)(index0 := mh_elts mh index1, index1 := mh_elts mh index0)
      in mh\<lparr>mh_elts := elts,
            mh_index := (mh_index mh)(the (elts index0) := index0, the (elts index1) := index1)\<rparr>)"

lemma swap_simps [simp]: "mh_size (swap mh i j) = mh_size mh" "mh_cap (swap mh i j) = mh_cap mh"
  by (simp_all add: swap_def Let_def)

function up :: "('e \<Rightarrow> 'e \<Rightarrow> bool) \<Rightarrow> 'e minheap \<Rightarrow> nat \<Rightarrow> 'e minheap" where
  "up lt mh index =
     (let parent = index div 2
      in if parent \<ge> 1 \<and> lt (heap_at mh index) (heap_at mh parent)
         then up lt (swap mh index parent) parent else mh)"
  by pat_completeness auto
termination by (relation "measure (\<lambda>(lt, mh, index). index)") auto

declare up.simps [simp del]

text \<open>The smallest of an element and its children.\<close>

definition smallest :: "('e \<Rightarrow> 'e \<Rightarrow> bool) \<Rightarrow> 'e minheap \<Rightarrow> nat \<Rightarrow> nat" where
  "smallest lt mh index =
     (let l = index * 2; r = index * 2 + 1;
          m = (if l \<le> mh_size mh \<and> lt (heap_at mh l) (heap_at mh index) then l else index)
      in if r \<le> mh_size mh \<and> lt (heap_at mh r) (heap_at mh m) then r else m)"

lemma smallest_cases: "smallest lt mh i = i \<or> (smallest lt mh i \<in> {i * 2, i * 2 + 1} \<and> i < smallest lt mh i \<and> smallest lt mh i \<le> mh_size mh)"
  by (auto simp: smallest_def Let_def)

function down :: "('e \<Rightarrow> 'e \<Rightarrow> bool) \<Rightarrow> 'e minheap \<Rightarrow> nat \<Rightarrow> 'e minheap" where
  "down lt mh index =
     (if index \<le> mh_size mh
      then (let m = smallest lt mh index in if m \<noteq> index then down lt (swap mh index m) m else mh)
      else mh)"
  by pat_completeness auto
termination
proof (relation "measure (\<lambda>(lt, mh, index). Suc (mh_size mh) - index)")
  fix lt :: "'e \<Rightarrow> 'e \<Rightarrow> bool" and mh i m
  assume "i \<le> mh_size mh" "m = smallest lt mh i" "m \<noteq> i"
  then show "((lt, swap mh i m, m), lt, mh, i) \<in> measure (\<lambda>(lt, mh, index). Suc (mh_size mh) - index)"
    using smallest_cases [of lt mh i] by auto
qed simp

declare down.simps [simp del]

definition minheap_change :: "('e \<Rightarrow> 'e \<Rightarrow> bool) \<Rightarrow> 'e minheap \<Rightarrow> 'e \<Rightarrow> 'e minheap" where
  "minheap_change lt mh elt =
     (let index = mh_index mh elt; mh = down lt mh index
      in if index = mh_index mh elt then up lt mh index else mh)"

definition minheap_delete :: "('e \<Rightarrow> 'e \<Rightarrow> bool) \<Rightarrow> 'e minheap \<Rightarrow> 'e \<Rightarrow> 'e minheap" where
  "minheap_delete lt mh elt =
     (if mh_size mh > 0
      then if mh_size mh = 1 \<or> mh_index mh elt = mh_size mh
           then mh\<lparr>mh_elts := (mh_elts mh)(mh_size mh := None), mh_size := mh_size mh - 1\<rparr>
           else (let tail = heap_at mh (mh_size mh);
                     mh = swap mh (mh_index mh elt) (mh_size mh);
                     mh = mh\<lparr>mh_elts := (mh_elts mh)(mh_size mh := None), mh_size := mh_size mh - 1\<rparr>;
                     index = mh_index mh tail;
                     mh = down lt mh index
                 in if index = mh_index mh tail then up lt mh index else mh)
      else mh)"

definition minheap_push :: "('e \<Rightarrow> 'e \<Rightarrow> bool) \<Rightarrow> 'e minheap \<Rightarrow> 'e \<Rightarrow> 'e minheap" where
  "minheap_push lt mh elt =
     (if mh_index mh elt \<noteq> 0 then minheap_change lt mh elt
      else (let mh = (if mh_size mh + 1 \<ge> mh_cap mh then mh\<lparr>mh_cap := mh_cap mh * 2\<rparr> else mh);
                n = Suc (mh_size mh);
                mh = mh\<lparr>mh_size := n, mh_elts := (mh_elts mh)(n := Some elt), mh_index := (mh_index mh)(elt := n)\<rparr>
            in up lt mh (mh_index mh elt)))"

definition minheap_pop :: "('e \<Rightarrow> 'e \<Rightarrow> bool) \<Rightarrow> 'e minheap \<Rightarrow> 'e option \<times> 'e minheap" where
  "minheap_pop lt mh =
     (if mh_size mh > 0
      then (let elt = heap_at mh 1;
                mh = swap mh 1 (mh_size mh);
                mh = mh\<lparr>mh_elts := (mh_elts mh)(mh_size mh := None), mh_size := mh_size mh - 1\<rparr>;
                mh = down lt mh 1
            in (Some elt, mh\<lparr>mh_index := (mh_index mh)(elt := 0)\<rparr>))
      else (None, mh))"

section \<open>Structure\<close>

definition contents :: "'e minheap \<Rightarrow> 'e set" where
  "contents mh = heap_at mh ` {1..mh_size mh}"

text \<open>Every position is filled and known to its element, and there is room for one more.\<close>

definition heap_wf :: "'e minheap \<Rightarrow> bool" where
  "heap_wf mh \<longleftrightarrow> mh_size mh < mh_cap mh
     \<and> (\<forall>i. 1 \<le> i \<and> i \<le> mh_size mh \<longrightarrow> mh_elts mh i \<noteq> None \<and> mh_index mh (heap_at mh i) = i)"

text \<open>Elements outside of the heap have position 0.\<close>

definition heap_clean :: "'e minheap \<Rightarrow> bool" where
  "heap_clean mh \<longleftrightarrow> (\<forall>e. e \<notin> contents mh \<longrightarrow> mh_index mh e = 0)"

lemma heap_at_index: "heap_wf mh \<Longrightarrow> e \<in> contents mh \<Longrightarrow> heap_at mh (mh_index mh e) = e \<and> 1 \<le> mh_index mh e \<and> mh_index mh e \<le> mh_size mh"
  by (auto simp: heap_wf_def contents_def)

lemma heap_at_inj: "heap_wf mh \<Longrightarrow> 1 \<le> i \<Longrightarrow> i \<le> mh_size mh \<Longrightarrow> 1 \<le> j \<Longrightarrow> j \<le> mh_size mh \<Longrightarrow> heap_at mh i = heap_at mh j \<longleftrightarrow> i = j"
  by (metis heap_wf_def)

lemma swap_at: "heap_at (swap mh i j) k = heap_at mh (if k = j then i else if k = i then j else k)"
  by (simp add: swap_def Let_def heap_at_def)

lemma swap_index: "mh_index (swap mh i j) = (mh_index mh)(heap_at mh j := (if i = j then j else i), heap_at mh i := j)"
  by (simp add: swap_def Let_def heap_at_def)

lemma swap_elts: "mh_elts (swap mh i j) k = mh_elts mh (if k = j then i else if k = i then j else k)"
  by (simp add: swap_def Let_def)

text \<open>A rearrangement: the same elements, still well-formed, nothing else touched.\<close>

definition rearranged :: "'e minheap \<Rightarrow> 'e minheap \<Rightarrow> bool" where
  "rearranged mh mh' \<longleftrightarrow> heap_wf mh' \<and> contents mh' = contents mh \<and> mh_size mh' = mh_size mh \<and> mh_cap mh' = mh_cap mh
     \<and> (\<forall>e. e \<notin> contents mh \<longrightarrow> mh_index mh' e = mh_index mh e)
     \<and> (\<forall>i. mh_size mh < i \<longrightarrow> mh_elts mh' i = mh_elts mh i)"

lemma rearranged_refl: "heap_wf mh \<Longrightarrow> rearranged mh mh"
  by (simp add: rearranged_def)

lemma rearranged_trans: "rearranged a b \<Longrightarrow> rearranged b c \<Longrightarrow> rearranged a c"
  by (simp add: rearranged_def)

lemma swap_contents:
  assumes "1 \<le> i" "i \<le> mh_size mh" "1 \<le> j" "j \<le> mh_size mh"
  shows "contents (swap mh i j) = contents mh"
proof -
  let ?f = "\<lambda>k. if k = j then i else if k = i then j else k"
  have f: "?f k \<in> {1..mh_size mh}" if "k \<in> {1..mh_size mh}" for k using that assms by simp
  have "heap_at (swap mh i j) k \<in> contents mh" if "k \<in> {1..mh_size mh}" for k
    unfolding swap_at contents_def by (rule imageI [OF f [OF that]])
  moreover have "heap_at mh k \<in> contents (swap mh i j)" if "k \<in> {1..mh_size mh}" for k
  proof -
    have "heap_at mh k = heap_at (swap mh i j) (?f k)" by (simp add: swap_at)
    then show ?thesis using f [OF that] unfolding contents_def swap_simps by (rule image_eqI)
  qed
  ultimately show ?thesis unfolding contents_def [of "swap mh i j"] swap_simps contents_def [of mh] by blast
qed

lemma swap_wf:
  assumes "heap_wf mh" "1 \<le> i" "i \<le> mh_size mh" "1 \<le> j" "j \<le> mh_size mh"
  shows "heap_wf (swap mh i j)"
  unfolding heap_wf_def
proof (intro conjI allI impI)
  fix k
  assume k: "1 \<le> k \<and> k \<le> mh_size (swap mh i j)"
  let ?k = "if k = j then i else if k = i then j else k"
  have k': "1 \<le> ?k" "?k \<le> mh_size mh" using k assms(2-5) by auto
  then have at: "mh_elts mh ?k \<noteq> None" "mh_index mh (heap_at mh ?k) = ?k" using assms(1) unfolding heap_wf_def by blast+
  show "mh_elts (swap mh i j) k \<noteq> None" unfolding swap_elts by (rule at(1))
  have "heap_at mh ?k = heap_at mh i \<longleftrightarrow> ?k = i" "heap_at mh ?k = heap_at mh j \<longleftrightarrow> ?k = j"
    using heap_at_inj [OF assms(1) k'] assms(2-5) by auto
  then show "mh_index (swap mh i j) (heap_at (swap mh i j) k) = k"
    using at(2) unfolding swap_index swap_at by auto
qed (use assms(1) in \<open>simp add: heap_wf_def\<close>)

lemma swap_rearranged:
  assumes "heap_wf mh" "1 \<le> i" "i \<le> mh_size mh" "1 \<le> j" "j \<le> mh_size mh"
  shows "rearranged mh (swap mh i j)"
proof -
  have "mh_index (swap mh i j) e = mh_index mh e" if "e \<notin> contents mh" for e
    using that assms(2-5) by (auto simp: swap_index contents_def)
  then show ?thesis using swap_wf [OF assms] swap_contents [OF assms(2-5)] assms(3,5) by (simp add: rearranged_def swap_elts)
qed

lemma up_rearranged:
  assumes "heap_wf mh" "1 \<le> i" "i \<le> mh_size mh"
  shows "rearranged mh (up lt mh i)"
  using assms
proof (induction lt mh i rule: up.induct)
  case (1 lt mh i)
  show ?case
  proof (cases "i div 2 \<ge> 1 \<and> lt (heap_at mh i) (heap_at mh (i div 2))")
    case True
    have p: "1 \<le> i div 2" "i div 2 \<le> mh_size mh" using True 1(4) by auto
    have s: "rearranged mh (swap mh i (i div 2))" by (rule swap_rearranged [OF 1(2-4) p])
    then have "rearranged (swap mh i (i div 2)) (up lt (swap mh i (i div 2)) (i div 2))"
      using p by (intro 1(1) [OF refl True]) (simp_all add: rearranged_def)
    then show ?thesis using True rearranged_trans [OF s] by (simp add: up.simps [of lt mh i] Let_def)
  next
    case False
    then show ?thesis using rearranged_refl [OF 1(2)] by (auto simp: up.simps [of lt mh i] Let_def)
  qed
qed

text \<open>Moving down, an element never gets above the place where it starts.\<close>

lemma down_rearranged:
  assumes "heap_wf mh" "1 \<le> i" "i \<le> mh_size mh"
  shows "rearranged mh (down lt mh i) \<and> i \<le> mh_index (down lt mh i) (heap_at mh i)"
  using assms
proof (induction lt mh i rule: down.induct)
  case (1 lt mh i)
  define m where "m = smallest lt mh i"
  show ?case
  proof (cases "m = i")
    case True
    then show ?thesis using rearranged_refl [OF 1(2)] 1(2-4) by (simp add: down.simps [of lt mh i] m_def Let_def heap_wf_def)
  next
    case False
    have m: "1 \<le> m" "m \<le> mh_size mh" "i < m" using smallest_cases [of lt mh i] False 1(3) by (auto simp: m_def)
    have s: "rearranged mh (swap mh i m)" by (rule swap_rearranged [OF 1(2-4) m(1,2)])
    then have "rearranged (swap mh i m) (down lt (swap mh i m) m) \<and> m \<le> mh_index (down lt (swap mh i m) m) (heap_at (swap mh i m) m)"
      using m 1(4) by (intro 1(1) [OF _ m_def]) (simp_all add: rearranged_def False)
    moreover have "down lt mh i = down lt (swap mh i m) m"
      using False 1(4) by (simp add: down.simps [of lt mh i] m_def [symmetric] Let_def)
    ultimately show ?thesis using rearranged_trans [OF s] m(3) by (simp add: swap_at)
  qed
qed

text \<open>The common end of changing and deleting: restore the order around one position.\<close>

definition settle :: "('e \<Rightarrow> 'e \<Rightarrow> bool) \<Rightarrow> 'e minheap \<Rightarrow> nat \<Rightarrow> 'e \<Rightarrow> 'e minheap" where
  "settle lt mh index elt =
     (let mh' = down lt mh index in if index = mh_index mh' elt then up lt mh' index else mh')"

lemma settle_rearranged:
  assumes "heap_wf mh" "1 \<le> i" "i \<le> mh_size mh"
  shows "rearranged mh (settle lt mh i e)"
proof -
  have d: "rearranged mh (down lt mh i)" using down_rearranged [OF assms] by blast
  then have "rearranged (down lt mh i) (up lt (down lt mh i) i)"
    using assms by (intro up_rearranged) (simp_all add: rearranged_def)
  then show ?thesis using d rearranged_trans [OF d] by (simp add: settle_def Let_def)
qed

lemma minheap_change_settle: "minheap_change lt mh e = settle lt mh (mh_index mh e) e"
  by (simp add: minheap_change_def settle_def Let_def)

lemma minheap_change_rearranged: "heap_wf mh \<Longrightarrow> e \<in> contents mh \<Longrightarrow> rearranged mh (minheap_change lt mh e)"
  using heap_at_index [of mh e] by (simp add: minheap_change_settle settle_rearranged)

lemma rearranged_clean: "rearranged mh mh' \<Longrightarrow> heap_clean mh \<Longrightarrow> heap_clean mh'"
  by (simp add: rearranged_def heap_clean_def)

text \<open>Appending an element, and dropping the last one.\<close>

definition heap_append :: "'e minheap \<Rightarrow> 'e \<Rightarrow> 'e minheap" where
  "heap_append mh e =
     (let mh = (if mh_size mh + 1 \<ge> mh_cap mh then mh\<lparr>mh_cap := mh_cap mh * 2\<rparr> else mh); n = Suc (mh_size mh)
      in mh\<lparr>mh_size := n, mh_elts := (mh_elts mh)(n := Some e), mh_index := (mh_index mh)(e := n)\<rparr>)"

definition drop_last :: "'e minheap \<Rightarrow> 'e minheap" where
  "drop_last mh = mh\<lparr>mh_elts := (mh_elts mh)(mh_size mh := None), mh_size := mh_size mh - 1\<rparr>"

lemma heap_append_simps [simp]:
  "mh_size (heap_append mh e) = Suc (mh_size mh)" "mh_index (heap_append mh e) = (mh_index mh)(e := Suc (mh_size mh))"
  "heap_at (heap_append mh e) i = (if i = Suc (mh_size mh) then e else heap_at mh i)"
  by (simp_all add: heap_append_def heap_at_def Let_def)

lemma heap_append_wf:
  assumes "heap_wf mh" "e \<notin> contents mh"
  shows "heap_wf (heap_append mh e)" "contents (heap_append mh e) = insert e (contents mh)"
proof -
  show "heap_wf (heap_append mh e)"
    using assms by (auto simp: heap_wf_def heap_append_def heap_at_def contents_def Let_def le_Suc_eq)
  have "{1..Suc (mh_size mh)} = insert (Suc (mh_size mh)) {1..mh_size mh}" by auto
  then show "contents (heap_append mh e) = insert e (contents mh)" by (auto simp: contents_def)
qed

lemma drop_last_simps [simp]:
  "mh_size (drop_last mh) = mh_size mh - 1" "mh_index (drop_last mh) = mh_index mh" "mh_cap (drop_last mh) = mh_cap mh"
  "i \<noteq> mh_size mh \<Longrightarrow> heap_at (drop_last mh) i = heap_at mh i"
  by (simp_all add: drop_last_def heap_at_def)

lemma drop_last_wf:
  assumes "heap_wf mh" "0 < mh_size mh"
  shows "heap_wf (drop_last mh)" "contents (drop_last mh) = contents mh - {heap_at mh (mh_size mh)}"
proof -
  show "heap_wf (drop_last mh)" using assms by (auto simp: heap_wf_def drop_last_def heap_at_def)
  have "contents (drop_last mh) = heap_at mh ` {1..mh_size mh - 1}"
    unfolding contents_def by (rule image_cong) (use assms(2) in auto)
  moreover have "{1..mh_size mh - 1} = {1..mh_size mh} - {mh_size mh}" by auto
  moreover have "heap_at mh ` ({1..mh_size mh} - {mh_size mh}) = heap_at mh ` {1..mh_size mh} - heap_at mh ` {mh_size mh}"
    using heap_at_inj [OF assms(1)] assms(2) by (intro inj_on_image_set_diff [of _ "{1..mh_size mh}"]) (auto simp: inj_on_def)
  ultimately show "contents (drop_last mh) = contents mh - {heap_at mh (mh_size mh)}" by (simp add: contents_def)
qed

lemma minheap_push_fresh: "mh_index mh e = 0 \<Longrightarrow> minheap_push lt mh e = up lt (heap_append mh e) (Suc (mh_size mh))"
  by (simp add: minheap_push_def heap_append_def Let_def)

lemma minheap_push_wf:
  assumes "heap_wf mh" "heap_clean mh"
  shows "heap_wf (minheap_push lt mh e) \<and> heap_clean (minheap_push lt mh e) \<and> contents (minheap_push lt mh e) = insert e (contents mh)"
proof (cases "e \<in> contents mh")
  case True
  then have "minheap_push lt mh e = minheap_change lt mh e" using heap_at_index [OF assms(1) True] by (simp add: minheap_push_def)
  moreover have "rearranged mh (minheap_change lt mh e)" using assms(1) True by (rule minheap_change_rearranged)
  ultimately show ?thesis using rearranged_clean [OF _ assms(2)] True by (auto simp: rearranged_def)
next
  case False
  then have z: "mh_index mh e = 0" using assms(2) by (simp add: heap_clean_def)
  note a = heap_append_wf [OF assms(1) False]
  have r: "rearranged (heap_append mh e) (minheap_push lt mh e)"
    using up_rearranged [OF a(1), of "Suc (mh_size mh)" lt] by (simp add: minheap_push_fresh [OF z])
  have "heap_clean (heap_append mh e)" using assms(2) by (simp add: heap_clean_def a(2))
  then show ?thesis using r a(2) rearranged_clean [OF r] by (simp add: rearranged_def)
qed

text \<open>The heap between the removal of the last position and the repair.\<close>

lemma minheap_pop_last:
  "0 < mh_size mh \<Longrightarrow> minheap_pop lt mh =
     (let mh' = down lt (drop_last (swap mh 1 (mh_size mh))) 1
      in (Some (heap_at mh 1), mh'\<lparr>mh_index := (mh_index mh')(heap_at mh 1 := 0)\<rparr>))"
  by (simp add: minheap_pop_def drop_last_def Let_def)

lemma swap_drop_last:
  assumes "heap_wf mh" "1 \<le> i" "i \<le> mh_size mh"
  shows "heap_wf (drop_last (swap mh i (mh_size mh)))"
    "contents (drop_last (swap mh i (mh_size mh))) = contents mh - {heap_at mh i}"
    "e \<notin> contents mh \<Longrightarrow> mh_index (drop_last (swap mh i (mh_size mh))) e = mh_index mh e"
proof -
  have s: "rearranged mh (swap mh i (mh_size mh))" using assms by (intro swap_rearranged) simp_all
  then have w: "heap_wf (swap mh i (mh_size mh))" "0 < mh_size (swap mh i (mh_size mh))" using assms by (simp_all add: rearranged_def)
  show "heap_wf (drop_last (swap mh i (mh_size mh)))" by (rule drop_last_wf(1) [OF w])
  show "contents (drop_last (swap mh i (mh_size mh))) = contents mh - {heap_at mh i}"
    using s drop_last_wf(2) [OF w] by (simp add: rearranged_def swap_at)
  show "e \<notin> contents mh \<Longrightarrow> mh_index (drop_last (swap mh i (mh_size mh))) e = mh_index mh e"
    using s by (simp add: rearranged_def)
qed

lemma down_top_rearranged: "heap_wf mh \<Longrightarrow> rearranged mh (down lt mh 1)"
  using down_rearranged [of mh 1 lt] rearranged_refl [of mh] by (cases "1 \<le> mh_size mh") (auto simp: down.simps)

lemma forget_index:
  assumes "heap_wf mh" "e \<notin> contents mh"
  shows "heap_wf (mh\<lparr>mh_index := (mh_index mh)(e := 0)\<rparr>)" "contents (mh\<lparr>mh_index := (mh_index mh)(e := 0)\<rparr>) = contents mh"
  using assms by (auto simp: heap_wf_def contents_def heap_at_def)

lemma minheap_pop_wf:
  assumes "heap_wf mh" "heap_clean mh" "contents mh \<noteq> {}"
  shows "\<exists>e mh'. minheap_pop lt mh = (Some e, mh') \<and> e \<in> contents mh \<and> heap_wf mh' \<and> heap_clean mh' \<and> contents mh' = contents mh - {e}"
proof -
  have n: "1 \<le> mh_size mh" using assms(3) by (auto simp: contents_def)
  let ?e = "heap_at mh 1" and ?d = "drop_last (swap mh 1 (mh_size mh))"
  note d = swap_drop_last [OF assms(1) order_refl n]
  have r: "rearranged ?d (down lt ?d 1)" by (rule down_top_rearranged [OF d(1)])
  then have w: "heap_wf (down lt ?d 1)" "contents (down lt ?d 1) = contents mh - {?e}" using d(2) by (simp_all add: rearranged_def)
  note f = forget_index [OF w(1), of ?e, unfolded w(2)]
  have "mh_index (down lt ?d 1) e = 0" if "e \<notin> contents mh" for e
    using that r d(2,3) assms(2) by (simp add: rearranged_def heap_clean_def)
  then have "heap_clean ((down lt ?d 1)\<lparr>mh_index := (mh_index (down lt ?d 1))(?e := 0)\<rparr>)" using f by (auto simp: heap_clean_def)
  then show ?thesis using f n by (simp add: minheap_pop_last Let_def contents_def)
qed

lemma minheap_pop_empty: "contents mh = {} \<Longrightarrow> minheap_pop lt mh = (None, mh)"
  by (simp add: contents_def minheap_pop_def)

lemma minheap_create_wf: "0 < cap \<Longrightarrow> heap_wf (minheap_create cap)" "heap_clean (minheap_create cap)" "contents (minheap_create cap) = {}"
  by (simp_all add: minheap_create_def heap_wf_def heap_clean_def contents_def)

lemma clear_fold:
  "fold (\<lambda>i mh. mh\<lparr>mh_index := (mh_index mh)(heap_at mh i := 0)\<rparr>) is mh
     = mh\<lparr>mh_index := (\<lambda>e. if e \<in> heap_at mh ` set is then 0 else mh_index mh e)\<rparr>"
proof (induction "is" arbitrary: mh)
  case (Cons i "is")
  have "heap_at (mh\<lparr>mh_index := f\<rparr>) = heap_at mh" for f by (simp add: heap_at_def fun_eq_iff)
  then show ?case using Cons by (auto simp: fun_eq_iff)
qed simp

lemma minheap_clear_wf:
  assumes "heap_wf mh" "heap_clean mh"
  shows "heap_wf (minheap_clear mh) \<and> heap_clean (minheap_clear mh) \<and> contents (minheap_clear mh) = {}"
  using assms by (auto simp: minheap_clear_def clear_fold heap_wf_def heap_clean_def contents_def image_iff simp del: upt_Suc)

section \<open>Order\<close>

definition compares :: "('e \<Rightarrow> 'e \<Rightarrow> bool) \<Rightarrow> ('e \<Rightarrow> 'k :: linorder) \<Rightarrow> bool" where
  "compares lt key \<longleftrightarrow> (\<forall>a b. lt a b \<longleftrightarrow> key a < key b)"

definition ordered :: "('e \<Rightarrow> 'k :: linorder) \<Rightarrow> 'e minheap \<Rightarrow> bool" where
  "ordered key mh \<longleftrightarrow> (\<forall>j. 2 \<le> j \<and> j \<le> mh_size mh \<longrightarrow> key (heap_at mh (j div 2)) \<le> key (heap_at mh j))"

text \<open>The order holds but for the pairs that a position is part of.\<close>

definition ordered_around :: "('e \<Rightarrow> 'k :: linorder) \<Rightarrow> 'e minheap \<Rightarrow> nat \<Rightarrow> bool" where
  "ordered_around key mh i \<longleftrightarrow>
     (\<forall>j. 2 \<le> j \<and> j \<le> mh_size mh \<and> j \<noteq> i \<and> j div 2 \<noteq> i \<longrightarrow> key (heap_at mh (j div 2)) \<le> key (heap_at mh j))
     \<and> (2 \<le> i \<longrightarrow> (\<forall>j. j \<le> mh_size mh \<and> j div 2 = i \<longrightarrow> key (heap_at mh (i div 2)) \<le> key (heap_at mh j)))"

definition parent_ok :: "('e \<Rightarrow> 'k :: linorder) \<Rightarrow> 'e minheap \<Rightarrow> nat \<Rightarrow> bool" where
  "parent_ok key mh i \<longleftrightarrow> (2 \<le> i \<longrightarrow> key (heap_at mh (i div 2)) \<le> key (heap_at mh i))"

definition children_ok :: "('e \<Rightarrow> 'k :: linorder) \<Rightarrow> 'e minheap \<Rightarrow> nat \<Rightarrow> bool" where
  "children_ok key mh i \<longleftrightarrow> (\<forall>j. j \<le> mh_size mh \<and> j div 2 = i \<longrightarrow> key (heap_at mh i) \<le> key (heap_at mh j))"

lemma ordered_aroundD:
  assumes "ordered_around key mh i"
  shows "2 \<le> j \<Longrightarrow> j \<le> mh_size mh \<Longrightarrow> j \<noteq> i \<Longrightarrow> j div 2 \<noteq> i \<Longrightarrow> key (heap_at mh (j div 2)) \<le> key (heap_at mh j)"
    and "2 \<le> i \<Longrightarrow> j \<le> mh_size mh \<Longrightarrow> j div 2 = i \<Longrightarrow> key (heap_at mh (i div 2)) \<le> key (heap_at mh j)"
  using assms unfolding ordered_around_def by blast+

lemma ordered_whole:
  assumes "ordered_around key mh i" "parent_ok key mh i" "children_ok key mh i"
  shows "ordered key mh"
  using assms unfolding ordered_def ordered_around_def parent_ok_def children_ok_def by metis

lemma swap_up:
  assumes "ordered_around key mh i" "children_ok key mh i" "2 \<le> i" "i \<le> mh_size mh"
    and "key (heap_at mh i) < key (heap_at mh (i div 2))"
  shows "ordered_around key (swap mh i (i div 2)) (i div 2) \<and> children_ok key (swap mh i (i div 2)) (i div 2)"
proof -
  define p where "p = i div 2"
  let ?K = "\<lambda>j. key (heap_at mh j)" and ?L = "\<lambda>j. key (heap_at (swap mh i p) j)"
  have p: "1 \<le> p" "p < i" "i div 2 = p" using assms(3) by (auto simp: p_def)
  have L: "?L j = (if j = p then ?K i else if j = i then ?K p else ?K j)" for j using p by (auto simp: swap_at)
  note o = ordered_aroundD [OF assms(1)]
  have sib: "?K p \<le> ?K j" if "j \<le> mh_size mh" "j div 2 = p" "j \<noteq> i" for j
    using o(1) [of j] that p by (cases "2 \<le> j") auto
  have up: "?K (p div 2) \<le> ?K p" if "2 \<le> p" using o(1) [of p] that p assms(4) by auto
  have "?L (j div 2) \<le> ?L j" if "2 \<le> j" "j \<le> mh_size mh" "j \<noteq> p" "j div 2 \<noteq> p" for j
  proof (cases "j div 2 = i")
    case True
    then have "j \<noteq> i" "j \<noteq> p" using that p by auto
    then show ?thesis using o(2) [OF assms(3) that(2) True] p True by (simp add: L)
  next
    case False
    then have "j \<noteq> i" using that p by auto
    then show ?thesis using o(1) [OF that(1,2) _ False] that False by (simp add: L)
  qed
  moreover have "?L (p div 2) \<le> ?L j" if "2 \<le> p" "j \<le> mh_size mh" "j div 2 = p" for j
    using sib [OF that(2,3)] up [OF that(1)] that p by (auto simp: L)
  moreover have "?L p \<le> ?L j" if "j \<le> mh_size mh" "j div 2 = p" for j
    using sib [OF that] assms(5) that p by (auto simp: L)
  ultimately show ?thesis unfolding ordered_around_def children_ok_def p_def [symmetric] by simp
qed

lemma up_ordered:
  assumes "compares lt key" "ordered_around key mh i" "children_ok key mh i" "i \<le> mh_size mh"
  shows "ordered key (up lt mh i)"
  using assms
proof (induction lt mh i rule: up.induct)
  case (1 lt mh i)
  show ?case
  proof (cases "i div 2 \<ge> 1 \<and> lt (heap_at mh i) (heap_at mh (i div 2))")
    case True
    then have "2 \<le> i" "key (heap_at mh i) < key (heap_at mh (i div 2))" using 1(2) by (auto simp: compares_def)
    note s = swap_up [OF 1(3,4) this(1) 1(5) this(2)]
    have "ordered key (up lt (swap mh i (i div 2)) (i div 2))"
      using s 1(2,5) by (intro 1(1) [OF refl True]) simp_all
    then show ?thesis using True by (simp add: up.simps [of lt mh i] Let_def)
  next
    case False
    then have "parent_ok key mh i" using 1(2) by (auto simp: parent_ok_def compares_def)
    then show ?thesis using ordered_whole [OF 1(3) _ 1(4)] False by (auto simp: up.simps [of lt mh i] Let_def)
  qed
qed

lemma smallest_least:
  assumes "compares lt key" "j \<le> mh_size mh" "j = i \<or> j div 2 = i"
  shows "key (heap_at mh (smallest lt mh i)) \<le> key (heap_at mh j)"
proof -
  have "j = i \<or> j = i * 2 \<or> j = i * 2 + 1" using assms(3) by auto
  then show ?thesis using assms(1,2) by (auto simp: smallest_def Let_def compares_def)
qed

lemma smallest_child:
  assumes "smallest lt mh i \<noteq> i"
  shows "smallest lt mh i div 2 = i" "i < smallest lt mh i" "smallest lt mh i \<le> mh_size mh"
  using smallest_cases [of lt mh i] assms by auto

lemma swap_down:
  assumes "compares lt key" "ordered_around key mh i" "1 \<le> i" "smallest lt mh i \<noteq> i"
  shows "ordered_around key (swap mh i (smallest lt mh i)) (smallest lt mh i)
     \<and> parent_ok key (swap mh i (smallest lt mh i)) (smallest lt mh i)"
proof -
  define m where "m = smallest lt mh i"
  let ?K = "\<lambda>j. key (heap_at mh j)" and ?L = "\<lambda>j. key (heap_at (swap mh i m) j)"
  have m: "m div 2 = i" "i < m" "m \<le> mh_size mh" using smallest_child [OF assms(4)] by (simp_all add: m_def)
  have L: "?L j = (if j = m then ?K i else if j = i then ?K m else ?K j)" for j by (simp add: swap_at)
  have least: "?K m \<le> ?K j" if "j \<le> mh_size mh" "j = i \<or> j div 2 = i" for j
    unfolding m_def by (rule smallest_least [OF assms(1) that])
  note o = ordered_aroundD [OF assms(2)]
  have "?L (j div 2) \<le> ?L j" if j: "2 \<le> j" "j \<le> mh_size mh" "j \<noteq> m" "j div 2 \<noteq> m" for j
  proof -
    consider "j = i" | "j div 2 = i" | "j \<noteq> i" "j div 2 \<noteq> i" by blast
    then show ?thesis
    proof cases
      case 1
      then have "i div 2 \<noteq> i" "2 \<le> i" using j(1) by auto
      then show ?thesis using 1 o(2) [OF _ m(3,1)] j by (simp add: L)
    next
      case 2
      then have "j \<noteq> i" using j(1) by auto
      then show ?thesis using 2 least [OF j(2)] j m by (simp add: L)
    next
      case 3
      then show ?thesis using o(1) [OF j(1,2) 3] j by (simp add: L)
    qed
  qed
  moreover have "?L (m div 2) \<le> ?L j" if "j \<le> mh_size mh" "j div 2 = m" for j
  proof -
    have j: "2 \<le> j" "j \<noteq> i" "j div 2 \<noteq> i" "j \<noteq> m" using that m assms(3) by auto
    show ?thesis using o(1) [OF j(1) that(1) j(2,3)] j m that by (simp add: L)
  qed
  moreover have "?L (m div 2) \<le> ?L m" using least [of i] m by (simp add: L)
  ultimately show ?thesis unfolding ordered_around_def parent_ok_def m_def [symmetric] by simp
qed

lemma down_step: "smallest lt mh i \<noteq> i \<Longrightarrow> down lt mh i = down lt (swap mh i (smallest lt mh i)) (smallest lt mh i)"
  using smallest_child [of lt mh i] by (simp add: down.simps [of lt mh i] Let_def)

lemma down_stop: "smallest lt mh i = i \<Longrightarrow> down lt mh i = mh"
  by (simp add: down.simps [of lt mh i] Let_def)

lemma smallest_children: "compares lt key \<Longrightarrow> smallest lt mh i = i \<Longrightarrow> children_ok key mh i"
  using smallest_least [of lt key _ mh i] by (auto simp: children_ok_def)

lemma down_ordered:
  assumes "compares lt key" "ordered_around key mh i" "parent_ok key mh i" "1 \<le> i"
  shows "ordered key (down lt mh i)"
  using assms
proof (induction lt mh i rule: down.induct)
  case (1 lt mh i)
  show ?case
  proof (cases "smallest lt mh i = i")
    case True
    then show ?thesis using ordered_whole [OF 1(3,4)] smallest_children [OF 1(2)] by (simp add: down_stop)
  next
    case False
    note m = smallest_child [OF False]
    show ?thesis unfolding down_step [OF False]
      using swap_down [OF 1(2,3,5) False] m 1(2,5) False by (intro 1(1) [OF _ refl]) simp_all
  qed
qed

lemma settle_ordered:
  assumes "compares lt key" "heap_wf mh" "ordered_around key mh i" "1 \<le> i" "i \<le> mh_size mh"
  shows "ordered key (settle lt mh i (heap_at mh i))"
proof (cases "smallest lt mh i = i")
  case True
  have "mh_index mh (heap_at mh i) = i" using assms(2,4,5) by (simp add: heap_wf_def)
  then show ?thesis using up_ordered [OF assms(1,3) smallest_children [OF assms(1) True] assms(5)]
    by (simp add: settle_def down_stop [OF True])
next
  case False
  note m = smallest_child [OF False]
  let ?s = "swap mh i (smallest lt mh i)"
  have "heap_wf ?s" using swap_rearranged [OF assms(2,4,5), of "smallest lt mh i"] m by (simp add: rearranged_def)
  then have "smallest lt mh i \<le> mh_index (down lt ?s (smallest lt mh i)) (heap_at ?s (smallest lt mh i))"
    using down_rearranged [of ?s "smallest lt mh i" lt] m by simp
  then have "i \<noteq> mh_index (down lt mh i) (heap_at mh i)" using m by (simp add: down_step [OF False] swap_at)
  moreover have "ordered key (down lt mh i)"
    unfolding down_step [OF False] using swap_down [OF assms(1,3,4) False] m assms(1) by (intro down_ordered) simp_all
  ultimately show ?thesis by (simp add: settle_def)
qed

lemma ordered_top:
  assumes "ordered key mh" "1 \<le> j" "j \<le> mh_size mh"
  shows "key (heap_at mh 1) \<le> key (heap_at mh j)"
  using assms(2,3)
proof (induction j rule: less_induct)
  case (less j)
  show ?case
  proof (cases "j = 1")
    case False
    then have "key (heap_at mh 1) \<le> key (heap_at mh (j div 2))" using less.prems by (intro less.IH) auto
    also have "\<dots> \<le> key (heap_at mh j)" using assms(1) less.prems False by (simp add: ordered_def)
    finally show ?thesis .
  qed simp
qed

lemma minheap_push_ordered:
  assumes "compares lt key" "heap_wf mh" "mh_index mh e = 0" "ordered key mh"
  shows "ordered key (minheap_push lt mh e)"
proof -
  let ?n = "Suc (mh_size mh)"
  have "ordered_around key (heap_append mh e) ?n" using assms(4) by (auto simp: ordered_around_def ordered_def)
  moreover have "children_ok key (heap_append mh e) ?n" by (auto simp: children_ok_def)
  ultimately show ?thesis unfolding minheap_push_fresh [OF assms(3)] by (intro up_ordered [OF assms(1)]) simp_all
qed

lemma ordered_index: "ordered key (mh\<lparr>mh_index := f\<rparr>) = ordered key mh"
  by (simp add: ordered_def heap_at_def)

lemma drop_last_around:
  assumes "ordered key mh" "1 \<le> i" "i < mh_size mh"
  shows "ordered_around key (drop_last (swap mh i (mh_size mh))) i"
proof -
  let ?n = "mh_size mh" and ?K = "\<lambda>j. key (heap_at mh j)" and ?d = "drop_last (swap mh i (mh_size mh))"
  have at: "heap_at ?d j = heap_at mh j" if "j < ?n" "j \<noteq> i" for j using that by (simp add: swap_at)
  have size: "j \<le> mh_size ?d \<longleftrightarrow> j < ?n" for j using assms(3) by auto
  have o: "?K (j div 2) \<le> ?K j" if "2 \<le> j" "j < ?n" for j using assms(1) that by (simp add: ordered_def)
  show ?thesis unfolding ordered_around_def size
  proof (intro conjI allI impI)
    fix j
    assume j: "2 \<le> j \<and> j < ?n \<and> j \<noteq> i \<and> j div 2 \<noteq> i"
    then have "j div 2 < ?n" by auto
    then show "key (heap_at ?d (j div 2)) \<le> key (heap_at ?d j)" using o [of j] at [of j] at [of "j div 2"] j by simp
  next
    fix j
    assume i: "2 \<le> i" and j: "j < ?n \<and> j div 2 = i"
    then have "?K (i div 2) \<le> ?K i" "?K i \<le> ?K j" using o [of i] o [of j] assms(3) by auto
    then show "key (heap_at ?d (i div 2)) \<le> key (heap_at ?d j)" using at [of j] at [of "i div 2"] i j assms(3) by fastforce
  qed
qed

lemma minheap_pop_ordered:
  assumes "compares lt key" "ordered key mh" "0 < mh_size mh"
  shows "ordered key (snd (minheap_pop lt mh))"
proof (cases "mh_size mh = 1")
  case True
  then have "down lt (drop_last (swap mh 1 1)) 1 = drop_last (swap mh 1 1)" by (simp add: down.simps)
  then show ?thesis using True by (simp add: minheap_pop_last Let_def ordered_index) (simp add: ordered_def)
next
  case False
  have "ordered key (down lt (drop_last (swap mh 1 (mh_size mh))) 1)"
    using drop_last_around [OF assms(2), of 1] False assms(3) by (intro down_ordered [OF assms(1)]) (simp_all add: parent_ok_def)
  then show ?thesis using assms(3) by (simp add: minheap_pop_last Let_def ordered_index)
qed

section \<open>The open list as an interface\<close>

text \<open>
  What the searches use: a collection whose members know that they are members, from which some
  member is taken until none is left.
\<close>

locale open_list =
  fixes inv :: "'h \<Rightarrow> bool" and elems :: "'h \<Rightarrow> 'e set" and mark :: "'h \<Rightarrow> 'e \<Rightarrow> nat"
    and push :: "'h \<Rightarrow> 'e \<Rightarrow> 'h" and change :: "'h \<Rightarrow> 'e \<Rightarrow> 'h" and pop :: "'h \<Rightarrow> 'e option \<times> 'h" and clear :: "'h \<Rightarrow> 'h"
  assumes marked: "inv h \<Longrightarrow> mark h e \<noteq> 0 \<longleftrightarrow> e \<in> elems h"
    and pushed: "inv h \<Longrightarrow> inv (push h e) \<and> elems (push h e) = insert e (elems h)"
    and changed: "inv h \<Longrightarrow> e \<in> elems h \<Longrightarrow> inv (change h e) \<and> elems (change h e) = elems h"
    and pop_empty: "inv h \<Longrightarrow> elems h = {} \<Longrightarrow> pop h = (None, h)"
    and popped: "inv h \<Longrightarrow> elems h \<noteq> {} \<Longrightarrow>
       \<exists>e h'. pop h = (Some e, h') \<and> e \<in> elems h \<and> inv h' \<and> elems h' = elems h - {e}"
    and cleared: "inv h \<Longrightarrow> inv (clear h) \<and> elems (clear h) = {}"
begin

lemma pop_cases:
  assumes "inv h"
  obtains "pop h = (None, h)" "elems h = {}"
  | e h' where "pop h = (Some e, h')" "e \<in> elems h" "inv h'" "elems h' = elems h - {e}"
  using pop_empty [OF assms] popped [OF assms] by blast

lemma pushes: "inv h \<Longrightarrow> inv (fold (\<lambda>e h. push h e) es h) \<and> elems (fold (\<lambda>e h. push h e) es h) = elems h \<union> set es"
  by (induction es arbitrary: h) (simp_all add: pushed)

lemma cleared_marks: "inv h \<Longrightarrow> mark (clear h) e = 0"
  using cleared [of h] marked [of "clear h" e] by auto

end

definition heap_inv :: "'e minheap \<Rightarrow> bool" where
  "heap_inv mh \<longleftrightarrow> heap_wf mh \<and> heap_clean mh"

interpretation mh: open_list heap_inv contents mh_index "minheap_push lt" "minheap_change lt" "minheap_pop lt" minheap_clear
  for lt :: "'e \<Rightarrow> 'e \<Rightarrow> bool"
proof
  fix h :: "'e minheap" and e :: 'e
  assume inv: "heap_inv h"
  show "mh_index h e \<noteq> 0 \<longleftrightarrow> e \<in> contents h"
    using inv heap_at_index [of h e] by (auto simp: heap_inv_def heap_clean_def)
  show "heap_inv (minheap_push lt h e) \<and> contents (minheap_push lt h e) = insert e (contents h)"
    using inv minheap_push_wf [of h lt e] by (simp add: heap_inv_def)
  show "e \<in> contents h \<Longrightarrow> heap_inv (minheap_change lt h e) \<and> contents (minheap_change lt h e) = contents h"
    using inv minheap_change_rearranged [of h e lt] rearranged_clean [of h "minheap_change lt h e"]
    by (auto simp: heap_inv_def rearranged_def)
  show "contents h = {} \<Longrightarrow> minheap_pop lt h = (None, h)" by (rule minheap_pop_empty)
  show "contents h \<noteq> {} \<Longrightarrow> \<exists>e h'. minheap_pop lt h = (Some e, h') \<and> e \<in> contents h \<and> heap_inv h' \<and> contents h' = contents h - {e}"
    using inv minheap_pop_wf [of h lt] by (auto simp: heap_inv_def)
  show "heap_inv (minheap_clear h) \<and> contents (minheap_clear h) = {}"
    using inv minheap_clear_wf [of h] by (simp add: heap_inv_def)
qed

lemma minheap_create_inv: "0 < cap \<Longrightarrow> heap_inv (minheap_create cap) \<and> contents (minheap_create cap) = {}"
  by (simp add: heap_inv_def minheap_create_wf)

section \<open>Properties\<close>

lemma minheap_pop_top: "0 < mh_size mh \<Longrightarrow> fst (minheap_pop lt mh) = Some (heap_at mh 1)"
  by (simp add: minheap_pop_last Let_def)

lemma pop_least:
  assumes "compares lt key" "heap_inv mh" "ordered key mh" "minheap_pop lt mh = (Some e, mh')"
  shows "e \<in> contents mh \<and> (\<forall>x \<in> contents mh. key e \<le> key x) \<and> heap_inv mh' \<and> ordered key mh' \<and> contents mh' = contents mh - {e}"
proof -
  have n: "0 < mh_size mh" using assms(4) by (auto simp: minheap_pop_def split: if_splits)
  have "e = heap_at mh 1" using minheap_pop_top [OF n, of lt] assms(4) by simp
  then have "\<forall>x \<in> contents mh. key e \<le> key x" using ordered_top [OF assms(3)] by (auto simp: contents_def)
  moreover have "ordered key mh'" using minheap_pop_ordered [OF assms(1,3) n] assms(4) by simp
  moreover have "contents mh \<noteq> {}" using n by (auto simp: contents_def)
  ultimately show ?thesis using mh.popped [OF assms(2), of lt] assms(4) by auto
qed

text \<open>Taking elements until the heap is empty.\<close>

fun drain :: "('e \<Rightarrow> 'e \<Rightarrow> bool) \<Rightarrow> nat \<Rightarrow> 'e minheap \<Rightarrow> 'e list" where
  "drain lt 0 mh = []"
| "drain lt (Suc n) mh = (case minheap_pop lt mh of (None, mh) \<Rightarrow> [] | (Some e, mh) \<Rightarrow> e # drain lt n mh)"

lemma drain_sorted:
  assumes "compares lt key" "heap_inv mh" "ordered key mh" "card (contents mh) \<le> n" "finite (contents mh)"
  shows "distinct (drain lt n mh) \<and> set (drain lt n mh) = contents mh \<and> sorted (map key (drain lt n mh))"
  using assms(2-)
proof (induction n arbitrary: mh)
  case (Suc n)
  show ?case
  proof (rule mh.pop_cases [OF Suc.prems(1), of lt])
    fix e mh'
    assume p: "minheap_pop lt mh = (Some e, mh')" "e \<in> contents mh" "heap_inv mh'" "contents mh' = contents mh - {e}"
    note l = pop_least [OF assms(1) Suc.prems(1,2) p(1)]
    have "card (contents mh') \<le> n" using Suc.prems(3,4) p(2,4) by simp
    then have "distinct (drain lt n mh') \<and> set (drain lt n mh') = contents mh' \<and> sorted (map key (drain lt n mh'))"
      using l Suc.prems(4) p by (intro Suc.IH) simp_all
    then show ?thesis using p l by auto
  qed simp
qed simp

lemma pushes_ordered:
  assumes "compares lt key" "heap_inv mh" "ordered key mh" "distinct es" "contents mh \<inter> set es = {}"
  shows "ordered key (fold (\<lambda>e mh. minheap_push lt mh e) es mh)"
  using assms(2-)
proof (induction es arbitrary: mh)
  case (Cons e es)
  have "mh_index mh e = 0" using mh.marked [OF Cons.prems(1), of e] Cons.prems(4) by auto
  then have "ordered key (minheap_push lt mh e)"
    using Cons.prems(1,2) by (intro minheap_push_ordered [OF assms(1)]) (simp_all add: heap_inv_def)
  then show ?case using Cons mh.pushed [OF Cons.prems(1), of lt e] by simp
qed simp

text \<open>
  C34. Elements pushed into a new heap, which grows as needed, come out once each and in the order of
  their keys.
\<close>

theorem heap_sorts:
  fixes es :: "'e list"
  assumes "compares lt key" "distinct es" "0 < cap"
  shows "let out = drain lt (length es) (fold (\<lambda>e mh. minheap_push lt mh e) es (minheap_create cap))
     in distinct out \<and> set out = set es \<and> sorted (map key out)"
proof -
  let ?mh = "fold (\<lambda>e mh. minheap_push lt mh e) es (minheap_create cap)"
  have inv: "heap_inv (minheap_create cap :: 'e minheap)" "contents (minheap_create cap :: 'e minheap) = {}"
    by (simp_all add: minheap_create_inv assms(3))
  have "heap_inv ?mh" "contents ?mh = set es" using mh.pushes [OF inv(1)] inv(2) by simp_all
  moreover have "ordered key (minheap_create cap :: 'e minheap)" by (simp add: ordered_def minheap_create_def)
  then have "ordered key ?mh" using assms inv by (intro pushes_ordered) simp_all
  ultimately show ?thesis using drain_sorted [OF assms(1), of ?mh "length es"] assms(2) by (simp add: distinct_card Let_def)
qed

theorem heap_sorts_witness:
  "let out = drain (<) (length [5, 3, 4 :: nat]) (fold (\<lambda>e mh. minheap_push (<) mh e) [5, 3, 4 :: nat] (minheap_create 1))
   in distinct out \<and> set out = set [5, 3, 4] \<and> sorted (map (\<lambda>x. x) out)"
  by (rule heap_sorts) (simp_all add: compares_def)

text \<open>
  C35. When the key of one element of the heap has changed, in either direction, \<open>minheap_change\<close>
  restores the order of the heap and keeps its elements.
\<close>

theorem minheap_change_restores:
  assumes "compares lt key" "heap_inv mh" "ordered key0 mh" "e \<in> contents mh" "\<forall>x. x \<noteq> e \<longrightarrow> key x = key0 x"
  shows "heap_inv (minheap_change lt mh e) \<and> ordered key (minheap_change lt mh e) \<and> contents (minheap_change lt mh e) = contents mh"
proof -
  let ?i = "mh_index mh e"
  have w: "heap_wf mh" using assms(2) by (simp add: heap_inv_def)
  have i: "heap_at mh ?i = e" "1 \<le> ?i" "?i \<le> mh_size mh" using heap_at_index [OF w assms(4)] by simp_all
  have eq: "key (heap_at mh j) = key0 (heap_at mh j)" if "1 \<le> j" "j \<le> mh_size mh" "j \<noteq> ?i" for j
    using assms(5) heap_at_inj [OF w that(1,2) i(2,3)] that(3) i(1) by simp
  have o: "key0 (heap_at mh (j div 2)) \<le> key0 (heap_at mh j)" if "2 \<le> j" "j \<le> mh_size mh" for j
    using assms(3) that by (simp add: ordered_def)
  have "ordered_around key mh ?i" unfolding ordered_around_def
  proof (intro conjI allI impI)
    fix j
    assume j: "2 \<le> j \<and> j \<le> mh_size mh \<and> j \<noteq> ?i \<and> j div 2 \<noteq> ?i"
    then have "1 \<le> j div 2" "j div 2 \<le> mh_size mh" by auto
    then show "key (heap_at mh (j div 2)) \<le> key (heap_at mh j)" using o [of j] eq [of j] eq [of "j div 2"] j by simp
  next
    fix j
    assume i2: "2 \<le> ?i" and j: "j \<le> mh_size mh \<and> j div 2 = ?i"
    then have "key0 (heap_at mh (?i div 2)) \<le> key0 (heap_at mh j)" using o [of ?i] o [of j] i(3) by force
    moreover have "1 \<le> ?i div 2" "?i div 2 \<le> mh_size mh" "?i div 2 \<noteq> ?i" "j \<noteq> ?i" "1 \<le> j" using i2 i(3) j by auto
    ultimately show "key (heap_at mh (?i div 2)) \<le> key (heap_at mh j)" using eq [of j] eq [of "?i div 2"] j by simp
  qed
  then have "ordered key (minheap_change lt mh e)"
    unfolding minheap_change_settle using settle_ordered [OF assms(1) w _ i(2,3)] i(1) by simp
  then show ?thesis using mh.changed [OF assms(2,4), of lt] by simp
qed

definition sample_heap :: "nat minheap" where
  "sample_heap = \<lparr>mh_cap = 4, mh_size = 2, mh_elts = [1 \<mapsto> 7, 2 \<mapsto> 9], mh_index = (\<lambda>e. if e = 7 then 1 else if e = 9 then 2 else 0)\<rparr>"

lemma sample_heap_inv: "heap_inv sample_heap" "contents sample_heap = {7, 9}"
proof -
  have c: "{Suc 0..2} = {Suc 0, 2}" by auto
  show k: "contents sample_heap = {7, 9}" by (simp add: contents_def sample_heap_def heap_at_def c)
  have "i = 1 \<or> i = 2" if "1 \<le> i" "i \<le> 2" for i :: nat using that by auto
  then have "heap_wf sample_heap" unfolding heap_wf_def by (auto simp: sample_heap_def heap_at_def)
  then show "heap_inv sample_heap" using k by (simp add: heap_inv_def heap_clean_def) (simp add: sample_heap_def)
qed

lemma sample_heap_ordered: "ordered (\<lambda>x. x) sample_heap"
proof -
  have "j = 2" if "2 \<le> j" "j \<le> mh_size sample_heap" for j using that by (auto simp: sample_heap_def)
  then show ?thesis by (auto simp: ordered_def sample_heap_def heap_at_def)
qed

theorem minheap_change_restores_witness:
  "let key = (\<lambda>x :: nat. if x = 7 then 20 else x); mh = minheap_change (\<lambda>a b. key a < key b) sample_heap 7
   in heap_inv mh \<and> ordered key mh \<and> contents mh = {7, 9}"
proof -
  define key where "key = (\<lambda>x :: nat. if x = 7 then 20 else x)"
  have "compares (\<lambda>a b. key a < key b) key" by (simp add: compares_def)
  note r = minheap_change_restores [OF this sample_heap_inv(1) sample_heap_ordered, of 7]
  show ?thesis using r sample_heap_inv(2) unfolding Let_def key_def [symmetric] by (simp add: key_def)
qed

lemma minheap_delete_settle:
  assumes "heap_wf mh" "e \<in> contents mh" "mh_index mh e < mh_size mh"
  shows "minheap_delete lt mh e
     = settle lt (drop_last (swap mh (mh_index mh e) (mh_size mh))) (mh_index mh e) (heap_at mh (mh_size mh))"
proof -
  have i: "heap_at mh (mh_index mh e) = e" "1 \<le> mh_index mh e" using heap_at_index [OF assms(1,2)] by simp_all
  have "heap_at mh (mh_size mh) \<noteq> e" using heap_at_inj [OF assms(1), of "mh_size mh" "mh_index mh e"] assms(3) i by auto
  then have "mh_index (swap mh (mh_index mh e) (mh_size mh)) (heap_at mh (mh_size mh)) = mh_index mh e"
    using assms(3) i by (simp add: swap_index)
  then show ?thesis using assms(3) i(2) by (simp add: minheap_delete_def settle_def drop_last_def Let_def)
qed

lemma minheap_delete_last:
  assumes "heap_wf mh" "e \<in> contents mh" "\<not> mh_index mh e < mh_size mh"
  shows "minheap_delete lt mh e = drop_last mh" "mh_index mh e = mh_size mh"
proof -
  have i: "mh_index mh e = mh_size mh" "0 < mh_size mh" using heap_at_index [OF assms(1,2)] assms(3) by simp_all
  then show "minheap_delete lt mh e = drop_last mh" "mh_index mh e = mh_size mh" by (simp_all add: minheap_delete_def drop_last_def)
qed

text \<open>
  C36. \<open>minheap_delete\<close> removes the element from the heap but leaves it its position, unlike
  \<open>minheap_pop\<close> and \<open>minheap_clear\<close>. So a later \<open>minheap_push\<close> of the element takes it for a member:
  it does not insert it but calls \<open>minheap_change\<close>, at a position whose pointer is null.
\<close>

theorem minheap_delete_stale:
  assumes "heap_inv mh" "e \<in> contents mh"
  shows "let mh' = minheap_delete lt mh e
     in heap_wf mh' \<and> contents mh' = contents mh - {e} \<and> mh_index mh' e = mh_size mh \<and> 0 < mh_size mh
        \<and> minheap_push lt mh' e = minheap_change lt mh' e \<and> mh_elts mh' (mh_index mh' e) = None"
proof -
  have w: "heap_wf mh" using assms(1) by (simp add: heap_inv_def)
  have i: "heap_at mh (mh_index mh e) = e" "1 \<le> mh_index mh e" "mh_index mh e \<le> mh_size mh" using heap_at_index [OF w assms(2)] by simp_all
  have "heap_wf (minheap_delete lt mh e) \<and> contents (minheap_delete lt mh e) = contents mh - {e}
      \<and> mh_index (minheap_delete lt mh e) e = mh_size mh \<and> mh_elts (minheap_delete lt mh e) (mh_size mh) = None"
  proof (cases "mh_index mh e < mh_size mh")
    case True
    let ?d = "drop_last (swap mh (mh_index mh e) (mh_size mh))"
    note d = swap_drop_last [OF w i(2,3), unfolded i(1)]
    have r: "rearranged ?d (minheap_delete lt mh e)"
      unfolding minheap_delete_settle [OF w assms(2) True] using True i(2) by (intro settle_rearranged d(1)) simp_all
    have "mh_index ?d e = mh_size mh" "mh_elts ?d (mh_size mh) = None" using i(1) by (simp_all add: swap_index drop_last_def)
    then show ?thesis using r d(2) True by (simp add: rearranged_def)
  next
    case False
    note l = minheap_delete_last [OF w assms(2) False]
    have "0 < mh_size mh" using i(2,3) by simp
    note d = drop_last_wf [OF w this]
    show ?thesis using d l(2) i(1) unfolding l(1) by (simp add: drop_last_def)
  qed
  then show ?thesis using i by (simp add: minheap_push_def Let_def)
qed

theorem minheap_delete_stale_witness:
  "mh_index (minheap_delete (<) sample_heap 7) 7 = 2 \<and> contents (minheap_delete (<) sample_heap 7) = {9}"
  using minheap_delete_stale [OF sample_heap_inv(1), of 7 "(<)"] sample_heap_inv(2)
  by (simp add: Let_def) (simp add: sample_heap_def)

end
