(* ===== verification/Linked_List.thy ===== *)
theory Linked_List
  imports Prelude
begin

text \<open>
  The doubly linked lists of \<open>src/luaclib/list.h\<close>. A list has two sentinels, its head and its tail,
  and the nodes are embedded in the objects that the list holds. The macros work on the pointers
  only: the pointers of all nodes are the two maps of a state, and none is a null pointer. Several
  lists live in one state, and a node that is in no list has two null pointers.
\<close>

section \<open>Data and operations\<close>

datatype 'n link = Node 'n | Head nat | Tail nat

record 'n links =
  l_pre :: "'n link \<Rightarrow> 'n link option"
  l_next :: "'n link \<Rightarrow> 'n link option"

definition list_empty :: "'n links \<Rightarrow> nat \<Rightarrow> bool" where
  "list_empty s dl \<longleftrightarrow> l_next s (Head dl) = Some (Tail dl)"

definition list_init :: "'n links \<Rightarrow> nat \<Rightarrow> 'n links" where
  "list_init s dl =
     s\<lparr>l_pre := (l_pre s)(Head dl := None, Tail dl := Some (Head dl)),
       l_next := (l_next s)(Tail dl := None, Head dl := Some (Tail dl))\<rparr>"

definition list_remove :: "'n links \<Rightarrow> 'n link \<Rightarrow> 'n links" where
  "list_remove s node =
     (case (l_pre s node, l_next s node) of
        (Some p, Some q) \<Rightarrow>
          s\<lparr>l_next := (l_next s)(p := Some q, node := None), l_pre := (l_pre s)(q := Some p, node := None)\<rparr>
      | _ \<Rightarrow> s)"

definition list_push :: "'n links \<Rightarrow> nat \<Rightarrow> 'n link \<Rightarrow> 'n links" where
  "list_push s dl node =
     (if l_pre s node = None \<and> l_next s node = None
      then (let last = l_pre s (Tail dl)
            in s\<lparr>l_next := (l_next s)(the last := Some node, node := Some (Tail dl)),
                 l_pre := (l_pre s)(node := last, Tail dl := Some node)\<rparr>)
      else s)"

definition list_pop :: "'n links \<Rightarrow> nat \<Rightarrow> 'n link option \<times> 'n links" where
  "list_pop s dl =
     (if \<not> list_empty s dl
      then (let node = the (l_next s (Head dl)) in (Some node, list_remove s node))
      else (None, s))"

section \<open>Chains\<close>

fun linked :: "'n links \<Rightarrow> 'n link list \<Rightarrow> bool" where
  "linked s (x # y # ns) \<longleftrightarrow> l_next s x = Some y \<and> l_pre s y = Some x \<and> linked s (y # ns)"
| "linked s ns \<longleftrightarrow> True"

lemma linked_append: "linked s (xs @ y # ys) \<longleftrightarrow> linked s (xs @ [y]) \<and> linked s (y # ys)"
  by (induction s xs rule: linked.induct) simp_all

lemma linked_cong:
  assumes "\<And>x. x \<in> set (butlast ns) \<Longrightarrow> l_next s x = l_next t x" "\<And>x. x \<in> set (tl ns) \<Longrightarrow> l_pre s x = l_pre t x"
  shows "linked s ns \<longleftrightarrow> linked t ns"
  using assms by (induction s ns rule: linked.induct) auto

definition chain_of :: "nat \<Rightarrow> 'n list \<Rightarrow> 'n link list" where
  "chain_of d xs = Head d # map Node xs @ [Tail d]"

text \<open>The lists of a state: their chains are linked, no node is in two, the other nodes are free.\<close>

definition links_inv :: "nat set \<Rightarrow> 'n links \<Rightarrow> (nat \<Rightarrow> 'n list) \<Rightarrow> bool" where
  "links_inv D s L \<longleftrightarrow>
     (\<forall>d \<in> D. linked s (chain_of d (L d)) \<and> distinct (L d))
     \<and> (\<forall>d \<in> D. \<forall>e \<in> D. d \<noteq> e \<longrightarrow> set (L d) \<inter> set (L e) = {})
     \<and> (\<forall>n. (\<forall>d \<in> D. n \<notin> set (L d)) \<longrightarrow> l_pre s (Node n) = None \<and> l_next s (Node n) = None)"

lemma links_invD:
  assumes "links_inv D s L" "d \<in> D"
  shows "linked s (chain_of d (L d))" "distinct (L d)" "e \<in> D \<Longrightarrow> d \<noteq> e \<Longrightarrow> n \<in> set (L d) \<Longrightarrow> n \<notin> set (L e)"
  using assms by (auto simp: links_inv_def)

lemma linked_last: "linked s (xs @ [y]) \<Longrightarrow> xs \<noteq> [] \<Longrightarrow> l_pre s y = Some (last xs) \<and> l_next s (last xs) = Some y"
  by (induction s xs rule: linked.induct) simp_all

lemma linked_hd: "linked s (x # ys) \<Longrightarrow> ys \<noteq> [] \<Longrightarrow> l_next s x = Some (hd ys) \<and> l_pre s (hd ys) = Some x"
  by (cases ys) simp_all

lemma linked_node:
  assumes "linked s (chain_of d (ys @ n # zs))"
  shows "l_pre s (Node n) = Some (last (Head d # map Node ys))" "l_next s (Node n) = Some (hd (map Node zs @ [Tail d]))"
proof -
  have "linked s ((Head d # map Node ys) @ Node n # map Node zs @ [Tail d])" using assms by (simp add: chain_of_def)
  then have a: "linked s ((Head d # map Node ys) @ [Node n])" "linked s (Node n # map Node zs @ [Tail d])"
    unfolding linked_append [of s "Head d # map Node ys" "Node n" "map Node zs @ [Tail d]"] by blast+
  show "l_next s (Node n) = Some (hd (map Node zs @ [Tail d]))" using linked_hd [OF a(2)] by simp
  show "l_pre s (Node n) = Some (last (Head d # map Node ys))" using linked_last [OF a(1)] by simp
qed

text \<open>A node is in a list exactly when one of its pointers is not null, and then both are not.\<close>

lemma linked_iff:
  assumes "links_inv D s L"
  shows "l_pre s (Node n) = None \<longleftrightarrow> (\<forall>d \<in> D. n \<notin> set (L d))" "l_next s (Node n) = None \<longleftrightarrow> (\<forall>d \<in> D. n \<notin> set (L d))"
proof -
  have "l_pre s (Node n) \<noteq> None \<and> l_next s (Node n) \<noteq> None" if d: "d \<in> D" "n \<in> set (L d)" for d
  proof -
    obtain ys zs where "L d = ys @ n # zs" using split_list [OF d(2)] by blast
    then show ?thesis using linked_node [of s d ys n zs] links_invD(1) [OF assms d(1)] by simp
  qed
  then show "l_pre s (Node n) = None \<longleftrightarrow> (\<forall>d \<in> D. n \<notin> set (L d))" "l_next s (Node n) = None \<longleftrightarrow> (\<forall>d \<in> D. n \<notin> set (L d))"
    using assms unfolding links_inv_def by blast+
qed

section \<open>The operations on the lists\<close>

lemma list_init_inv:
  assumes "links_inv D s L" "d \<notin> D"
  shows "links_inv (insert d D) (list_init s d) (L(d := []))"
proof -
  have "linked (list_init s d) (chain_of e (L e))" if "e \<in> D" for e
  proof -
    have "linked (list_init s d) (chain_of e (L e)) \<longleftrightarrow> linked s (chain_of e (L e))"
      using assms(2) that by (intro linked_cong) (auto simp: list_init_def chain_of_def butlast_append split: if_splits)
    then show ?thesis using links_invD(1) [OF assms(1) that] by simp
  qed
  moreover have "linked (list_init s d) (chain_of d [])" by (simp add: list_init_def chain_of_def)
  ultimately show ?thesis using assms unfolding links_inv_def by (auto simp: list_init_def)
qed

text \<open>Links outside of a chain do not matter to it.\<close>

lemma linked_frame:
  assumes "linked s ns" "\<And>x. x \<in> set ns \<Longrightarrow> l_next t x = l_next s x \<and> l_pre t x = l_pre s x"
  shows "linked t ns"
  using assms(1) linked_cong [of ns s t] assms(2) by (metis in_set_butlastD list.set_sel(2) tl_Nil)

lemma chain_parts:
  obtains A l where "Head d # map Node xs = A @ [l]" "chain_of d xs = A @ [l, Tail d]"
proof -
  obtain A l where "Head d # map Node xs = A @ [l]" by (metis append_butlast_last_id list.distinct(1))
  moreover from this have "chain_of d xs = A @ [l, Tail d]" by (simp add: chain_of_def)
  ultimately show thesis using that by blast
qed

lemma linked_front:
  assumes "linked s (A @ [l])" "\<And>x. x \<in> set A \<Longrightarrow> l_next t x = l_next s x" "\<And>x. x \<in> set (A @ [l]) \<Longrightarrow> l_pre t x = l_pre s x"
  shows "linked t (A @ [l])"
proof -
  have "linked s (A @ [l]) \<longleftrightarrow> linked t (A @ [l])"
    using assms(2,3) by (intro linked_cong) (simp_all del: set_append, metis list.set_sel(2) tl_Nil)
  then show ?thesis using assms(1) by simp
qed

lemma linked_back:
  assumes "linked s (r # B)" "\<And>x. x \<in> set (r # B) \<Longrightarrow> l_next t x = l_next s x" "\<And>x. x \<in> set B \<Longrightarrow> l_pre t x = l_pre s x"
  shows "linked t (r # B)"
proof -
  have "linked s (r # B) \<longleftrightarrow> linked t (r # B)"
  proof (rule linked_cong)
    fix x
    show "x \<in> set (butlast (r # B)) \<Longrightarrow> l_next s x = l_next t x" using assms(2) [OF in_set_butlastD [of x]] by simp
    show "x \<in> set (tl (r # B)) \<Longrightarrow> l_pre s x = l_pre t x" using assms(3) by simp
  qed
  then show ?thesis using assms(1) by simp
qed

text \<open>What is left to show when one list of a state changes.\<close>

lemma links_inv_update:
  assumes "links_inv D s L" "d \<in> D" "distinct xs"
    and "\<And>e. e \<in> D \<Longrightarrow> e \<noteq> d \<Longrightarrow> set xs \<inter> set (L e) = {}"
    and "\<And>e. e \<in> D \<Longrightarrow> e \<noteq> d \<Longrightarrow> linked t (chain_of e (L e))" "linked t (chain_of d xs)"
    and "\<And>m. m \<notin> set xs \<Longrightarrow> (\<And>e. e \<in> D \<Longrightarrow> e \<noteq> d \<Longrightarrow> m \<notin> set (L e)) \<Longrightarrow> l_pre t (Node m) = None \<and> l_next t (Node m) = None"
  shows "links_inv D t (L(d := xs))"
  unfolding links_inv_def
proof (intro conjI ballI allI impI)
  fix e f
  assume "e \<in> D" "f \<in> D" "e \<noteq> f"
  moreover from this have "set (L e) \<inter> set (L f) = {}" using assms(1) unfolding links_inv_def by blast
  ultimately show "set ((L(d := xs)) e) \<inter> set ((L(d := xs)) f) = {}"
    using assms(4) [of e] assms(4) [of f] by (simp add: Int_commute)
next
  fix m
  assume m: "\<forall>e \<in> D. m \<notin> set ((L(d := xs)) e)"
  have "m \<notin> set xs" using bspec [OF m assms(2)] by simp
  moreover have "m \<notin> set (L e)" if "e \<in> D" "e \<noteq> d" for e using bspec [OF m that(1)] that(2) by simp
  ultimately show "l_pre t (Node m) = None" "l_next t (Node m) = None" using assms(7) by blast+
next
  fix e
  assume "e \<in> D"
  then show "linked t (chain_of e ((L(d := xs)) e))" "distinct ((L(d := xs)) e)"
    using assms(3,5,6) links_invD(2) [OF assms(1)] by (cases "e = d"; simp)+
qed

lemma list_push_inv:
  assumes "links_inv D s L" "d \<in> D" "\<forall>e \<in> D. n \<notin> set (L e)"
  shows "links_inv D (list_push s d (Node n)) (L(d := L d @ [n]))"
proof -
  have free: "l_pre s (Node n) = None" "l_next s (Node n) = None" using linked_iff [OF assms(1), of n] assms(3) by simp_all
  obtain A l where A: "Head d # map Node (L d) = A @ [l]" "chain_of d (L d) = A @ [l, Tail d]" by (rule chain_parts)
  have lk: "linked s (A @ [l])" "linked s [l, Tail d]"
    using links_invD(1) [OF assms(1,2)] linked_append [of s A l "[Tail d]"] by (simp_all add: A(2))
  have mem: "set (A @ [l]) = insert (Head d) (Node ` set (L d))" using arg_cong [OF A(1), of set] by simp
  have dis: "distinct (A @ [l])" unfolding A(1) [symmetric] using links_invD(2) [OF assms(1,2)] by (auto simp: distinct_map inj_on_def)
  let ?s = "list_push s d (Node n)"
  have push: "l_next ?s = (l_next s)(l := Some (Node n), Node n := Some (Tail d))"
    "l_pre ?s = (l_pre s)(Node n := Some l, Tail d := Some (Node n))"
    using lk(2) by (simp_all add: list_push_def free Let_def)
  have l: "l \<in> insert (Head d) (Node ` set (L d))" using mem by auto
  have "linked ?s (chain_of e (L e))" if e: "e \<in> D" "e \<noteq> d" for e
  proof (rule linked_frame [OF links_invD(1) [OF assms(1) e(1)]])
    fix x
    assume "x \<in> set (chain_of e (L e))"
    then have "x \<noteq> l" "x \<noteq> Node n" "x \<noteq> Tail d"
      using l e assms(3) links_invD(3) [OF assms(1,2) e(1)] by (auto simp: chain_of_def)
    then show "l_next ?s x = l_next s x \<and> l_pre ?s x = l_pre s x" by (simp add: push)
  qed
  moreover have "linked ?s (chain_of d (L d @ [n]))"
  proof -
    have "Node n \<notin> set (A @ [l])" "Tail d \<notin> set (A @ [l])" unfolding mem using assms(2,3) by auto
    then have "linked ?s (A @ [l])" by (intro linked_front [OF lk(1)]) (use dis in \<open>auto simp: push\<close>)
    moreover have "chain_of d (L d @ [n]) = A @ l # [Node n, Tail d]" using A(1) by (simp add: chain_of_def)
    moreover have "linked ?s (l # [Node n, Tail d])"
      using \<open>Node n \<notin> set (A @ [l])\<close> by (auto simp: push)
    ultimately show ?thesis using linked_append [of ?s A l "[Node n, Tail d]"] by simp
  qed
  moreover have "l_pre ?s (Node m) = None \<and> l_next ?s (Node m) = None"
    if "m \<notin> set (L d @ [n])" "\<And>e. e \<in> D \<Longrightarrow> e \<noteq> d \<Longrightarrow> m \<notin> set (L e)" for m
    using that l linked_iff [OF assms(1), of m] by (auto simp: push)
  moreover have "set (L d @ [n]) \<inter> set (L e) = {}" if "e \<in> D" "e \<noteq> d" for e
    using links_invD(3) [OF assms(1,2) that(1)] that assms(3) by auto
  moreover have "distinct (L d @ [n])" using links_invD(2) [OF assms(1,2)] assms(2,3) by simp
  ultimately show ?thesis by (intro links_inv_update [OF assms(1,2)]) blast+
qed

lemma list_remove_inv:
  assumes "links_inv D s L" "d \<in> D" "L d = ys @ n # zs"
  shows "links_inv D (list_remove s (Node n)) (L(d := ys @ zs))"
proof -
  obtain A l where A: "Head d # map Node ys = A @ [l]" "chain_of d ys = A @ [l, Tail d]" by (rule chain_parts)
  obtain r B where B: "map Node zs @ [Tail d] = r # B" by (cases "map Node zs @ [Tail d]") simp_all
  have "chain_of d (L d) = (Head d # map Node ys) @ Node n # (map Node zs @ [Tail d])"
    "chain_of d (ys @ zs) = (Head d # map Node ys) @ (map Node zs @ [Tail d])"
    by (simp_all add: chain_of_def assms(3))
  then have chain: "chain_of d (L d) = A @ l # Node n # r # B" "chain_of d (ys @ zs) = A @ l # r # B"
    unfolding A(1) B by simp_all
  have lk: "linked s (A @ [l])" "linked s (l # Node n # r # B)"
    using links_invD(1) [OF assms(1,2)] unfolding chain(1) linked_append [of s A l "Node n # r # B"] by blast+
  then have lk': "linked s (r # B)" by simp
  have memA: "set (A @ [l]) = insert (Head d) (Node ` set ys)" and memB: "set (r # B) = insert (Tail d) (Node ` set zs)"
    using arg_cong [OF A(1), of set] arg_cong [OF B, of set] by (simp_all add: Un_commute)
  have dis: "distinct (ys @ n # zs)" using links_invD(2) [OF assms(1,2)] assms(3) by simp
  have disA: "distinct (A @ [l])" and disB: "distinct (r # B)"
    unfolding A(1) [symmetric] B [symmetric] using dis by (auto simp: distinct_map inj_on_def)
  have l: "l \<in> insert (Head d) (Node ` set ys)" and r: "r \<in> insert (Tail d) (Node ` set zs)" using memA memB by auto
  let ?s = "list_remove s (Node n)"
  have rem: "l_next ?s = (l_next s)(l := Some r, Node n := None)" "l_pre ?s = (l_pre s)(r := Some l, Node n := None)"
    using lk(2) by (simp_all add: list_remove_def)
  have "linked ?s (chain_of e (L e))" if e: "e \<in> D" "e \<noteq> d" for e
  proof (rule linked_frame [OF links_invD(1) [OF assms(1) e(1)]])
    fix x
    assume "x \<in> set (chain_of e (L e))"
    then have "x \<noteq> l" "x \<noteq> r" "x \<noteq> Node n"
      using l r e assms(3) links_invD(3) [OF assms(1,2) e(1)] by (auto simp: chain_of_def)
    then show "l_next ?s x = l_next s x \<and> l_pre ?s x = l_pre s x" by (simp add: rem)
  qed
  moreover have "linked ?s (chain_of d (ys @ zs))"
  proof -
    have n: "Node n \<notin> set (A @ [l])" "Node n \<notin> set (r # B)" "set (A @ [l]) \<inter> set (r # B) = {}"
      unfolding memA memB using dis by auto
    have "linked ?s (A @ [l])" by (rule linked_front [OF lk(1)]) (use disA n in \<open>auto simp: rem\<close>)
    moreover have "linked ?s (r # B)" by (rule linked_back [OF lk']) (use disB n in \<open>auto simp: rem\<close>)
    moreover have "l_next ?s l = Some r" "l_pre ?s r = Some l" using n by (auto simp: rem)
    ultimately show ?thesis using linked_append [of ?s A l "r # B"] by (simp add: chain(2))
  qed
  moreover have "l_pre ?s (Node m) = None \<and> l_next ?s (Node m) = None"
    if "m \<notin> set (ys @ zs)" "\<And>e. e \<in> D \<Longrightarrow> e \<noteq> d \<Longrightarrow> m \<notin> set (L e)" for m
  proof (cases "m = n")
    case False
    then have "\<forall>e \<in> D. m \<notin> set (L e)" using that assms(3) by (metis Un_iff set_ConsD set_append)
    then have "l_pre s (Node m) = None" "l_next s (Node m) = None" using linked_iff [OF assms(1), of m] by simp_all
    moreover have "Node m \<noteq> l" "Node m \<noteq> r" using l r that(1) by auto
    ultimately show ?thesis by (simp add: rem False)
  qed (simp add: rem)
  moreover have "set (ys @ zs) \<inter> set (L e) = {}" if "e \<in> D" "e \<noteq> d" for e
    using links_invD(3) [OF assms(1,2) that(1)] that assms(3) by auto
  moreover have "distinct (ys @ zs)" using dis by simp
  ultimately show ?thesis by (intro links_inv_update [OF assms(1,2)]) blast+
qed

lemma list_push_member:
  assumes "links_inv D s L" "e \<in> D" "n \<in> set (L e)"
  shows "list_push s d (Node n) = s"
proof -
  have "l_pre s (Node n) \<noteq> None" using linked_iff(1) [OF assms(1), of n] assms(2,3) by blast
  then show ?thesis by (auto simp: list_push_def)
qed

lemma list_empty_iff: "links_inv D s L \<Longrightarrow> d \<in> D \<Longrightarrow> list_empty s d \<longleftrightarrow> L d = []"
  using links_invD(1) [of D s L d] by (cases "L d") (auto simp: list_empty_def chain_of_def)

lemma list_pop_inv:
  assumes "links_inv D s L" "d \<in> D" "L d = x # xs"
  shows "\<exists>s'. list_pop s d = (Some (Node x), s') \<and> links_inv D s' (L(d := xs))"
proof -
  have "\<not> list_empty s d" using list_empty_iff [OF assms(1,2)] assms(3) by simp
  moreover have "l_next s (Head d) = Some (Node x)"
    using links_invD(1) [OF assms(1,2)] assms(3) by (simp add: chain_of_def)
  ultimately show ?thesis using list_remove_inv [OF assms(1,2), of "[]" x xs] assms(3) by (simp add: list_pop_def Let_def)
qed

lemma list_pop_none: "links_inv D s L \<Longrightarrow> d \<in> D \<Longrightarrow> L d = [] \<Longrightarrow> list_pop s d = (None, s)"
  using list_empty_iff [of D s L d] by (simp add: list_pop_def)

definition no_links :: "'n links" where
  "no_links = \<lparr>l_pre = (\<lambda>_. None), l_next = (\<lambda>_. None)\<rparr>"

lemma no_links_inv: "links_inv {} no_links L"
  by (simp add: links_inv_def no_links_def)

section \<open>Lists of nodes as an interface\<close>

text \<open>
  What the clients of the lists rely on: named sequences of nodes without repetition, where a node
  knows whether it is in some sequence.
\<close>

locale node_lists =
  fixes inv :: "'s \<Rightarrow> ('d \<Rightarrow> 'n list) \<Rightarrow> bool" and names :: "'d set"
    and push :: "'s \<Rightarrow> 'd \<Rightarrow> 'n \<Rightarrow> 's" and pop :: "'s \<Rightarrow> 'd \<Rightarrow> 'n option \<times> 's" and is_free :: "'s \<Rightarrow> 'n \<Rightarrow> bool"
  assumes pushed: "inv s L \<Longrightarrow> d \<in> names \<Longrightarrow> is_free s n \<Longrightarrow> inv (push s d n) (L(d := L d @ [n]))"
    and kept: "inv s L \<Longrightarrow> d \<in> names \<Longrightarrow> \<not> is_free s n \<Longrightarrow> push s d n = s"
    and popped: "inv s L \<Longrightarrow> d \<in> names \<Longrightarrow> L d = x # xs \<Longrightarrow> \<exists>s'. pop s d = (Some x, s') \<and> inv s' (L(d := xs))"
    and pop_none: "inv s L \<Longrightarrow> d \<in> names \<Longrightarrow> L d = [] \<Longrightarrow> pop s d = (None, s)"
    and free_iff: "inv s L \<Longrightarrow> is_free s n \<longleftrightarrow> (\<forall>d \<in> names. n \<notin> set (L d))"
begin

lemma pushes:
  assumes "inv s L" "d \<in> names"
  shows "\<exists>L'. inv (fold (\<lambda>n s. push s d n) ns s) L' \<and> (\<forall>e. e \<noteq> d \<longrightarrow> L' e = L e)
     \<and> set (L' d) \<union> (\<Union>e \<in> names - {d}. set (L e)) = set (L d) \<union> set ns \<union> (\<Union>e \<in> names - {d}. set (L e))"
  using assms(1)
proof (induction ns arbitrary: s L)
  case (Cons n ns)
  show ?case
  proof (cases "is_free s n")
    case True
    from Cons.IH [OF pushed [OF Cons.prems assms(2) True]] show ?thesis by (auto simp: True)
  next
    case False
    then have "n \<in> set (L d) \<union> (\<Union>e \<in> names - {d}. set (L e))" using free_iff [OF Cons.prems, of n] by auto
    then show ?thesis using Cons.IH [OF Cons.prems] kept [OF Cons.prems assms(2) False] by auto
  qed
qed auto

end

definition node_free :: "'n links \<Rightarrow> 'n \<Rightarrow> bool" where
  "node_free s n \<longleftrightarrow> l_pre s (Node n) = None \<and> l_next s (Node n) = None"

definition pop_node :: "'n links \<Rightarrow> nat \<Rightarrow> 'n option \<times> 'n links" where
  "pop_node s d = (case list_pop s d of (Some (Node n), s) \<Rightarrow> (Some n, s) | (_, s) \<Rightarrow> (None, s))"

interpretation dl: node_lists "links_inv D" D "\<lambda>s d n. list_push s d (Node n)" pop_node node_free for D :: "nat set"
proof
  fix s :: "'n links" and L :: "nat \<Rightarrow> 'n list" and d :: nat and n :: 'n
  assume inv: "links_inv D s L"
  show free: "node_free s n \<longleftrightarrow> (\<forall>d \<in> D. n \<notin> set (L d))"
    using linked_iff [OF inv, of n] by (simp add: node_free_def)
  assume d: "d \<in> D"
  show "node_free s n \<Longrightarrow> links_inv D (list_push s d (Node n)) (L(d := L d @ [n]))"
    using free list_push_inv [OF inv d] by simp
  show "\<not> node_free s n \<Longrightarrow> list_push s d (Node n) = s" using free list_push_member [OF inv] by blast
  show "L d = x # xs \<Longrightarrow> \<exists>s'. pop_node s d = (Some x, s') \<and> links_inv D s' (L(d := xs))" for x xs
    using list_pop_inv [OF inv d, of x xs] by (auto simp: pop_node_def)
  show "L d = [] \<Longrightarrow> pop_node s d = (None, s)" using list_pop_none [OF inv d] by (simp add: pop_node_def)
qed

end
