(* ===== verification/Pathfinder.thy ===== *)
theory Pathfinder
  imports Min_Heap Linked_List Lua_Value
begin

text \<open>
  The grid search of \<open>src/luaclib/pathfinder.c\<close> and its Lua binding \<open>src/luaclib/lua-pathfinder.c\<close>.
  A node of the grid is named by its coordinates, which the code stores in it; its other fields are
  maps over the nodes. The open list is the binary heap, the close list and the list of neighbours
  are two linked lists through the same nodes. The costs are floats.

  A failed assertion, an access outside of an array and an overflow of the number of nodes, which is
  an \<open>int\<close>, are faults; the arrays of the heap are those of \<open>Min_Heap\<close>. The loops that follow pointers
  get fuel: one more than the number of nodes.
\<close>

section \<open>Data\<close>

type_synonym cell = "int \<times> int"

declare split_paired_All [simp del] split_paired_Ex [simp del]

datatype finder_fault = Assertion_failed | Wild_read | Int_overflow | Out_of_fuel | File_error

definition MARK_MAX :: nat where "MARK_MAX = 64"

definition CLOSELIST :: nat where "CLOSELIST = 0"
definition NEIGHBORS :: nat where "NEIGHBORS = 1"

record pathfinder =
  pf_width :: int
  pf_heigh :: int
  pf_data :: "byte list"
  pf_mask :: "byte list"
  pf_open :: "cell minheap"
  pf_links :: "cell links"
  pf_parent :: "cell \<Rightarrow> cell option"
  pf_G :: "cell \<Rightarrow> cfloat"
  pf_H :: "cell \<Rightarrow> cfloat"
  pf_F :: "cell \<Rightarrow> cfloat"

text \<open>The byte of a node is a signed \<open>char\<close>.\<close>

definition pf_block :: "pathfinder \<Rightarrow> cell \<Rightarrow> int" where
  "pf_block f c = sint (pf_data f ! nat (fst c * pf_heigh f + snd c))"

definition directions :: "cell list" where
  "directions = [(- 1, 0), (1, 0), (0, - 1), (0, 1), (- 1, - 1), (- 1, 1), (1, - 1), (1, 1)]"

definition find_node :: "pathfinder \<Rightarrow> int \<Rightarrow> int \<Rightarrow> cell option" where
  "find_node f x z = (if x < 0 \<or> x \<ge> pf_width f \<or> z < 0 \<or> z \<ge> pf_heigh f then None else Some (x, z))"

section \<open>Search\<close>

definition push_neighbor :: "cell \<Rightarrow> cell \<Rightarrow> pathfinder \<Rightarrow> pathfinder" where
  "push_neighbor node d f =
     (case find_node f (fst node + fst d) (snd node + snd d) of
        None \<Rightarrow> f
      | Some nb \<Rightarrow>
          if \<not> node_free (pf_links f) nb then f
          else if pf_block f nb \<noteq> 0 then f\<lparr>pf_links := list_push (pf_links f) NEIGHBORS (Node nb)\<rparr>
          else f)"

definition find_neighbors :: "pathfinder \<Rightarrow> cell \<Rightarrow> finder_fault + pathfinder" where
  "find_neighbors f node =
     (if \<not> list_empty (pf_links f) NEIGHBORS then Inl Assertion_failed
      else Inr (fold (push_neighbor node) directions f))"

definition neighbor_cost :: "cell \<Rightarrow> cell \<Rightarrow> cfloat" where
  "neighbor_cost from to =
     (if (fst from - fst to, snd from - snd to) \<in> set (take 4 directions) then int_to_float 50 else int_to_float 60)"

definition goal_cost :: "cell \<Rightarrow> cell \<Rightarrow> cfloat \<Rightarrow> cfloat" where
  "goal_cost from to cost =
     float_add (float_mul (int_to_float \<bar>fst from - fst to\<bar>) cost) (float_mul (int_to_float \<bar>snd from - snd to\<bar>) cost)"

definition clear_node :: "cell \<Rightarrow> pathfinder \<Rightarrow> pathfinder" where
  "clear_node c f =
     f\<lparr>pf_parent := (pf_parent f)(c := None), pf_F := (pf_F f)(c := 0), pf_G := (pf_G f)(c := 0), pf_H := (pf_H f)(c := 0),
       pf_open := (pf_open f)\<lparr>mh_index := (mh_index (pf_open f))(c := 0)\<rparr>\<rparr>"

fun clear_closed :: "nat \<Rightarrow> pathfinder \<Rightarrow> finder_fault + pathfinder" where
  "clear_closed 0 f = Inl Out_of_fuel"
| "clear_closed (Suc fuel) f =
     (case pop_node (pf_links f) CLOSELIST of
        (None, l) \<Rightarrow> Inr (f\<lparr>pf_links := l\<rparr>)
      | (Some c, l) \<Rightarrow> clear_closed fuel (clear_node c (f\<lparr>pf_links := l\<rparr>)))"

text \<open>\<open>minheap_clear\<close> with the callback \<open>heap_clear\<close>.\<close>

definition heap_clear :: "pathfinder \<Rightarrow> pathfinder" where
  "heap_clear f =
     (let f = fold (\<lambda>i f. clear_node (heap_at (pf_open f) i) f) [1..<Suc (mh_size (pf_open f))] f
      in f\<lparr>pf_open := (pf_open f)\<lparr>mh_size := 0\<rparr>\<rparr>)"

definition node_fuel :: "pathfinder \<Rightarrow> nat" where
  "node_fuel f = Suc (nat (pf_width f * pf_heigh f))"

definition reset :: "pathfinder \<Rightarrow> finder_fault + pathfinder" where
  "reset f = rbind (clear_closed (node_fuel f) f) (\<lambda>f. Inr (heap_clear f))"

definition less_F :: "pathfinder \<Rightarrow> cell \<Rightarrow> cell \<Rightarrow> bool" where
  "less_F f l r = float_less (pf_F f l) (pf_F f r)"

text \<open>The cells that the callback gets: the end, the turning points and the start.\<close>

fun path_loop :: "nat \<Rightarrow> pathfinder \<Rightarrow> cell \<Rightarrow> cell \<Rightarrow> cell \<Rightarrow> finder_fault + cell list" where
  "path_loop 0 f current from d0 = Inl Out_of_fuel"
| "path_loop (Suc fuel) f current from d0 =
     (if current \<noteq> from
      then (case pf_parent f current of
              Some parent \<Rightarrow>
                (let d1 = (fst current - fst parent, snd current - snd parent)
                 in if d0 \<noteq> d1 then rbind (path_loop fuel f parent from d1) (\<lambda>cs. Inr (current # cs))
                    else path_loop fuel f parent from d0)
            | None \<Rightarrow> Inr [current])
      else Inr [current])"

definition make_path :: "pathfinder \<Rightarrow> cell \<Rightarrow> cell \<Rightarrow> finder_fault + cell list" where
  "make_path f current from =
     (case pf_parent f current of
        None \<Rightarrow> Inl Assertion_failed
      | Some parent \<Rightarrow>
          rbind (path_loop (node_fuel f) f parent from (fst current - fst parent, snd current - snd parent))
            (\<lambda>cs. Inr (current # cs)))"

text \<open>One neighbour of the node that is expanded; the second result is what is dumped.\<close>

definition relax :: "cell \<Rightarrow> cell \<Rightarrow> cfloat \<Rightarrow> cell \<Rightarrow> pathfinder \<Rightarrow> pathfinder \<times> cell list" where
  "relax current to cost node f =
     (let g = float_add (pf_G f current) (neighbor_cost current node)
      in if mh_index (pf_open f) node \<noteq> 0
         then (let nG = int_to_float (float_to_int g)
               in if float_less nG (pf_G f node)
                  then (let f = f\<lparr>pf_G := (pf_G f)(node := nG), pf_F := (pf_F f)(node := float_add nG (pf_H f node)),
                                 pf_parent := (pf_parent f)(node := Some current)\<rparr>
                        in (f\<lparr>pf_open := minheap_change (less_F f) (pf_open f) node\<rparr>, []))
                  else (f, []))
         else (let h = goal_cost node to cost;
                   f = f\<lparr>pf_parent := (pf_parent f)(node := Some current), pf_G := (pf_G f)(node := g),
                         pf_H := (pf_H f)(node := h), pf_F := (pf_F f)(node := float_add g h)\<rparr>
               in (f\<lparr>pf_open := minheap_push (less_F f) (pf_open f) node\<rparr>, [node])))"

fun relax_loop :: "nat \<Rightarrow> cell \<Rightarrow> cell \<Rightarrow> cfloat \<Rightarrow> pathfinder \<Rightarrow> finder_fault + (pathfinder \<times> cell list)" where
  "relax_loop 0 current to cost f = Inl Out_of_fuel"
| "relax_loop (Suc fuel) current to cost f =
     (case pop_node (pf_links f) NEIGHBORS of
        (None, l) \<Rightarrow> Inr (f\<lparr>pf_links := l\<rparr>, [])
      | (Some node, l) \<Rightarrow>
          (case relax current to cost node (f\<lparr>pf_links := l\<rparr>) of (f, dump) \<Rightarrow>
             rbind (relax_loop fuel current to cost f) (\<lambda>(f, dumps). Inr (f, dump @ dumps))))"

text \<open>The result: whether a path was found, the cells of the path, the dumped cells, the state.\<close>

type_synonym found = "bool \<times> cell list \<times> cell list \<times> pathfinder"

fun search_loop :: "nat \<Rightarrow> cell \<Rightarrow> cell \<Rightarrow> cfloat \<Rightarrow> pathfinder \<Rightarrow> finder_fault + found" where
  "search_loop 0 from to cost f = Inl Out_of_fuel"
| "search_loop (Suc fuel) from to cost f =
     (case minheap_pop (less_F f) (pf_open f) of
        (None, h) \<Rightarrow> rbind (reset (f\<lparr>pf_open := h\<rparr>)) (\<lambda>f. Inr (False, [], [], f))
      | (Some current, h) \<Rightarrow>
          (let f = f\<lparr>pf_open := h, pf_links := list_push (pf_links f) CLOSELIST (Node current)\<rparr>
           in if current = to
              then rbind (make_path f current from) (\<lambda>path. rbind (reset f) (\<lambda>f. Inr (True, path, [], f)))
              else rbind (find_neighbors f current) (\<lambda>f.
                   rbind (relax_loop 9 current to cost f) (\<lambda>(f, dump).
                   rbind (search_loop fuel from to cost f) (\<lambda>(r, path, dumps, f). Inr (r, path, dump @ dumps, f))))))"

definition finder_find :: "pathfinder \<Rightarrow> int \<Rightarrow> int \<Rightarrow> int \<Rightarrow> int \<Rightarrow> cfloat \<Rightarrow> finder_fault + found" where
  "finder_find f x0 z0 x1 z1 cost =
     (case (find_node f x0 z0, find_node f x1 z1) of
        (Some from, Some to) \<Rightarrow>
          if from = to \<or> pf_block f to = 0 then Inr (False, [], [], f)
          else search_loop (node_fuel f) from to cost (f\<lparr>pf_open := minheap_push (less_F f) (pf_open f) from\<rparr>)
      | _ \<Rightarrow> Inr (False, [], [], f))"

section \<open>Creation and masks\<close>

definition finder_create :: "int \<Rightarrow> int \<Rightarrow> byte list \<Rightarrow> finder_fault + pathfinder" where
  "finder_create width heigh data =
     (if \<not> fits_int (width * heigh) then Inl Int_overflow
      else if width * heigh < 0 \<or> int (length data) < width * heigh then Inl Wild_read
      else Inr \<lparr>pf_width = width, pf_heigh = heigh, pf_data = take (nat (width * heigh)) data, pf_mask = replicate MARK_MAX 0,
                pf_open = minheap_create 2500, pf_links = list_init (list_init no_links CLOSELIST) NEIGHBORS,
                pf_parent = (\<lambda>_. None), pf_G = (\<lambda>_. 0), pf_H = (\<lambda>_. 0), pf_F = (\<lambda>_. 0)\<rparr>)"

definition movable :: "pathfinder \<Rightarrow> int \<Rightarrow> int \<Rightarrow> int \<Rightarrow> finder_fault + bool" where
  "movable f x z ignore =
     (case find_node f x z of
        None \<Rightarrow> Inr False
      | Some c \<Rightarrow>
          if ignore \<noteq> 0 then Inr (pf_block f c \<noteq> 0)
          else if pf_block f c < 0 \<or> pf_block f c \<ge> int MARK_MAX then Inl Wild_read
          else Inr (pf_mask f ! nat (pf_block f c) = 1))"

definition finder_movable :: "pathfinder \<Rightarrow> int \<Rightarrow> int \<Rightarrow> int \<Rightarrow> finder_fault + bool" where
  "finder_movable f x z ignore = movable f x z ignore"

definition finder_mask_set :: "pathfinder \<Rightarrow> int \<Rightarrow> int \<Rightarrow> pathfinder" where
  "finder_mask_set f index enable =
     (if index < 0 \<or> index \<ge> int MARK_MAX then f else f\<lparr>pf_mask := (pf_mask f)[nat index := word_of_int enable]\<rparr>)"

definition finder_mask_reset :: "pathfinder \<Rightarrow> pathfinder" where
  "finder_mask_reset f = fold (\<lambda>i f. f\<lparr>pf_mask := (pf_mask f)[i := 0]\<rparr>) [0..<MARK_MAX] f"

section \<open>Rays\<close>

text \<open>
  The six loops have one shape: while a condition on the running coordinate holds, compute the
  point, stop at the first cell that is not movable, and remember the point otherwise. The result
  tells whether the ray was stopped, the last point, and the dumped cells.
\<close>

type_synonym point = "cfloat \<times> cfloat"

definition cell_at :: "point \<Rightarrow> cell" where
  "cell_at p = (float_to_int (fst p), float_to_int (snd p))"

fun ray_loop ::
  "nat \<Rightarrow> pathfinder \<Rightarrow> int \<Rightarrow> (cfloat \<Rightarrow> bool) \<Rightarrow> cfloat \<Rightarrow> (cfloat \<Rightarrow> cell) \<Rightarrow> (cfloat \<Rightarrow> point) \<Rightarrow> cfloat \<Rightarrow> point
   \<Rightarrow> finder_fault + (bool \<times> point \<times> cell list)" where
  "ray_loop 0 f ignore cond inc to_cell at t r = Inl Out_of_fuel"
| "ray_loop (Suc fuel) f ignore cond inc to_cell at t r =
     (if \<not> cond t then Inr (False, r, [])
      else (let c = to_cell t
            in rbind (movable f (fst c) (snd c) ignore) (\<lambda>ok.
                 if \<not> ok then Inr (True, r, [c])
                 else rbind (ray_loop fuel f ignore cond inc to_cell at (float_add t inc) (at t)) (\<lambda>(b, r, cs). Inr (b, r, c # cs)))))"

definition half :: cfloat where "half = 0x3F000000"

definition ray_fuel :: "int \<Rightarrow> int \<Rightarrow> nat" where
  "ray_fuel a b = nat (\<bar>a - b\<bar> + 3)"

definition finder_raycast :: "pathfinder \<Rightarrow> int \<Rightarrow> int \<Rightarrow> int \<Rightarrow> int \<Rightarrow> int \<Rightarrow> finder_fault + (cell \<times> cell list)" where
  "finder_raycast f x0 z0 x1 z1 ignore =
     (let fx0 = float_add (int_to_float x0) half; fz0 = float_add (int_to_float z0) half;
          fx1 = float_add (int_to_float x1) half; fz1 = float_add (int_to_float z1) half;
          one = int_to_float 1; minus = int_to_float (- 1);
          slope = float_div (float_sub fz1 fz0) (float_sub fx1 fx0);
          on_x = (\<lambda>x. (x, float_add (float_mul slope (float_sub x fx0)) fz0));
          on_z = (\<lambda>z. (float_add (float_div (float_sub z fz0) slope) fx0, z));
          ray = (if float_eq fx0 fx1
                 then if z0 < z1
                      then ray_loop (ray_fuel z0 z1) f ignore (\<lambda>z. float_le z (int_to_float z1)) one
                             (\<lambda>z. (x0, float_to_int z)) (\<lambda>z. (int_to_float x0, z)) (int_to_float z0) (fx0, fz0)
                      else ray_loop (ray_fuel z0 z1) f ignore (\<lambda>z. float_le (int_to_float z1) z) minus
                             (\<lambda>z. (x0, float_to_int z)) (\<lambda>z. (int_to_float x0, z)) (int_to_float z0) (fx0, fz0)
                 else if \<bar>float_to_int slope\<bar> < 1
                 then if float_le fx0 fx1
                      then ray_loop (ray_fuel x0 x1) f ignore (\<lambda>x. float_le x fx1) one (\<lambda>t. cell_at (on_x t)) on_x fx0 (fx0, fz0)
                      else ray_loop (ray_fuel x0 x1) f ignore (\<lambda>x. float_le fx1 x) minus (\<lambda>t. cell_at (on_x t)) on_x fx0 (fx0, fz0)
                 else if float_le fz0 fz1
                 then ray_loop (ray_fuel z0 z1) f ignore (\<lambda>z. float_le z fz1) one (\<lambda>t. cell_at (on_z t)) on_z fz0 (fx0, fz0)
                 else ray_loop (ray_fuel z0 z1) f ignore (\<lambda>z. float_le fz1 z) minus (\<lambda>t. cell_at (on_z t)) on_z fz0 (fx0, fz0))
      in rbind ray (\<lambda>(founded, r, dump).
           rbind (if founded then Inr False else movable f (float_to_int fx1) (float_to_int fz1) ignore) (\<lambda>free.
             Inr (cell_at (if free then (int_to_float x1, int_to_float z1) else r), dump))))"

section \<open>The Lua binding\<close>

definition finder_callback :: "cell \<Rightarrow> lua_value \<times> nat \<Rightarrow> lua_value \<times> nat" where
  "finder_callback c s =
     (case s of (t, i) \<Rightarrow>
        (lua_rawseti (lua_rawseti t (i + 1) (LInt (word_of_int (fst c)))) (i + 2) (LInt (word_of_int (snd c))), i + 2))"

definition lfind :: "pathfinder \<Rightarrow> lua_value \<Rightarrow> lua_value \<Rightarrow> lua_value \<Rightarrow> lua_value \<Rightarrow> finder_fault + (lua_value option \<times> pathfinder)" where
  "lfind f x0 z0 x1 z1 =
     rbind (finder_find f (c_int x0) (c_int z0) (c_int x1) (c_int z1) (int_to_float 50)) (\<lambda>(ok, path, dump, f).
       Inr (if ok then Some (fst (fold finder_callback path (empty_table, 0))) else None, f))"

definition lraycast :: "pathfinder \<Rightarrow> lua_value \<Rightarrow> lua_value \<Rightarrow> lua_value \<Rightarrow> lua_value \<Rightarrow> lua_value \<Rightarrow> finder_fault + (lua_value \<times> lua_value)" where
  "lraycast f x0 z0 x1 z1 ignore =
     rbind (finder_raycast f (c_int x0) (c_int z0) (c_int x1) (c_int z1) (c_int ignore)) (\<lambda>((rx, rz), dump).
       Inr (LInt (word_of_int rx), LInt (word_of_int rz)))"

definition lmovable :: "pathfinder \<Rightarrow> lua_value \<Rightarrow> lua_value \<Rightarrow> lua_value \<Rightarrow> finder_fault + lua_value" where
  "lmovable f x z ignore = rbind (finder_movable f (c_int x) (c_int z) (c_int ignore)) (\<lambda>ok. Inr (LBool ok))"

definition lmask_set :: "pathfinder \<Rightarrow> lua_value \<Rightarrow> lua_value \<Rightarrow> pathfinder" where
  "lmask_set f index enable = finder_mask_set f (c_int index) (c_int enable)"

definition lmask_reset :: "pathfinder \<Rightarrow> pathfinder" where
  "lmask_reset f = finder_mask_reset f"

text \<open>
  The file starts with the two dimensions. Nothing compares them with the size of the file, so
  that the creation reads behind the buffer when the file is too short.
\<close>

definition lcreate :: "byte list option \<Rightarrow> finder_fault + pathfinder" where
  "lcreate file =
     (case file of
        None \<Rightarrow> Inl File_error
      | Some bs \<Rightarrow>
          if length bs < 8 then Inl Wild_read
          else finder_create (sint (word_of_nat (le_val (take 4 bs)) :: 32 word))
                 (sint (word_of_nat (le_val (take 4 (drop 4 bs))) :: 32 word)) (drop 8 bs))"

section \<open>The grid\<close>

definition in_grid :: "pathfinder \<Rightarrow> cell \<Rightarrow> bool" where
  "in_grid f c \<longleftrightarrow> 0 \<le> fst c \<and> fst c < pf_width f \<and> 0 \<le> snd c \<and> snd c < pf_heigh f"

lemma find_node_Some: "find_node f x z = Some c \<longleftrightarrow> c = (x, z) \<and> in_grid f c"
  by (auto simp: find_node_def in_grid_def)

text \<open>A move to one of the eight neighbours, onto a cell that is not blocked.\<close>

definition move :: "pathfinder \<Rightarrow> cell \<Rightarrow> cell \<Rightarrow> bool" where
  "move f a b \<longleftrightarrow> in_grid f b \<and> pf_block f b \<noteq> 0 \<and> (fst b - fst a, snd b - snd a) \<in> set directions"

definition same_grid :: "pathfinder \<Rightarrow> pathfinder \<Rightarrow> bool" where
  "same_grid f g \<longleftrightarrow> pf_width g = pf_width f \<and> pf_heigh g = pf_heigh f \<and> pf_data g = pf_data f \<and> pf_mask g = pf_mask f"

lemma same_grid_move:
  assumes "same_grid f g"
  shows "move g = move f" "in_grid g = in_grid f" "pf_block g = pf_block f" "find_node g = find_node f" "node_fuel g = node_fuel f"
  using assms by (auto simp: same_grid_def move_def in_grid_def pf_block_def find_node_def node_fuel_def fun_eq_iff)

lemma same_grid_refl [simp]: "same_grid f f"
  and same_grid_trans: "same_grid f g \<Longrightarrow> same_grid g h \<Longrightarrow> same_grid f h"
  by (simp_all add: same_grid_def)

lemma same_grid_update [simp]:
  "same_grid f (g\<lparr>pf_links := l\<rparr>) = same_grid f g" "same_grid f (g\<lparr>pf_open := h\<rparr>) = same_grid f g"
  "same_grid f (g\<lparr>pf_parent := p\<rparr>) = same_grid f g" "same_grid f (g\<lparr>pf_G := v\<rparr>) = same_grid f g"
  "same_grid f (g\<lparr>pf_H := v\<rparr>) = same_grid f g" "same_grid f (g\<lparr>pf_F := v\<rparr>) = same_grid f g"
  by (simp_all add: same_grid_def)

lemma finite_grid: "finite {c. in_grid f c}" "card {c. in_grid f c} \<le> nat (pf_width f * pf_heigh f)"
proof -
  have e: "{c. in_grid f c} = {0..<pf_width f} \<times> {0..<pf_heigh f}" by (auto simp: in_grid_def)
  show "finite {c. in_grid f c}" by (simp add: e)
  show "card {c. in_grid f c} \<le> nat (pf_width f * pf_heigh f)"
    by (cases "0 \<le> pf_width f \<and> 0 \<le> pf_heigh f") (auto simp: e card_cartesian_product nat_mult_distrib)
qed

section \<open>The invariant of the search\<close>

definition LISTS :: "nat set" where "LISTS = {CLOSELIST, NEIGHBORS}"

definition named :: "cell list \<Rightarrow> cell list \<Rightarrow> nat \<Rightarrow> cell list" where
  "named C N = (\<lambda>_. [])(CLOSELIST := C, NEIGHBORS := N)"

lemma named_simps [simp]:
  "named C N CLOSELIST = C" "named C N NEIGHBORS = N" "(named C N)(CLOSELIST := C') = named C' N" "(named C N)(NEIGHBORS := N') = named C N'"
  "CLOSELIST \<in> LISTS" "NEIGHBORS \<in> LISTS" "NEIGHBORS \<noteq> CLOSELIST"
  by (auto simp: named_def LISTS_def CLOSELIST_def NEIGHBORS_def fun_eq_iff)

lemma free_named: "links_inv LISTS l (named C N) \<Longrightarrow> node_free l c \<longleftrightarrow> c \<notin> set C \<and> c \<notin> set N"
  using dl.free_iff [of LISTS l "named C N" c] by (auto simp: LISTS_def named_def CLOSELIST_def NEIGHBORS_def)

text \<open>
  The closed nodes in the order in which they were closed, and the open ones: the start is the first
  closed node, every other node has a closed parent that it is one move away from, closed before it
  if it is closed. The rest of the nodes is untouched.
\<close>

definition tree :: "pathfinder \<Rightarrow> cell \<Rightarrow> cell list \<Rightarrow> bool" where
  "tree f from C \<longleftrightarrow>
     (C = [] \<longrightarrow> contents (pf_open f) = {from}) \<and> (C \<noteq> [] \<longrightarrow> hd C = from)
     \<and> (\<forall>n \<in> contents (pf_open f). n \<noteq> from \<longrightarrow> (\<exists>p \<in> set C. pf_parent f n = Some p \<and> move f p n))
     \<and> (\<forall>i < length C. 0 < i \<longrightarrow> (\<exists>j < i. pf_parent f (C ! i) = Some (C ! j) \<and> move f (C ! j) (C ! i)))"

definition untouched :: "pathfinder \<Rightarrow> cell \<Rightarrow> bool" where
  "untouched f c \<longleftrightarrow> pf_parent f c = None \<and> pf_G f c = 0 \<and> pf_H f c = 0 \<and> pf_F f c = 0"

definition searching :: "pathfinder \<Rightarrow> cell \<Rightarrow> cell list \<Rightarrow> cell list \<Rightarrow> bool" where
  "searching f from C N \<longleftrightarrow>
     links_inv LISTS (pf_links f) (named C N) \<and> heap_inv (pf_open f) \<and> set C \<inter> contents (pf_open f) = {}
     \<and> in_grid f from \<and> tree f from C \<and> (\<forall>c. c \<notin> set C \<union> contents (pf_open f) \<longrightarrow> untouched f c)"

text \<open>Every move from a closed node leads to a node that is closed, open or a waiting neighbour.\<close>

definition expanded :: "pathfinder \<Rightarrow> cell list \<Rightarrow> cell list \<Rightarrow> bool" where
  "expanded f C N \<longleftrightarrow> (\<forall>c \<in> set C. \<forall>b. move f c b \<longrightarrow> b \<in> set C \<union> contents (pf_open f) \<union> set N)"

lemma treeD:
  assumes "tree f from C"
  shows "C = [] \<Longrightarrow> contents (pf_open f) = {from}" "C \<noteq> [] \<Longrightarrow> hd C = from"
    "n \<in> contents (pf_open f) \<Longrightarrow> n \<noteq> from \<Longrightarrow> \<exists>p \<in> set C. pf_parent f n = Some p \<and> move f p n"
    "i < length C \<Longrightarrow> 0 < i \<Longrightarrow> \<exists>j < i. pf_parent f (C ! i) = Some (C ! j) \<and> move f (C ! j) (C ! i)"
  using assms unfolding tree_def by blast+

lemma searchingD:
  assumes "searching f from C N"
  shows "links_inv LISTS (pf_links f) (named C N)" "heap_inv (pf_open f)" "set C \<inter> contents (pf_open f) = {}"
    "in_grid f from" "tree f from C" "c \<notin> set C \<union> contents (pf_open f) \<Longrightarrow> untouched f c"
  using assms unfolding searching_def by blast+

lemma searching_in_grid:
  assumes "searching f from C N"
  shows "c \<in> set C \<Longrightarrow> in_grid f c" "c \<in> contents (pf_open f) \<Longrightarrow> in_grid f c"
proof -
  note t = treeD [OF searchingD(5) [OF assms]] and g = searchingD(4) [OF assms]
  show "in_grid f c" if c: "c \<in> set C"
  proof -
    obtain i where i: "i < length C" "c = C ! i" using c by (metis in_set_conv_nth)
    show ?thesis
    proof (cases "i = 0")
      case True
      then have "c = hd C" "C \<noteq> []" using i by (cases C; simp)+
      then show ?thesis using t(2) g by simp
    next
      case False
      then show ?thesis using t(4) [OF i(1)] i(2) by (auto simp: move_def)
    qed
  qed
  show "in_grid f c" if "c \<in> contents (pf_open f)"
    using t(3) [OF that] g by (cases "c = from") (auto simp: move_def)
qed

lemma closed_bound:
  assumes "searching f from C N"
  shows "length C \<le> nat (pf_width f * pf_heigh f)" "contents (pf_open f) \<noteq> {} \<Longrightarrow> length C < nat (pf_width f * pf_heigh f)"
proof -
  have "distinct C" using links_invD(2) [OF searchingD(1) [OF assms], of CLOSELIST] by simp
  then have d: "length C = card (set C)" by (simp only: distinct_card)
  have s: "set C \<subseteq> {c. in_grid f c}" using searching_in_grid(1) [OF assms] by blast
  show "length C \<le> nat (pf_width f * pf_heigh f)"
    using card_mono [OF finite_grid(1) s] finite_grid(2) [of f] d by simp
  assume "contents (pf_open f) \<noteq> {}"
  then obtain c where "c \<in> contents (pf_open f)" by blast
  then have "set C \<subset> {c. in_grid f c}" using s searching_in_grid(2) [OF assms] searchingD(3) [OF assms] by blast
  then show "length C < nat (pf_width f * pf_heigh f)" using psubset_card_mono [OF finite_grid(1), of "set C" f] finite_grid(2) [of f] d by linarith
qed

text \<open>Closing the node taken from the heap.\<close>

lemma close_current:
  assumes s: "searching f from C []" and pop: "minheap_pop (less_F f) (pf_open f) = (Some cur, h)"
  shows "searching (f\<lparr>pf_open := h, pf_links := list_push (pf_links f) CLOSELIST (Node cur)\<rparr>) from (C @ [cur]) []"
    "cur \<in> contents (pf_open f)" "contents h = contents (pf_open f) - {cur}" "cur \<notin> set C"
proof -
  note d = searchingD [OF s] and t = treeD [OF searchingD(5) [OF s]]
  have h: "cur \<in> contents (pf_open f)" "heap_inv h" "contents h = contents (pf_open f) - {cur}"
    using mh.pop_cases [OF d(2), of "less_F f"] pop by (metis fst_conv option.distinct(1) option.inject snd_conv)+
  show "cur \<in> contents (pf_open f)" "contents h = contents (pf_open f) - {cur}" "cur \<notin> set C" using h d(3) by auto
  let ?g = "f\<lparr>pf_open := h, pf_links := list_push (pf_links f) CLOSELIST (Node cur)\<rparr>"
  have mv: "move ?g = move f" "in_grid ?g = in_grid f" by (rule same_grid_move; simp add: same_grid_def)+
  have free: "node_free (pf_links f) cur" using free_named [OF d(1)] h(1) d(3) by auto
  have links: "links_inv LISTS (list_push (pf_links f) CLOSELIST (Node cur)) (named (C @ [cur]) [])"
    using dl.pushed [OF d(1) _ free, of CLOSELIST] by simp
  have first: "C = []" if "cur = from" using t(2) h(1) d(3) that by (metis disjoint_iff hd_in_set)
  have "tree ?g from (C @ [cur])" unfolding tree_def mv
  proof (intro conjI impI ballI allI)
    show "C @ [cur] \<noteq> [] \<Longrightarrow> hd (C @ [cur]) = from" using t(1,2) h(1) by (cases C) auto
    show "\<exists>p \<in> set (C @ [cur]). pf_parent ?g n = Some p \<and> move f p n" if "n \<in> contents (pf_open ?g)" "n \<noteq> from" for n
      using t(3) [of n] that h(3) by auto
    show "\<exists>j < i. pf_parent ?g ((C @ [cur]) ! i) = Some ((C @ [cur]) ! j) \<and> move f ((C @ [cur]) ! j) ((C @ [cur]) ! i)"
      if i: "i < length (C @ [cur])" "0 < i" for i
    proof (cases "i = length C")
      case True
      then have "cur \<noteq> from" using first i(2) by auto
      then obtain p where "p \<in> set C" "pf_parent f cur = Some p" "move f p cur" using t(3) [OF h(1)] by blast
      then show ?thesis using True by (auto simp: in_set_conv_nth nth_append)
    next
      case False
      then have "i < length C" using i(1) by simp
      then obtain j where "j < i" "pf_parent f (C ! i) = Some (C ! j)" "move f (C ! j) (C ! i)" using t(4) i(2) by blast
      then show ?thesis using \<open>i < length C\<close> by (intro exI [of _ j]) (simp add: nth_append)
    qed
  qed simp
  moreover have "untouched ?g c" if "c \<notin> set (C @ [cur]) \<union> contents (pf_open ?g)" for c
    using d(6) [of c] that h(3) by (auto simp: untouched_def)
  ultimately show "searching ?g from (C @ [cur]) []"
    unfolding searching_def mv using links h d(3,4) by auto
qed

lemma searching_links: "searching f from C N \<Longrightarrow> links_inv LISTS l (named C M) \<Longrightarrow> searching (f\<lparr>pf_links := l\<rparr>) from C M"
  unfolding searching_def tree_def untouched_def using same_grid_move [of f "f\<lparr>pf_links := l\<rparr>"] by simp

text \<open>The neighbours of a node: every cell that a move from it reaches and that is not closed.\<close>

lemma push_neighbors:
  assumes "links_inv LISTS (pf_links f) (named C N)"
  shows "\<exists>l N'. fold (push_neighbor n) ds f = f\<lparr>pf_links := l\<rparr> \<and> links_inv LISTS l (named C N') \<and> length N' \<le> length N + length ds
     \<and> set N' = set N \<union> {b. in_grid f b \<and> pf_block f b \<noteq> 0 \<and> (fst b - fst n, snd b - snd n) \<in> set ds \<and> b \<notin> set C}"
  using assms
proof (induction ds arbitrary: f N)
  case Nil
  then show ?case by (intro exI [of _ "pf_links f"] exI [of _ N]) simp
next
  case (Cons d ds)
  let ?b = "(fst n + fst d, snd n + snd d)"
  let ?S = "\<lambda>ds. {b. in_grid f b \<and> pf_block f b \<noteq> 0 \<and> (fst b - fst n, snd b - snd n) \<in> set ds \<and> b \<notin> set C}"
  let ?add = "in_grid f ?b \<and> pf_block f ?b \<noteq> 0 \<and> ?b \<notin> set C"
  have eq: "(fst b - fst n, snd b - snd n) = d \<longleftrightarrow> b = ?b" for b by (cases b; cases d) auto
  have S: "?S (d # ds) = (if ?add then {?b} else {}) \<union> ?S ds"
    by (rule set_eqI) (simp only: mem_Collect_eq list.set insert_iff eq Un_iff split: if_split, blast)
  have inside: "find_node f (fst ?b) (snd ?b) = (if in_grid f ?b then Some ?b else None)"
    by (simp add: find_node_def in_grid_def not_less not_le)
  note free = free_named [OF Cons.prems, of ?b]
  show ?case
  proof (cases "?add \<and> ?b \<notin> set N")
    case True
    let ?l = "list_push (pf_links f) NEIGHBORS (Node ?b)"
    have step: "push_neighbor n d f = f\<lparr>pf_links := ?l\<rparr>" using True inside free by (simp add: push_neighbor_def)
    have inv: "links_inv LISTS (pf_links (f\<lparr>pf_links := ?l\<rparr>)) (named C (N @ [?b]))"
      using dl.pushed [OF Cons.prems, of NEIGHBORS ?b] True free by simp
    note grid = same_grid_move [of f "f\<lparr>pf_links := ?l\<rparr>"]
    obtain l N' where "fold (push_neighbor n) ds (f\<lparr>pf_links := ?l\<rparr>) = f\<lparr>pf_links := l\<rparr>" "links_inv LISTS l (named C N')"
        "length N' \<le> length (N @ [?b]) + length ds" "set N' = set (N @ [?b]) \<union> ?S ds"
      using Cons.IH [OF inv] grid by auto
    then show ?thesis unfolding S using True step by (intro exI [of _ l] exI [of _ N']) simp
  next
    case False
    have "push_neighbor n d f = f" using False inside free by (auto simp: push_neighbor_def)
    then obtain l N' where "fold (push_neighbor n) (d # ds) f = f\<lparr>pf_links := l\<rparr>" "links_inv LISTS l (named C N')"
        "length N' \<le> length N + length ds" "set N' = set N \<union> ?S ds"
      using Cons.IH [OF Cons.prems] by auto
    then show ?thesis unfolding S using False by (intro exI [of _ l] exI [of _ N']) auto
  qed
qed

lemma find_neighbors_ok:
  assumes "searching f from C []"
  shows "\<exists>l N. find_neighbors f n = Inr (f\<lparr>pf_links := l\<rparr>) \<and> searching (f\<lparr>pf_links := l\<rparr>) from C N \<and> length N \<le> 8
     \<and> set N = {b. move f n b \<and> b \<notin> set C}"
proof -
  note l = searchingD(1) [OF assms]
  have "list_empty (pf_links f) NEIGHBORS" using list_empty_iff [OF l, of NEIGHBORS] by simp
  moreover have "length directions = 8" by (simp add: directions_def)
  ultimately show ?thesis
    using push_neighbors [OF l, of n directions] searching_links [OF assms]
    by (auto simp: find_neighbors_def move_def conj_assoc)
qed

text \<open>Opening a neighbour, or giving it a better parent.\<close>

lemma opened:
  assumes s: "searching f from C N" and cur: "cur \<in> set C" "move f cur node" "node \<notin> set C"
    and g: "same_grid f g" "pf_links g = pf_links f" "heap_inv (pf_open g)" "contents (pf_open g) = insert node (contents (pf_open f))"
      "pf_parent g = (pf_parent f)(node := Some cur)" "\<And>c. c \<noteq> node \<Longrightarrow> untouched f c \<Longrightarrow> untouched g c"
  shows "searching g from C N"
proof -
  note d = searchingD [OF s] and t = treeD [OF searchingD(5) [OF s]] and mv = same_grid_move [OF g(1)]
  have "tree g from C" unfolding tree_def mv
  proof (intro conjI impI ballI allI)
    show "C = [] \<Longrightarrow> contents (pf_open g) = {from}" using cur(1) by simp
    show "C \<noteq> [] \<Longrightarrow> hd C = from" by (rule t(2))
    show "\<exists>p \<in> set C. pf_parent g n = Some p \<and> move f p n" if "n \<in> contents (pf_open g)" "n \<noteq> from" for n
      using t(3) [of n] that cur g(4,5) by (cases "n = node") auto
    show "\<exists>j < i. pf_parent g (C ! i) = Some (C ! j) \<and> move f (C ! j) (C ! i)" if i: "i < length C" "0 < i" for i
    proof -
      have "C ! i \<noteq> node" using cur(3) i(1) nth_mem by blast
      then show ?thesis using t(4) [OF i] g(5) by simp
    qed
  qed
  moreover have "untouched g c" if "c \<notin> set C \<union> contents (pf_open g)" for c
    using d(6) [of c] that g(4,6) by simp
  ultimately show ?thesis using d g cur(3) mv unfolding searching_def by auto
qed

lemma relax_ok:
  assumes s: "searching f from C N" and cur: "cur \<in> set C" "move f cur node" "node \<notin> set C"
    and r: "relax cur to cost node f = (g, dump)"
  shows "searching g from C N" "same_grid f g" "contents (pf_open g) = insert node (contents (pf_open f))"
proof -
  note heap = searchingD(2) [OF s]
  let ?G = "float_add (pf_G f cur) (neighbor_cost cur node)"
  consider (known) "node \<in> contents (pf_open f)" "mh_index (pf_open f) node \<noteq> 0" | (fresh) "mh_index (pf_open f) node = 0"
    using mh.marked [OF heap, of node] by blast
  then have "searching g from C N \<and> same_grid f g \<and> contents (pf_open g) = insert node (contents (pf_open f))"
  proof cases
    case known
    let ?n = "int_to_float (float_to_int ?G)"
    show ?thesis
    proof (cases "float_less ?n (pf_G f node)")
      case True
      let ?f = "f\<lparr>pf_G := (pf_G f)(node := ?n), pf_F := (pf_F f)(node := float_add ?n (pf_H f node)),
                 pf_parent := (pf_parent f)(node := Some cur)\<rparr>"
      have g: "g = ?f\<lparr>pf_open := minheap_change (less_F ?f) (pf_open f) node\<rparr>"
        using r known(2) True by (simp add: relax_def Let_def)
      note c = mh.changed [OF heap known(1), of "less_F ?f"]
      have "searching g from C N" using s cur
        by (rule opened) (use c known(1) in \<open>simp_all add: g untouched_def insert_absorb\<close>)
      then show ?thesis using c known(1) by (simp add: g insert_absorb)
    next
      case False
      then show ?thesis using r known s by (simp add: relax_def Let_def insert_absorb)
    qed
  next
    case fresh
    let ?h = "goal_cost node to cost"
    let ?f = "f\<lparr>pf_parent := (pf_parent f)(node := Some cur), pf_G := (pf_G f)(node := ?G),
               pf_H := (pf_H f)(node := ?h), pf_F := (pf_F f)(node := float_add ?G ?h)\<rparr>"
    have g: "g = ?f\<lparr>pf_open := minheap_push (less_F ?f) (pf_open f) node\<rparr>"
      using r fresh by (simp add: relax_def Let_def)
    note c = mh.pushed [OF heap, of "less_F ?f" node]
    have "searching g from C N" using s cur by (rule opened) (use c in \<open>simp_all add: g untouched_def\<close>)
    then show ?thesis using c by (simp add: g)
  qed
  then show "searching g from C N" "same_grid f g" "contents (pf_open g) = insert node (contents (pf_open f))" by blast+
qed

lemma relax_loop_ok:
  assumes "searching f from C N" "cur \<in> set C" "\<forall>n \<in> set N. move f cur n" "length N < fuel"
  shows "\<exists>g dump. relax_loop fuel cur to cost f = Inr (g, dump) \<and> searching g from C [] \<and> same_grid f g
     \<and> contents (pf_open g) = contents (pf_open f) \<union> set N"
  using assms
proof (induction fuel arbitrary: f N)
  case (Suc fuel)
  note l = searchingD(1) [OF Suc.prems(1)]
  show ?case
  proof (cases N)
    case Nil
    then show ?thesis using dl.pop_none [OF l, of NEIGHBORS] Suc.prems(1) by simp
  next
    case (Cons n M)
    obtain l' where l': "pop_node (pf_links f) NEIGHBORS = (Some n, l')" "links_inv LISTS l' (named C M)"
      using dl.popped [OF l, of NEIGHBORS n M] Cons by auto
    have n: "n \<notin> set C" using links_invD(3) [OF l, of NEIGHBORS CLOSELIST n] Cons by simp
    let ?f = "f\<lparr>pf_links := l'\<rparr>"
    obtain g d where r: "relax cur to cost n ?f = (g, d)" by fastforce
    have s: "searching ?f from C M" using searching_links [OF Suc.prems(1) l'(2)] .
    have mv: "move ?f = move f" by (rule same_grid_move) simp
    note x = relax_ok [OF s Suc.prems(2) _ n r]
    have g: "searching g from C M" "same_grid f g" "contents (pf_open g) = insert n (contents (pf_open f))"
      using x Suc.prems(3) Cons by (simp_all add: mv same_grid_def)
    have "\<forall>n \<in> set M. move g cur n" "length M < fuel"
      using same_grid_move(1) [OF g(2)] Suc.prems(3,4) Cons by auto
    from Suc.IH [OF g(1) Suc.prems(2) this] obtain h e
      where "relax_loop fuel cur to cost g = Inr (h, e)" "searching h from C []" "same_grid g h"
        "contents (pf_open h) = contents (pf_open g) \<union> set M" by blast
    then show ?thesis using l'(1) r g same_grid_trans [OF g(2)] Cons by simp
  qed
qed simp

subsection \<open>Resetting\<close>

text \<open>The state between two searches.\<close>

definition finder_clean :: "pathfinder \<Rightarrow> bool" where
  "finder_clean f \<longleftrightarrow> links_inv LISTS (pf_links f) (named [] []) \<and> heap_inv (pf_open f) \<and> contents (pf_open f) = {} \<and> (\<forall>c. untouched f c)"

lemma untouched_update [simp]: "untouched (f\<lparr>pf_links := l\<rparr>) = untouched f" "untouched (f\<lparr>pf_open := h\<rparr>) = untouched f"
  by (simp_all add: untouched_def fun_eq_iff)

lemma clear_node_closed:
  assumes "heap_inv (pf_open f)" "c \<notin> contents (pf_open f)"
  shows "pf_open (clear_node c f) = pf_open f"
proof -
  have "mh_index (pf_open f) c = 0" using mh.marked [OF assms(1), of c] assms(2) by simp
  then have "(mh_index (pf_open f))(c := 0) = mh_index (pf_open f)" by (simp add: fun_eq_iff)
  then show ?thesis by (simp add: clear_node_def)
qed

lemma clear_node_simps [simp]:
  "pf_links (clear_node c f) = pf_links f" "same_grid f (clear_node c g) = same_grid f g"
  "untouched (clear_node c f) e \<longleftrightarrow> e = c \<or> untouched f e"
  by (auto simp: clear_node_def untouched_def)

lemma clear_closed_ok:
  assumes "links_inv LISTS (pf_links f) (named C [])" "heap_inv (pf_open f)" "set C \<inter> contents (pf_open f) = {}" "length C < fuel"
    "\<And>c. c \<notin> set C \<union> contents (pf_open f) \<Longrightarrow> untouched f c"
  shows "\<exists>g. clear_closed fuel f = Inr g \<and> links_inv LISTS (pf_links g) (named [] []) \<and> pf_open g = pf_open f \<and> same_grid f g
     \<and> (\<forall>c. c \<notin> contents (pf_open f) \<longrightarrow> untouched g c)"
  using assms
proof (induction fuel arbitrary: f C)
  case (Suc fuel)
  show ?case
  proof (cases C)
    case Nil
    have "pop_node (pf_links f) CLOSELIST = (None, pf_links f)" using dl.pop_none [OF Suc.prems(1), of CLOSELIST] Nil by simp
    moreover have "untouched f c" if "c \<notin> contents (pf_open f)" for c using Suc.prems(5) [of c] that Nil by simp
    ultimately show ?thesis using Suc.prems(1) Nil by simp
  next
    case (Cons c D)
    obtain l where l: "pop_node (pf_links f) CLOSELIST = (Some c, l)" "links_inv LISTS l (named D [])"
      using dl.popped [OF Suc.prems(1), of CLOSELIST c D] Cons by auto
    let ?f = "clear_node c (f\<lparr>pf_links := l\<rparr>)"
    have c: "c \<notin> contents (pf_open f)" "set D \<inter> contents (pf_open f) = {}" "length D < fuel" using Suc.prems(3,4) Cons by auto
    have op: "pf_open ?f = pf_open f" using clear_node_closed [of "f\<lparr>pf_links := l\<rparr>" c] Suc.prems(2) c(1) by simp
    have u: "untouched ?f e" if "e \<notin> set D \<union> contents (pf_open ?f)" for e
      using Suc.prems(5) [of e] that Cons op by auto
    have "links_inv LISTS (pf_links ?f) (named D [])" "heap_inv (pf_open ?f)" using l(2) Suc.prems(2) op by simp_all
    from Suc.IH [OF this _ c(3) u] c(2) op obtain g where g: "clear_closed fuel ?f = Inr g" "links_inv LISTS (pf_links g) (named [] [])"
        "pf_open g = pf_open f" "same_grid ?f g" "\<forall>e. e \<notin> contents (pf_open f) \<longrightarrow> untouched g e" by auto
    moreover have "same_grid f g" using same_grid_trans [OF _ g(4), of f] by simp
    ultimately show ?thesis using l(1) by simp
  qed
qed simp

lemma heap_clear_fold:
  fixes js :: "nat list"
  defines "step \<equiv> \<lambda>i f. clear_node (heap_at (pf_open f) i) f"
    and "unmark \<equiv> \<lambda>i mh. mh\<lparr>mh_index := (mh_index mh)(heap_at mh i := 0)\<rparr>"
  shows "pf_open (fold step js f) = fold unmark js (pf_open f)
     \<and> pf_links (fold step js f) = pf_links f \<and> same_grid f (fold step js f)
     \<and> (\<forall>c. untouched f c \<or> c \<in> heap_at (pf_open f) ` set js \<longrightarrow> untouched (fold step js f) c)"
proof (induction js arbitrary: f)
  case (Cons i js)
  have op: "pf_open (step i f) = unmark i (pf_open f)" by (simp add: step_def unmark_def clear_node_def)
  have at: "heap_at (pf_open (step i f)) = heap_at (pf_open f)" unfolding op by (simp add: unmark_def heap_at_def fun_eq_iff)
  have "same_grid f (step i f)" "pf_links (step i f) = pf_links f" "untouched (step i f) c \<longleftrightarrow> c = heap_at (pf_open f) i \<or> untouched f c" for c
    by (simp_all add: step_def)
  then show ?case using Cons.IH [of "step i f"] same_grid_trans [of f "step i f"] unfolding at by (simp add: op)
qed simp

lemma heap_clear_ok:
  assumes "heap_inv (pf_open f)" "\<And>c. c \<notin> contents (pf_open f) \<Longrightarrow> untouched f c" "links_inv LISTS (pf_links f) (named [] [])"
  shows "finder_clean (heap_clear f)" "same_grid f (heap_clear f)"
proof -
  note x = heap_clear_fold [of "[1..<Suc (mh_size (pf_open f))]" f]
  have op: "pf_open (heap_clear f) = minheap_clear (pf_open f)"
    using x by (simp add: heap_clear_def minheap_clear_def Let_def del: upt_Suc)
  have rest: "pf_links (heap_clear f) = pf_links f" "same_grid f (heap_clear f)"
    using x by (simp_all add: heap_clear_def Let_def del: upt_Suc)
  show "same_grid f (heap_clear f)" by (rule rest(2))
  have "set [1..<Suc (mh_size (pf_open f))] = {1..mh_size (pf_open f)}" by auto
  then have "untouched (heap_clear f) c" for c
    using x assms(2) [of c] by (auto simp: heap_clear_def Let_def contents_def simp del: upt_Suc set_upt)
  then have "\<forall>c. untouched (heap_clear f) c" by blast
  then show "finder_clean (heap_clear f)" unfolding finder_clean_def op rest using mh.cleared [OF assms(1)] assms(3) by simp
qed

lemma reset_ok:
  assumes "searching f from C []"
  shows "\<exists>g. reset f = Inr g \<and> finder_clean g \<and> same_grid f g"
proof -
  note d = searchingD [OF assms]
  have "length C < node_fuel f" using closed_bound(1) [OF assms] by (simp add: node_fuel_def)
  then obtain g where g: "clear_closed (node_fuel f) f = Inr g" "links_inv LISTS (pf_links g) (named [] [])" "pf_open g = pf_open f"
      "same_grid f g" "\<forall>c. c \<notin> contents (pf_open f) \<longrightarrow> untouched g c"
    using clear_closed_ok [OF d(1,2,3) _ d(6)] by blast
  have "finder_clean (heap_clear g)" "same_grid g (heap_clear g)" using heap_clear_ok [of g] g d(2) by simp_all
  then show ?thesis using g(1,4) same_grid_trans by (auto simp: reset_def)
qed

subsection \<open>The path\<close>

text \<open>
  A leg of a path goes straight from one cell to another one, in one of the eight directions, over
  cells that are not blocked. A route is given by its turning points, the end first.
\<close>

definition straight :: "pathfinder \<Rightarrow> cell \<Rightarrow> nat \<Rightarrow> cell \<Rightarrow> cell \<Rightarrow> bool" where
  "straight f d k a b \<longleftrightarrow> 0 < k \<and> d \<in> set directions \<and> b = (fst a + int k * fst d, snd a + int k * snd d)
     \<and> (\<forall>j \<in> {1..k}. in_grid f (fst a + int j * fst d, snd a + int j * snd d)
          \<and> pf_block f (fst a + int j * fst d, snd a + int j * snd d) \<noteq> 0)"

fun legs :: "pathfinder \<Rightarrow> cell list \<Rightarrow> bool" where
  "legs f (b # a # cs) \<longleftrightarrow> (\<exists>d k. straight f d k a b) \<and> legs f (a # cs)"
| "legs f _ \<longleftrightarrow> True"

definition route :: "pathfinder \<Rightarrow> cell \<Rightarrow> cell \<Rightarrow> cell list \<Rightarrow> bool" where
  "route f from to path \<longleftrightarrow> 2 \<le> length path \<and> hd path = to \<and> last path = from \<and> legs f path"

lemma same_grid_route: "same_grid f g \<Longrightarrow> route g = route f"
proof -
  assume g: "same_grid f g"
  have "legs g cs \<longleftrightarrow> legs f cs" for cs
    by (induction cs rule: induct_list012) (simp_all add: straight_def same_grid_move [OF g])
  then show ?thesis by (simp add: route_def fun_eq_iff)
qed

lemma straight_move: "move f p a \<Longrightarrow> straight f (fst a - fst p, snd a - snd p) 1 p a"
  by (simp add: straight_def move_def)

lemma straight_extend:
  assumes "straight f d k a b" "move f p a" "d = (fst a - fst p, snd a - snd p)"
  shows "straight f d (Suc k) p b"
proof -
  let ?at = "\<lambda>q j. (fst q + int j * fst d, snd q + int j * snd d)"
  have at: "?at p (Suc j) = ?at a j" for j by (simp add: assms(3) algebra_simps)
  have s: "d \<in> set directions" "b = ?at a k" "\<forall>j \<in> {1..k}. in_grid f (?at a j) \<and> pf_block f (?at a j) \<noteq> 0"
    using assms(1) by (simp_all add: straight_def)
  have "in_grid f (?at p j) \<and> pf_block f (?at p j) \<noteq> 0" if j: "j \<in> {1..Suc k}" for j
  proof (cases "j = 1")
    case True
    then have "?at p j = a" by (simp add: assms(3))
    then show ?thesis using assms(2) by (simp add: move_def)
  next
    case False
    then obtain i where "j = Suc i" "i \<in> {1..k}" using j by (cases j) auto
    then show ?thesis using s(3) at [of i] by simp
  qed
  then show ?thesis unfolding straight_def at using s by simp
qed

lemma path_loop_ok:
  assumes "tree f from C" "i < length C" "i < fuel" "straight f d k (C ! i) w"
  shows "\<exists>cs. path_loop fuel f (C ! i) from d = Inr cs \<and> cs \<noteq> [] \<and> last cs = from \<and> legs f (w # cs)"
  using assms(2-)
proof (induction fuel arbitrary: i d k w)
  case (Suc fuel)
  note t = treeD [OF assms(1)]
  show ?case
  proof (cases "C ! i = from")
    case True
    then show ?thesis using Suc.prems(3) by auto
  next
    case False
    have "0 < i" using False t(2) Suc.prems(1) by (cases i) (auto simp: hd_conv_nth)
    then obtain j where j: "j < i" "pf_parent f (C ! i) = Some (C ! j)" "move f (C ! j) (C ! i)"
      using t(4) [OF Suc.prems(1)] by blast
    have jl: "j < length C" "j < fuel" using j(1) Suc.prems(1,2) by simp_all
    let ?d = "(fst (C ! i) - fst (C ! j), snd (C ! i) - snd (C ! j))"
    show ?thesis
    proof (cases "d = ?d")
      case True
      from Suc.IH [OF jl straight_extend [OF Suc.prems(3) j(3) True]] show ?thesis
        using False j(2) True by (simp add: Let_def)
    next
      case turn: False
      from Suc.IH [OF jl straight_move [OF j(3)]] obtain cs where "path_loop fuel f (C ! j) from ?d = Inr cs" "cs \<noteq> []"
          "last cs = from" "legs f (C ! i # cs)" by blast
      then show ?thesis using False j(2) turn Suc.prems(3) by (auto simp: Let_def)
    qed
  qed
qed simp

lemma make_path_ok:
  assumes s: "searching f from (C @ [cur]) []" and "cur \<noteq> from"
  shows "\<exists>path. make_path f cur from = Inr path \<and> route f from cur path"
proof -
  note t = treeD [OF searchingD(5) [OF s]]
  have "C \<noteq> []" using t(2) assms(2) by (cases C) auto
  then obtain j where j: "j < length C" "pf_parent f cur = Some ((C @ [cur]) ! j)" "move f ((C @ [cur]) ! j) cur"
    using t(4) [of "length C"] by auto
  have "j < length (C @ [cur])" "j < node_fuel f" using j(1) closed_bound(1) [OF s] by (simp_all add: node_fuel_def)
  from path_loop_ok [OF searchingD(5) [OF s] this straight_move [OF j(3)]] show ?thesis
    using j(2) by (auto simp: make_path_def route_def Suc_le_eq)
qed

lemma tree_reachable:
  assumes "tree f from C" "c \<in> set C"
  shows "(move f)\<^sup>*\<^sup>* from c"
proof -
  note t = treeD [OF assms(1)]
  have "(move f)\<^sup>*\<^sup>* from (C ! i)" if "i < length C" for i
    using that
  proof (induction i rule: less_induct)
    case (less i)
    show ?case
    proof (cases "i = 0")
      case True
      then show ?thesis using t(2) less.prems by (cases C) auto
    next
      case False
      then obtain j where "j < i" "move f (C ! j) (C ! i)" using t(4) [OF less.prems] by blast
      then show ?thesis using less.IH [of j] less.prems by (meson less_trans rtranclp.rtrancl_into_rtrancl)
    qed
  qed
  then show ?thesis using assms(2) by (metis in_set_conv_nth)
qed

subsection \<open>The search\<close>

lemma exhausted:
  assumes s: "searching f from C []" and e: "expanded f C []" and "contents (pf_open f) = {}"
  shows "(move f)\<^sup>*\<^sup>* from c \<longleftrightarrow> c \<in> set C"
proof
  note t = treeD [OF searchingD(5) [OF s]]
  have "C \<noteq> []" using t(1) assms(3) by auto
  then have start: "from \<in> set C" using t(2) hd_in_set by blast
  show "c \<in> set C" if "(move f)\<^sup>*\<^sup>* from c"
    using that by (induction rule: rtranclp_induct) (use start e assms(3) in \<open>auto simp: expanded_def\<close>)
  show "(move f)\<^sup>*\<^sup>* from c" if "c \<in> set C" using tree_reachable [OF searchingD(5) [OF s] that] .
qed

lemma expand_ok:
  assumes s: "searching f from (C @ [cur]) []" and e: "\<forall>c \<in> set C. \<forall>b. move f c b \<longrightarrow> b \<in> set C \<union> insert cur (contents (pf_open f))"
  shows "\<exists>g h dump. find_neighbors f cur = Inr g \<and> relax_loop 9 cur to cost g = Inr (h, dump)
     \<and> searching h from (C @ [cur]) [] \<and> expanded h (C @ [cur]) [] \<and> same_grid f h"
proof -
  obtain l N where n: "find_neighbors f cur = Inr (f\<lparr>pf_links := l\<rparr>)" "searching (f\<lparr>pf_links := l\<rparr>) from (C @ [cur]) N"
      "length N \<le> 8" "set N = {b. move f cur b \<and> b \<notin> set (C @ [cur])}"
    using find_neighbors_ok [OF s, of cur] by blast
  have mv: "move (f\<lparr>pf_links := l\<rparr>) = move f" by (rule same_grid_move) simp
  have "cur \<in> set (C @ [cur])" "\<forall>n \<in> set N. move (f\<lparr>pf_links := l\<rparr>) cur n" "length N < 9" using n(3,4) mv by auto
  from relax_loop_ok [OF n(2) this, of to cost] obtain h dump where h: "relax_loop 9 cur to cost (f\<lparr>pf_links := l\<rparr>) = Inr (h, dump)"
      "searching h from (C @ [cur]) []" "same_grid (f\<lparr>pf_links := l\<rparr>) h" "contents (pf_open h) = contents (pf_open f) \<union> set N"
    by auto
  have g: "same_grid f h" using same_grid_trans [OF _ h(3), of f] by simp
  have "expanded h (C @ [cur]) []" unfolding expanded_def same_grid_move(1) [OF g] h(4) n(4) using e by auto
  then show ?thesis using n(1) h(1,2) g by blast
qed

lemma search_loop_ok:
  assumes "searching f from C []" "expanded f C []" "to \<notin> set C" "to \<noteq> from" "nat (pf_width f * pf_heigh f) < fuel + length C"
  shows "\<exists>r path dump g. search_loop fuel from to cost f = Inr (r, path, dump, g) \<and> finder_clean g \<and> same_grid f g
     \<and> (r \<longleftrightarrow> (move f)\<^sup>*\<^sup>* from to) \<and> (r \<longrightarrow> route f from to path) \<and> (\<not> r \<longrightarrow> path = [])"
  using assms
proof (induction fuel arbitrary: f C)
  case 0
  then show ?case using closed_bound(1) [OF 0(1)] by simp
next
  case (Suc fuel)
  note s = Suc.prems(1)
  show ?case
  proof (rule mh.pop_cases [OF searchingD(2) [OF s], of "less_F f"])
    assume e: "minheap_pop (less_F f) (pf_open f) = (None, pf_open f)" "contents (pf_open f) = {}"
    obtain g where "reset f = Inr g" "finder_clean g" "same_grid f g" using reset_ok [OF s] by blast
    moreover have "\<not> (move f)\<^sup>*\<^sup>* from to" using exhausted [OF s Suc.prems(2) e(2)] Suc.prems(3) by simp
    ultimately show ?thesis using e(1) by (intro exI [of _ False]) simp
  next
    fix cur h
    assume pop: "minheap_pop (less_F f) (pf_open f) = (Some cur, h)"
    let ?f = "f\<lparr>pf_open := h, pf_links := list_push (pf_links f) CLOSELIST (Node cur)\<rparr>"
    note c = close_current [OF s pop]
    have mv: "move ?f = move f" "route ?f = route f" by (rule same_grid_move same_grid_route; simp)+
    show ?thesis
    proof (cases "cur = to")
      case True
      obtain path where "make_path ?f to from = Inr path" "route f from to path"
        using make_path_ok [OF c(1)] True Suc.prems(4) mv by auto
      moreover obtain g where "reset ?f = Inr g" "finder_clean g" "same_grid f g"
        using reset_ok [OF c(1)] by (auto simp: same_grid_def)
      moreover have "(move f)\<^sup>*\<^sup>* from to" using tree_reachable [OF searchingD(5) [OF c(1)], of to] True mv by simp
      ultimately show ?thesis using pop True by (intro exI [of _ True]) (simp add: Let_def)
    next
      case False
      have "\<forall>x \<in> set C. \<forall>b. move ?f x b \<longrightarrow> b \<in> set C \<union> insert cur (contents (pf_open ?f))"
        using Suc.prems(2) c(2,3) mv by (auto simp: expanded_def)
      from expand_ok [OF c(1) this] obtain g e dump where g: "find_neighbors ?f cur = Inr g" "relax_loop 9 cur to cost g = Inr (e, dump)"
        "searching e from (C @ [cur]) []" "expanded e (C @ [cur]) []" "same_grid ?f e" by blast
      have eg: "same_grid f e" using g(5) by (simp add: same_grid_def)
      have "to \<notin> set (C @ [cur])" "nat (pf_width e * pf_heigh e) < fuel + length (C @ [cur])"
        using Suc.prems(3,5) False eg by (simp_all add: same_grid_def)
      from Suc.IH [OF g(3,4) this(1) Suc.prems(4) this(2)] same_grid_move(1) [OF eg] same_grid_route [OF eg] same_grid_trans [OF eg]
      show ?thesis using pop False g(1,2) by (auto simp: Let_def)
    qed
  qed
qed

lemma finder_find_ok:
  assumes c: "finder_clean f"
  shows "\<exists>r path dump g. finder_find f x0 z0 x1 z1 cost = Inr (r, path, dump, g) \<and> finder_clean g \<and> same_grid f g
     \<and> (r \<longleftrightarrow> in_grid f (x0, z0) \<and> in_grid f (x1, z1) \<and> (x0, z0) \<noteq> (x1, z1) \<and> (move f)\<^sup>*\<^sup>* (x0, z0) (x1, z1))
     \<and> (r \<longrightarrow> route f (x0, z0) (x1, z1) path) \<and> (\<not> r \<longrightarrow> path = [])"
proof -
  let ?from = "(x0, z0)" and ?to = "(x1, z1)"
  have nodes: "find_node f x z = (if in_grid f (x, z) then Some (x, z) else None)" for x z
    by (simp add: find_node_def in_grid_def not_less not_le)
  consider (trivial) "\<not> in_grid f ?from \<or> \<not> in_grid f ?to \<or> ?from = ?to"
    | (blocked) "in_grid f ?from" "in_grid f ?to" "?from \<noteq> ?to" "pf_block f ?to = 0"
    | (search) "in_grid f ?from" "in_grid f ?to" "?from \<noteq> ?to" "pf_block f ?to \<noteq> 0" by blast
  then show ?thesis
  proof cases
    case trivial
    then show ?thesis using c by (auto simp: finder_find_def nodes)
  next
    case blocked
    then have "\<not> (move f)\<^sup>*\<^sup>* ?from ?to" by (auto simp: move_def elim: rtranclp.cases)
    then show ?thesis using c blocked by (auto simp: finder_find_def nodes)
  next
    case search
    let ?f = "f\<lparr>pf_open := minheap_push (less_F f) (pf_open f) ?from\<rparr>"
    have p: "heap_inv (pf_open ?f)" "contents (pf_open ?f) = {?from}"
      using mh.pushed [of "pf_open f" "less_F f" ?from] c by (simp_all add: finder_clean_def)
    note grid = same_grid_move [of f ?f] same_grid_route [of f ?f]
    have s: "searching ?f ?from [] []" "expanded ?f [] []"
      using c search(1) p grid by (simp_all add: searching_def tree_def expanded_def finder_clean_def)
    obtain r path dump g where "search_loop (node_fuel f) ?from ?to cost ?f = Inr (r, path, dump, g)" "finder_clean g"
        "same_grid ?f g" "r \<longleftrightarrow> (move f)\<^sup>*\<^sup>* ?from ?to" "r \<longrightarrow> route f ?from ?to path" "\<not> r \<longrightarrow> path = []"
      using search_loop_ok [OF s, of ?to "node_fuel f" cost] search(3) grid by (auto simp: node_fuel_def simp del: search_loop.simps)
    then show ?thesis using search
      by (intro exI [of _ r] exI [of _ path] exI [of _ dump] exI [of _ g]) (simp add: finder_find_def nodes same_grid_def)
  qed
qed

section \<open>The states of a finder\<close>

inductive finder_state :: "pathfinder \<Rightarrow> bool" where
  created: "finder_create width heigh data = Inr f \<Longrightarrow> finder_state f"
| found: "finder_state f \<Longrightarrow> finder_find f x0 z0 x1 z1 cost = Inr (r, path, dump, g) \<Longrightarrow> finder_state g"
| mask_set: "finder_state f \<Longrightarrow> finder_state (finder_mask_set f index enable)"
| mask_reset: "finder_state f \<Longrightarrow> finder_state (finder_mask_reset f)"

lemma finder_create_clean:
  assumes "finder_create width heigh data = Inr f"
  shows "finder_clean f" "length (pf_mask f) = MARK_MAX"
proof -
  have "links_inv (insert NEIGHBORS (insert CLOSELIST {})) (list_init (list_init no_links CLOSELIST) NEIGHBORS)
      (((\<lambda>_. [])(CLOSELIST := []))(NEIGHBORS := []))"
    by (intro list_init_inv no_links_inv) simp_all
  moreover have "insert NEIGHBORS {CLOSELIST} = LISTS" by (auto simp: LISTS_def)
  ultimately have "links_inv LISTS (list_init (list_init no_links CLOSELIST) NEIGHBORS) (named [] [])" by (simp add: named_def)
  then show "finder_clean f" "length (pf_mask f) = MARK_MAX"
    using assms minheap_create_inv [of 2500] by (auto simp: finder_create_def finder_clean_def untouched_def split: if_splits)
qed

lemma mask_update_clean: "finder_clean (f\<lparr>pf_mask := m\<rparr>) = finder_clean f"
  by (simp add: finder_clean_def untouched_def)

lemma finder_mask_reset_eq: "length (pf_mask f) = MARK_MAX \<Longrightarrow> finder_mask_reset f = f\<lparr>pf_mask := replicate MARK_MAX 0\<rparr>"
proof -
  have "n \<le> length (pf_mask f) \<Longrightarrow>
      fold (\<lambda>i f. f\<lparr>pf_mask := (pf_mask f)[i := 0]\<rparr>) [0..<n] f = f\<lparr>pf_mask := replicate n 0 @ drop n (pf_mask f)\<rparr>" for n
  proof (induction n)
    case (Suc n)
    moreover have "drop n (pf_mask f) = pf_mask f ! n # drop (Suc n) (pf_mask f)" using Suc.prems by (simp add: Cons_nth_drop_Suc)
    ultimately show ?case by (simp add: list_update_append replicate_append_same)
  qed simp
  then show "length (pf_mask f) = MARK_MAX \<Longrightarrow> ?thesis" by (simp add: finder_mask_reset_def)
qed

lemma finder_state_clean: "finder_state f \<Longrightarrow> finder_clean f \<and> length (pf_mask f) = MARK_MAX"
proof (induction rule: finder_state.induct)
  case (created width heigh data f)
  then show ?case using finder_create_clean by blast
next
  case (found f x0 z0 x1 z1 cost r path dump g)
  then show ?case using finder_find_ok [of f x0 z0 x1 z1 cost] by (auto simp: same_grid_def)
next
  case (mask_set f index enable)
  then show ?case by (simp add: finder_mask_set_def mask_update_clean)
next
  case (mask_reset f)
  then show ?case by (simp add: finder_mask_reset_eq mask_update_clean)
qed

section \<open>Properties\<close>

definition sample_finder :: pathfinder where
  "sample_finder = (case finder_create 2 2 [1, 1, 1, 1] of Inr f \<Rightarrow> f)"

lemma sample_finder_state: "finder_state sample_finder"
  by (rule finder_state.created [of 2 2 "[1, 1, 1, 1]"]) (simp add: sample_finder_def finder_create_def fits_int_def)

lemma sample_finder_move: "in_grid sample_finder (0, 0)" "in_grid sample_finder (1, 1)" "move sample_finder (0, 0) (1, 1)"
  by (simp_all add: sample_finder_def finder_create_def fits_int_def move_def in_grid_def pf_block_def directions_def eval_nat_numeral)

text \<open>
  C37. In every state that a finder can reach by searches and changes of its mask, a search returns:
  the pointers of the lists and of the path never form a cycle, no assertion fails, and no more
  nodes are closed than the grid has. It reports a path exactly when the two cells differ, are in
  the grid and moves over cells that are not blocked lead from the first to the second, whatever
  the float costs are. Afterwards the finder is clean again and its grid and mask are as before.
\<close>

theorem finder_find_reachable:
  assumes "finder_state f"
  shows "\<exists>r path dump g. finder_find f x0 z0 x1 z1 cost = Inr (r, path, dump, g) \<and> finder_clean g \<and> same_grid f g
     \<and> (r \<longleftrightarrow> in_grid f (x0, z0) \<and> in_grid f (x1, z1) \<and> (x0, z0) \<noteq> (x1, z1) \<and> (move f)\<^sup>*\<^sup>* (x0, z0) (x1, z1))"
  using finder_find_ok [of f x0 z0 x1 z1 cost] finder_state_clean [OF assms] by blast

theorem finder_find_reachable_witness:
  "\<exists>path dump g. finder_find sample_finder 0 0 1 1 (int_to_float 50) = Inr (True, path, dump, g) \<and> finder_clean g"
  using finder_find_reachable [OF sample_finder_state, of 0 0 1 1 "int_to_float 50"] sample_finder_move by auto

text \<open>
  C38. The cells that a successful search gives to the callback are a route: the first is the
  destination, the last is the start, and every two neighbours in the list are joined by a straight
  run in one of the eight directions over cells of the grid that are not blocked.
\<close>

theorem finder_find_route:
  assumes "finder_state f" "finder_find f x0 z0 x1 z1 cost = Inr (True, path, dump, g)"
  shows "route f (x0, z0) (x1, z1) path"
  using finder_find_ok [of f x0 z0 x1 z1 cost] finder_state_clean [OF assms(1)] assms(2) by auto

theorem finder_find_route_witness:
  "\<exists>path dump g. finder_find sample_finder 0 0 1 1 (int_to_float 50) = Inr (True, path, dump, g)
     \<and> route sample_finder (0, 0) (1, 1) path"
proof -
  obtain path dump g where "finder_find sample_finder 0 0 1 1 (int_to_float 50) = Inr (True, path, dump, g)"
    using finder_find_ok [of sample_finder 0 0 1 1 "int_to_float 50"] finder_state_clean [OF sample_finder_state] sample_finder_move(1,2)
      r_into_rtranclp [of "move sample_finder", OF sample_finder_move(3)] by auto
  then show ?thesis using finder_find_route [OF sample_finder_state] by blast
qed

text \<open>
  C39. The mask decides which cells can be walked on. A cell outside of the grid never can; after
  \<open>finder_mask_set\<close> the cells whose byte is the index follow the new value, the others the old
  one; with the flag \<open>ignore\<close> the mask does not matter. But the mask has 64 entries and is indexed
  by a signed byte: for a negative byte and for one of 64 and more the code reads outside of it.
\<close>

theorem finder_movable_mask:
  assumes "finder_state f" "0 \<le> index" "index < int MARK_MAX" "0 \<le> enable" "enable < 256"
  shows "finder_movable (finder_mask_set f index enable) x z ignore =
     (if \<not> in_grid f (x, z) then Inr False
      else if ignore \<noteq> 0 then Inr (pf_block f (x, z) \<noteq> 0)
      else if pf_block f (x, z) < 0 \<or> pf_block f (x, z) \<ge> int MARK_MAX then Inl Wild_read
      else if pf_block f (x, z) = index then Inr (enable = 1)
      else finder_movable f x z 0)"
proof -
  let ?g = "finder_mask_set f index enable"
  have "word_of_int enable = (word_of_int 1 :: byte) \<longleftrightarrow> enable = 1"
    unfolding word_of_int_eq_iff using assms(4,5) by (simp add: take_bit_int_eq_self)
  then have e: "(word_of_int enable :: byte) = 1 \<longleftrightarrow> enable = 1" by simp
  have m: "length (pf_mask f) = MARK_MAX" using finder_state_clean [OF assms(1)] by blast
  have g: "find_node ?g = find_node f" "pf_block ?g = pf_block f" "pf_mask ?g = (pf_mask f)[nat index := word_of_int enable]"
    using assms(2,3) by (simp_all add: finder_mask_set_def find_node_def pf_block_def fun_eq_iff)
  have n: "find_node f x z = (if in_grid f (x, z) then Some (x, z) else None)" by (simp add: find_node_def in_grid_def not_less not_le)
  have "pf_mask ?g ! nat b = (if b = index then word_of_int enable else pf_mask f ! nat b)" if "0 \<le> b" "b < int MARK_MAX" for b
    using that m assms(2,3) unfolding g by (auto simp: nth_list_update)
  then show ?thesis unfolding finder_movable_def movable_def g(1,2) n using e by auto
qed

theorem finder_movable_mask_witness:
  "finder_movable (finder_mask_set sample_finder 1 1) 1 1 0 = Inr True"
proof -
  have "pf_block sample_finder (1, 1) = 1"
    by (simp add: sample_finder_def finder_create_def fits_int_def pf_block_def eval_nat_numeral)
  then show ?thesis
    using finder_movable_mask [OF sample_finder_state, of 1 1 1 1 0] sample_finder_move(2) by (simp add: MARK_MAX_def)
qed

end
