(* ===== verification/Kcp.thy ===== *)
theory Kcp
  imports Lua_Value "HOL-Library.Signed_Division"
begin

unbundle bit_operations_syntax

text \<open>
  The reliable datagram protocol of \<open>src/luaclib/ikcp.c\<close>, with the structures of
  \<open>src/luaclib/ikcp.h\<close>, and its Lua binding \<open>src/luaclib/lua-ikcp.c\<close>.

  The four queues of a control block are lists of segments, front first; the counters that the code
  keeps of their lengths are fields of their own. Sequence numbers, times and windows are 32-bit
  words that wrap around. The counters of pending acknowledgements are natural numbers: they would
  need an array of 32 GB to wrap. The output buffer is the list of the bytes written to it, and
  writing more than its size is a fault. The callback for datagrams only takes the datagram, so
  that a flush returns the datagrams that it sends. Logging is never enabled and is left out.
\<close>

section \<open>Constants and integers\<close>

type_synonym u32 = "32 word"

definition IKCP_RTO_NDL :: u32 where "IKCP_RTO_NDL = 30"
definition IKCP_RTO_MIN :: u32 where "IKCP_RTO_MIN = 100"
definition IKCP_RTO_DEF :: u32 where "IKCP_RTO_DEF = 200"
definition IKCP_RTO_MAX :: u32 where "IKCP_RTO_MAX = 60000"
definition IKCP_CMD_PUSH :: u32 where "IKCP_CMD_PUSH = 81"
definition IKCP_CMD_ACK :: u32 where "IKCP_CMD_ACK = 82"
definition IKCP_CMD_WASK :: u32 where "IKCP_CMD_WASK = 83"
definition IKCP_CMD_WINS :: u32 where "IKCP_CMD_WINS = 84"
definition IKCP_ASK_SEND :: u32 where "IKCP_ASK_SEND = 1"
definition IKCP_ASK_TELL :: u32 where "IKCP_ASK_TELL = 2"
definition IKCP_WND_SND :: u32 where "IKCP_WND_SND = 32"
definition IKCP_WND_RCV :: u32 where "IKCP_WND_RCV = 32"
definition IKCP_MTU_DEF :: u32 where "IKCP_MTU_DEF = 1400"
definition IKCP_INTERVAL :: u32 where "IKCP_INTERVAL = 100"
definition IKCP_OVERHEAD :: u32 where "IKCP_OVERHEAD = 24"
definition IKCP_DEADLINK :: u32 where "IKCP_DEADLINK = 20"
definition IKCP_THRESH_INIT :: u32 where "IKCP_THRESH_INIT = 2"
definition IKCP_THRESH_MIN :: u32 where "IKCP_THRESH_MIN = 2"
definition IKCP_PROBE_INIT :: u32 where "IKCP_PROBE_INIT = 7000"
definition IKCP_PROBE_LIMIT :: u32 where "IKCP_PROBE_LIMIT = 120000"

lemmas kcp_constants =
  IKCP_RTO_NDL_def IKCP_RTO_MIN_def IKCP_RTO_DEF_def IKCP_RTO_MAX_def IKCP_CMD_PUSH_def IKCP_CMD_ACK_def IKCP_CMD_WASK_def
  IKCP_CMD_WINS_def IKCP_ASK_SEND_def IKCP_ASK_TELL_def IKCP_WND_SND_def IKCP_WND_RCV_def IKCP_MTU_DEF_def IKCP_INTERVAL_def
  IKCP_OVERHEAD_def IKCP_DEADLINK_def IKCP_THRESH_INIT_def IKCP_THRESH_MIN_def IKCP_PROBE_INIT_def IKCP_PROBE_LIMIT_def

definition ikcp_encode8u :: "byte \<Rightarrow> bytes" where
  "ikcp_encode8u c = [c]"

definition ikcp_decode8u :: "bytes \<Rightarrow> byte \<times> bytes" where
  "ikcp_decode8u p = (hd p, tl p)"

definition ikcp_encode16u :: "16 word \<Rightarrow> bytes" where
  "ikcp_encode16u w = le_bytes 2 (unat w)"

definition ikcp_decode16u :: "bytes \<Rightarrow> 16 word \<times> bytes" where
  "ikcp_decode16u p = (word_of_nat (le_val (take 2 p)), drop 2 p)"

definition ikcp_encode32u :: "u32 \<Rightarrow> bytes" where
  "ikcp_encode32u l = le_bytes 4 (unat l)"

definition ikcp_decode32u :: "bytes \<Rightarrow> u32 \<times> bytes" where
  "ikcp_decode32u p = (word_of_nat (le_val (take 4 p)), drop 4 p)"

definition imin :: "u32 \<Rightarrow> u32 \<Rightarrow> u32" where
  "imin a b = (if a \<le> b then a else b)"

definition imax :: "u32 \<Rightarrow> u32 \<Rightarrow> u32" where
  "imax a b = (if a \<ge> b then a else b)"

definition ibound :: "u32 \<Rightarrow> u32 \<Rightarrow> u32 \<Rightarrow> u32" where
  "ibound lower middle upper = imin (imax lower middle) upper"

definition itimediff :: "u32 \<Rightarrow> u32 \<Rightarrow> int" where
  "itimediff later earlier = sint (later - earlier)"

section \<open>Segments and control blocks\<close>

record ikcpseg =
  s_conv :: u32
  s_cmd :: u32
  s_frg :: u32
  s_wnd :: u32
  s_ts :: u32
  s_sn :: u32
  s_una :: u32
  s_len :: u32
  s_resendts :: u32
  s_rto :: u32
  s_fastack :: u32
  s_xmit :: u32
  s_data :: bytes

text \<open>A fresh segment; \<open>malloc\<close> leaves its fields undefined, and the code sets each before it reads it.\<close>

definition ikcp_segment_new :: "bytes \<Rightarrow> ikcpseg" where
  "ikcp_segment_new data =
     \<lparr>s_conv = 0, s_cmd = 0, s_frg = 0, s_wnd = 0, s_ts = 0, s_sn = 0, s_una = 0, s_len = 0, s_resendts = 0, s_rto = 0,
      s_fastack = 0, s_xmit = 0, s_data = data\<rparr>"

record ikcpcb =
  k_conv :: u32
  k_mtu :: u32
  k_mss :: u32
  k_state :: u32
  k_snd_una :: u32
  k_snd_nxt :: u32
  k_rcv_nxt :: u32
  k_ssthresh :: u32
  k_rx_rttval :: u32
  k_rx_srtt :: u32
  k_rx_rto :: u32
  k_rx_minrto :: u32
  k_snd_wnd :: u32
  k_rcv_wnd :: u32
  k_rmt_wnd :: u32
  k_cwnd :: u32
  k_probe :: u32
  k_current :: u32
  k_interval :: u32
  k_ts_flush :: u32
  k_xmit :: u32
  k_nrcv_buf :: u32
  k_nsnd_buf :: u32
  k_nrcv_que :: u32
  k_nsnd_que :: u32
  k_nodelay :: u32
  k_updated :: u32
  k_ts_probe :: u32
  k_probe_wait :: u32
  k_dead_link :: u32
  k_incr :: u32
  k_snd_queue :: "ikcpseg list"
  k_rcv_queue :: "ikcpseg list"
  k_snd_buf :: "ikcpseg list"
  k_rcv_buf :: "ikcpseg list"
  k_acklist :: "(u32 \<times> u32) list"
  k_ackcount :: nat
  k_ackblock :: nat
  k_buffer :: nat
  k_fastresend :: int
  k_nocwnd :: int
  k_stream :: int

text \<open>An output buffer is described by its size.\<close>

definition buffer_size :: "u32 \<Rightarrow> nat" where
  "buffer_size mtu = unat ((mtu + IKCP_OVERHEAD) * 3)"

definition ikcp_create :: "u32 \<Rightarrow> ikcpcb" where
  "ikcp_create conv =
     \<lparr>k_conv = conv, k_mtu = IKCP_MTU_DEF, k_mss = IKCP_MTU_DEF - IKCP_OVERHEAD, k_state = 0, k_snd_una = 0, k_snd_nxt = 0,
      k_rcv_nxt = 0, k_ssthresh = IKCP_THRESH_INIT, k_rx_rttval = 0, k_rx_srtt = 0, k_rx_rto = IKCP_RTO_DEF,
      k_rx_minrto = IKCP_RTO_MIN, k_snd_wnd = IKCP_WND_SND, k_rcv_wnd = IKCP_WND_RCV, k_rmt_wnd = IKCP_WND_RCV, k_cwnd = 0,
      k_probe = 0, k_current = 0, k_interval = IKCP_INTERVAL, k_ts_flush = IKCP_INTERVAL, k_xmit = 0, k_nrcv_buf = 0,
      k_nsnd_buf = 0, k_nrcv_que = 0, k_nsnd_que = 0, k_nodelay = 0, k_updated = 0, k_ts_probe = 0, k_probe_wait = 0,
      k_dead_link = IKCP_DEADLINK, k_incr = 0, k_snd_queue = [], k_rcv_queue = [], k_snd_buf = [], k_rcv_buf = [],
      k_acklist = [], k_ackcount = 0, k_ackblock = 0, k_buffer = buffer_size IKCP_MTU_DEF, k_fastresend = 0, k_nocwnd = 0,
      k_stream = 0\<rparr>"

datatype kcp_fault = Kcp_assertion | Buffer_overrun | Null_buffer | Bad_argument

section \<open>Receiving\<close>

fun peek_length :: "ikcpseg list \<Rightarrow> u32" where
  "peek_length [] = 0"
| "peek_length (s # q) = s_len s + (if s_frg s = 0 then 0 else peek_length q)"

definition ikcp_peeksize :: "ikcpcb \<Rightarrow> int" where
  "ikcp_peeksize k =
     (case k_rcv_queue k of
        [] \<Rightarrow> - 1
      | s # q \<Rightarrow>
          if s_frg s = 0 then sint (s_len s)
          else if k_nrcv_que k < s_frg s + 1 then - 1
          else sint (peek_length (k_rcv_queue k)))"

text \<open>The segments up to the last fragment: the length, the bytes, how many they are, and the rest of the queue.\<close>

fun merge_fragments :: "ikcpseg list \<Rightarrow> u32 \<times> bytes \<times> nat \<times> ikcpseg list" where
  "merge_fragments [] = (0, [], 0, [])"
| "merge_fragments (s # q) =
     (if s_frg s = 0 then (s_len s, take (unat (s_len s)) (s_data s), 1, q)
      else (case merge_fragments q of (l, bs, n, r) \<Rightarrow> (s_len s + l, take (unat (s_len s)) (s_data s) @ bs, Suc n, r)))"

text \<open>Moves the available segments from the receive buffer to the receive queue.\<close>

fun move_loop :: "ikcpseg list \<Rightarrow> ikcpcb \<Rightarrow> ikcpcb" where
  "move_loop [] k = k\<lparr>k_rcv_buf := []\<rparr>"
| "move_loop (s # b) k =
     (if s_sn s = k_rcv_nxt k \<and> k_nrcv_que k < k_rcv_wnd k
      then move_loop b (k\<lparr>k_nrcv_buf := k_nrcv_buf k - 1, k_rcv_queue := k_rcv_queue k @ [s], k_nrcv_que := k_nrcv_que k + 1,
                          k_rcv_nxt := k_rcv_nxt k + 1\<rparr>)
      else k\<lparr>k_rcv_buf := s # b\<rparr>)"

definition move_available :: "ikcpcb \<Rightarrow> ikcpcb" where
  "move_available k = move_loop (k_rcv_buf k) k"

text \<open>The result, the bytes written to the buffer of the caller, and the new state.\<close>

definition ikcp_recv :: "ikcpcb \<Rightarrow> int \<Rightarrow> kcp_fault + int \<times> bytes \<times> ikcpcb" where
  "ikcp_recv k len =
     (if k_rcv_queue k = [] then Inr (- 1, [], k)
      else if ikcp_peeksize k < 0 then Inr (- 2, [], k)
      else if ikcp_peeksize k > \<bar>len\<bar> then Inr (- 3, [], k)
      else (case merge_fragments (k_rcv_queue k) of (l, bs, n, rest) \<Rightarrow>
              if sint l \<noteq> ikcp_peeksize k then Inl Kcp_assertion
              else (let recover = k_nrcv_que k \<ge> k_rcv_wnd k;
                        k = (if len < 0 then k else k\<lparr>k_rcv_queue := rest, k_nrcv_que := k_nrcv_que k - word_of_nat n\<rparr>);
                        k = move_available k;
                        k = (if k_nrcv_que k < k_rcv_wnd k \<and> recover then k\<lparr>k_probe := k_probe k OR IKCP_ASK_TELL\<rparr> else k)
                    in Inr (sint l, bs, k))))"

section \<open>Sending\<close>

text \<open>In stream mode the bytes first fill the last waiting segment.\<close>

definition extend_last :: "ikcpcb \<Rightarrow> bytes \<Rightarrow> int \<Rightarrow> ikcpcb \<times> bytes \<times> int" where
  "extend_last k buffer len =
     (if k_snd_queue k = [] then (k, buffer, len)
      else (let old = last (k_snd_queue k)
            in if s_len old < k_mss k
               then (let capacity = sint (k_mss k - s_len old);
                         extend = (if len < capacity then len else capacity);
                         seg = (ikcp_segment_new (take (unat (s_len old)) (s_data old) @ take (nat extend) buffer))
                                 \<lparr>s_len := s_len old + word_of_int extend, s_frg := 0\<rparr>
                     in (k\<lparr>k_snd_queue := butlast (k_snd_queue k) @ [seg]\<rparr>, drop (nat extend) buffer, len - extend))
               else (k, buffer, len)))"

text \<open>The argument counts the fragments that are left.\<close>

fun fragment_loop :: "nat \<Rightarrow> bytes \<Rightarrow> int \<Rightarrow> ikcpcb \<Rightarrow> ikcpcb" where
  "fragment_loop 0 buffer len k = k"
| "fragment_loop (Suc n) buffer len k =
     (let size = (if len > sint (k_mss k) then sint (k_mss k) else len);
          seg = (ikcp_segment_new (take (nat size) buffer))
                  \<lparr>s_len := word_of_int size, s_frg := (if k_stream k = 0 then word_of_nat n else 0)\<rparr>
      in fragment_loop n (drop (nat size) buffer) (len - size)
           (k\<lparr>k_snd_queue := k_snd_queue k @ [seg], k_nsnd_que := k_nsnd_que k + 1\<rparr>))"

definition fragment_count :: "u32 \<Rightarrow> int \<Rightarrow> nat" where
  "fragment_count mss len = (if len \<le> sint mss then 1 else unat ((word_of_int len + mss - 1) div mss))"

definition ikcp_send :: "ikcpcb \<Rightarrow> bytes \<Rightarrow> int \<Rightarrow> kcp_fault + int \<times> ikcpcb" where
  "ikcp_send k buffer len =
     (if k_mss k = 0 then Inl Kcp_assertion
      else if len < 0 then Inr (- 1, k)
      else (case (if k_stream k \<noteq> 0 then extend_last k buffer len else (k, buffer, len)) of (k, buffer, len) \<Rightarrow>
              if k_stream k \<noteq> 0 \<and> len \<le> 0 then Inr (0, k)
              else (let count = fragment_count (k_mss k) len
                    in if count > 255 then Inr (- 2, k)
                       else Inr (0, fragment_loop (if count = 0 then 1 else count) buffer len k))))"

section \<open>Acknowledgements\<close>

text \<open>The round-trip times are signed; the products are computed without overflow.\<close>

definition ikcp_update_ack :: "ikcpcb \<Rightarrow> int \<Rightarrow> ikcpcb" where
  "ikcp_update_ack k rtt =
     (let k = (if k_rx_srtt k = 0
               then k\<lparr>k_rx_srtt := word_of_int rtt, k_rx_rttval := word_of_int (rtt sdiv 2)\<rparr>
               else (let delta = \<bar>rtt - sint (k_rx_srtt k)\<bar>;
                         rttval = (3 * sint (k_rx_rttval k) + delta) sdiv 4;
                         srtt = (7 * sint (k_rx_srtt k) + rtt) sdiv 8
                     in k\<lparr>k_rx_rttval := word_of_int rttval, k_rx_srtt := (if srtt < 1 then 1 else word_of_int srtt)\<rparr>));
          rto = k_rx_srtt k + imax (k_interval k) (4 * k_rx_rttval k)
      in k\<lparr>k_rx_rto := ibound (k_rx_minrto k) rto IKCP_RTO_MAX\<rparr>)"

definition ikcp_shrink_buf :: "ikcpcb \<Rightarrow> ikcpcb" where
  "ikcp_shrink_buf k = (case k_snd_buf k of s # b \<Rightarrow> k\<lparr>k_snd_una := s_sn s\<rparr> | [] \<Rightarrow> k\<lparr>k_snd_una := k_snd_nxt k\<rparr>)"

text \<open>Whether a segment was removed, and the remaining ones.\<close>

fun remove_acked :: "u32 \<Rightarrow> ikcpseg list \<Rightarrow> bool \<times> ikcpseg list" where
  "remove_acked sn [] = (False, [])"
| "remove_acked sn (s # b) =
     (if sn = s_sn s then (True, b)
      else if itimediff sn (s_sn s) < 0 then (False, s # b)
      else (case remove_acked sn b of (r, b) \<Rightarrow> (r, s # b)))"

definition ikcp_parse_ack :: "ikcpcb \<Rightarrow> u32 \<Rightarrow> ikcpcb" where
  "ikcp_parse_ack k sn =
     (if itimediff sn (k_snd_una k) < 0 \<or> itimediff sn (k_snd_nxt k) \<ge> 0 then k
      else (case remove_acked sn (k_snd_buf k) of
              (True, b) \<Rightarrow> k\<lparr>k_snd_buf := b, k_nsnd_buf := k_nsnd_buf k - 1\<rparr>
            | (False, b) \<Rightarrow> k\<lparr>k_snd_buf := b\<rparr>))"

fun una_loop :: "u32 \<Rightarrow> ikcpseg list \<Rightarrow> ikcpcb \<Rightarrow> ikcpcb" where
  "una_loop una [] k = k\<lparr>k_snd_buf := []\<rparr>"
| "una_loop una (s # b) k =
     (if itimediff una (s_sn s) > 0 then una_loop una b (k\<lparr>k_nsnd_buf := k_nsnd_buf k - 1\<rparr>) else k\<lparr>k_snd_buf := s # b\<rparr>)"

definition ikcp_parse_una :: "ikcpcb \<Rightarrow> u32 \<Rightarrow> ikcpcb" where
  "ikcp_parse_una k una = una_loop una (k_snd_buf k) k"

fun fastack_loop :: "u32 \<Rightarrow> ikcpseg list \<Rightarrow> ikcpseg list" where
  "fastack_loop sn [] = []"
| "fastack_loop sn (s # b) =
     (if itimediff sn (s_sn s) < 0 then s # b
      else (if sn \<noteq> s_sn s then s\<lparr>s_fastack := s_fastack s + 1\<rparr> else s) # fastack_loop sn b)"

definition ikcp_parse_fastack :: "ikcpcb \<Rightarrow> u32 \<Rightarrow> ikcpcb" where
  "ikcp_parse_fastack k sn =
     (if itimediff sn (k_snd_una k) < 0 \<or> itimediff sn (k_snd_nxt k) \<ge> 0 then k
      else k\<lparr>k_snd_buf := fastack_loop sn (k_snd_buf k)\<rparr>)"

function ack_block :: "nat \<Rightarrow> nat \<Rightarrow> nat" where
  "ack_block newsize newblock = (if 0 < newblock \<and> newblock < newsize then ack_block newsize (2 * newblock) else newblock)"
  by auto
termination by (relation "measure (\<lambda>(s, b). s - b)") auto

declare ack_block.simps [simp del]

definition ikcp_ack_push :: "ikcpcb \<Rightarrow> u32 \<Rightarrow> u32 \<Rightarrow> ikcpcb" where
  "ikcp_ack_push k sn ts =
     (let newsize = Suc (k_ackcount k);
          k = (if newsize > k_ackblock k
               then (let newblock = ack_block newsize 8
                     in k\<lparr>k_acklist := take (k_ackcount k) (k_acklist k) @ replicate (newblock - k_ackcount k) (0, 0),
                          k_ackblock := newblock\<rparr>)
               else k)
      in k\<lparr>k_acklist := (k_acklist k)[k_ackcount k := (sn, ts)], k_ackcount := Suc (k_ackcount k)\<rparr>)"

definition ikcp_ack_get :: "ikcpcb \<Rightarrow> nat \<Rightarrow> u32 \<times> u32" where
  "ikcp_ack_get k p = k_acklist k ! p"

section \<open>Input\<close>

text \<open>The buffer from the back, with the new segment in its place; nothing if it is already there.\<close>

fun insert_segment :: "ikcpseg \<Rightarrow> ikcpseg list \<Rightarrow> ikcpseg list option" where
  "insert_segment newseg [] = Some [newseg]"
| "insert_segment newseg (s # r) =
     (if s_sn s = s_sn newseg then None
      else if itimediff (s_sn newseg) (s_sn s) > 0 then Some (newseg # s # r)
      else map_option (Cons s) (insert_segment newseg r))"

definition ikcp_parse_data :: "ikcpcb \<Rightarrow> ikcpseg \<Rightarrow> ikcpcb" where
  "ikcp_parse_data k newseg =
     (if itimediff (s_sn newseg) (k_rcv_nxt k + k_rcv_wnd k) \<ge> 0 \<or> itimediff (s_sn newseg) (k_rcv_nxt k) < 0 then k
      else move_available
             (case insert_segment newseg (rev (k_rcv_buf k)) of
                Some r \<Rightarrow> k\<lparr>k_rcv_buf := rev r, k_nrcv_buf := k_nrcv_buf k + 1\<rparr>
              | None \<Rightarrow> k))"

text \<open>One segment of a datagram; the pair is \<open>flag\<close> and \<open>maxack\<close>.\<close>

definition input_segment ::
  "u32 \<Rightarrow> byte \<Rightarrow> byte \<Rightarrow> 16 word \<Rightarrow> u32 \<Rightarrow> u32 \<Rightarrow> u32 \<Rightarrow> u32 \<Rightarrow> bytes \<Rightarrow> ikcpcb \<times> bool \<times> u32 \<Rightarrow> ikcpcb \<times> bool \<times> u32" where
  "input_segment conv cmd frg wnd ts sn una len data acc =
     (case acc of (k, flag, maxack) \<Rightarrow>
        (let k = ikcp_shrink_buf (ikcp_parse_una (k\<lparr>k_rmt_wnd := ucast wnd\<rparr>) una)
         in if ucast cmd = IKCP_CMD_ACK
            then (let k = (if itimediff (k_current k) ts \<ge> 0 then ikcp_update_ack k (itimediff (k_current k) ts) else k);
                      k = ikcp_shrink_buf (ikcp_parse_ack k sn)
                  in (k, True, if \<not> flag \<or> itimediff sn maxack > 0 then sn else maxack))
            else if ucast cmd = IKCP_CMD_PUSH
            then (if itimediff sn (k_rcv_nxt k + k_rcv_wnd k) < 0
                  then (let k = ikcp_ack_push k sn ts
                        in (if itimediff sn (k_rcv_nxt k) \<ge> 0
                            then ikcp_parse_data k ((ikcp_segment_new (take (unat len) data))
                                   \<lparr>s_conv := conv, s_cmd := ucast cmd, s_frg := ucast frg, s_wnd := ucast wnd, s_ts := ts,
                                    s_sn := sn, s_una := una, s_len := len\<rparr>)
                            else k, flag, maxack))
                  else (k, flag, maxack))
            else if ucast cmd = IKCP_CMD_WASK then (k\<lparr>k_probe := k_probe k OR IKCP_ASK_TELL\<rparr>, flag, maxack)
            else (k, flag, maxack)))"

definition is_command :: "byte \<Rightarrow> bool" where
  "is_command cmd \<longleftrightarrow>
     ucast cmd = IKCP_CMD_PUSH \<or> ucast cmd = IKCP_CMD_ACK \<or> ucast cmd = IKCP_CMD_WASK \<or> ucast cmd = IKCP_CMD_WINS"

text \<open>The header of a segment: \<open>conv\<close>, \<open>cmd\<close>, \<open>frg\<close>, \<open>wnd\<close>, \<open>ts\<close>, \<open>sn\<close>, \<open>una\<close>, \<open>len\<close>, and the bytes behind it.\<close>

definition decode_header :: "bytes \<Rightarrow> u32 \<times> byte \<times> byte \<times> 16 word \<times> u32 \<times> u32 \<times> u32 \<times> u32 \<times> bytes" where
  "decode_header data =
     (let (conv, data) = ikcp_decode32u data;
          (cmd, data) = ikcp_decode8u data;
          (frg, data) = ikcp_decode8u data;
          (wnd, data) = ikcp_decode16u data;
          (ts, data) = ikcp_decode32u data;
          (sn, data) = ikcp_decode32u data;
          (una, data) = ikcp_decode32u data;
          (len, data) = ikcp_decode32u data
      in (conv, cmd, frg, wnd, ts, sn, una, len, data))"

lemma decode_header_rest: "decode_header data = (conv, cmd, frg, wnd, ts, sn, una, len, rest) \<Longrightarrow> rest = drop 24 data"
  by (auto simp: decode_header_def ikcp_decode32u_def ikcp_decode8u_def ikcp_decode16u_def Let_def drop_Suc [symmetric] tl_drop)

function input_loop :: "bytes \<Rightarrow> ikcpcb \<times> bool \<times> u32 \<Rightarrow> int \<times> ikcpcb \<times> bool \<times> u32" where
  "input_loop data acc =
     (if length data < 24 then (0, acc)
      else (case decode_header data of (conv, cmd, frg, wnd, ts, sn, una, len, rest) \<Rightarrow>
              if conv \<noteq> k_conv (fst acc) then (- 1, acc)
              else if length rest < unat len then (- 2, acc)
              else if \<not> is_command cmd then (- 3, acc)
              else input_loop (drop (unat len) rest) (input_segment conv cmd frg wnd ts sn una len rest acc)))"
  by auto
termination
  by (relation "measure (\<lambda>(data, acc). length data)") (auto dest!: decode_header_rest [OF sym])

declare input_loop.simps [simp del]

definition grow_window :: "u32 \<Rightarrow> ikcpcb \<Rightarrow> ikcpcb" where
  "grow_window una k =
     (if itimediff (k_snd_una k) una > 0 \<and> k_cwnd k < k_rmt_wnd k
      then (let mss = k_mss k;
                k = (if k_cwnd k < k_ssthresh k then k\<lparr>k_cwnd := k_cwnd k + 1, k_incr := k_incr k + mss\<rparr>
                     else (let incr = (if k_incr k < mss then mss else k_incr k);
                               incr = incr + ((mss * mss) div incr + mss div 16)
                           in k\<lparr>k_incr := incr, k_cwnd := (if (k_cwnd k + 1) * mss \<le> incr then k_cwnd k + 1 else k_cwnd k)\<rparr>))
            in if k_cwnd k > k_rmt_wnd k then k\<lparr>k_cwnd := k_rmt_wnd k, k_incr := k_rmt_wnd k * mss\<rparr> else k)
      else k)"

definition ikcp_input :: "ikcpcb \<Rightarrow> bytes \<Rightarrow> int \<times> ikcpcb" where
  "ikcp_input k data =
     (if sint (word_of_nat (length data) :: u32) < sint IKCP_OVERHEAD then (- 1, k)
      else (case input_loop data (k, False, 0) of (r, g, flag, maxack) \<Rightarrow>
              if r \<noteq> 0 then (r, g)
              else (0, grow_window (k_snd_una k) (if flag then ikcp_parse_fastack g maxack else g))))"

section \<open>Flushing\<close>

definition ikcp_encode_seg :: "ikcpseg \<Rightarrow> bytes" where
  "ikcp_encode_seg seg =
     ikcp_encode32u (s_conv seg) @ ikcp_encode8u (ucast (s_cmd seg)) @ ikcp_encode8u (ucast (s_frg seg)) @
     ikcp_encode16u (ucast (s_wnd seg)) @ ikcp_encode32u (s_ts seg) @ ikcp_encode32u (s_sn seg) @ ikcp_encode32u (s_una seg) @
     ikcp_encode32u (s_len seg)"

definition ikcp_wnd_unused :: "ikcpcb \<Rightarrow> u32" where
  "ikcp_wnd_unused k = (if k_nrcv_que k < k_rcv_wnd k then k_rcv_wnd k - k_nrcv_que k else 0)"

text \<open>The bytes in the output buffer and the datagrams sent; \<open>ikcp_output\<close> sends nothing for no bytes.\<close>

type_synonym outgoing = "bytes \<times> bytes list"

definition ikcp_output :: "outgoing \<Rightarrow> outgoing" where
  "ikcp_output out = (case out of (buf, ds) \<Rightarrow> ([], if buf = [] then ds else ds @ [buf]))"

definition make_room :: "ikcpcb \<Rightarrow> int \<Rightarrow> outgoing \<Rightarrow> outgoing" where
  "make_room k need out = (if int (length (fst out)) + need > sint (k_mtu k) then ikcp_output out else out)"

definition put_bytes :: "ikcpcb \<Rightarrow> bytes \<Rightarrow> outgoing \<Rightarrow> kcp_fault + outgoing" where
  "put_bytes k bs out = (if length (fst out) + length bs > k_buffer k then Inl Buffer_overrun else Inr (fst out @ bs, snd out))"

definition put_header :: "ikcpcb \<Rightarrow> ikcpseg \<Rightarrow> outgoing \<Rightarrow> kcp_fault + outgoing" where
  "put_header k seg out = put_bytes k (ikcp_encode_seg seg) (make_room k (sint IKCP_OVERHEAD) out)"

definition flush_acks :: "ikcpcb \<Rightarrow> ikcpseg \<Rightarrow> outgoing \<Rightarrow> kcp_fault + outgoing" where
  "flush_acks k seg =
     rfold (\<lambda>i. put_header k (seg\<lparr>s_sn := fst (ikcp_ack_get k i), s_ts := snd (ikcp_ack_get k i)\<rparr>)) [0..<k_ackcount k]"

definition probe_window :: "ikcpcb \<Rightarrow> ikcpcb" where
  "probe_window k =
     (if k_rmt_wnd k = 0
      then if k_probe_wait k = 0 then k\<lparr>k_probe_wait := IKCP_PROBE_INIT, k_ts_probe := k_current k + IKCP_PROBE_INIT\<rparr>
           else if itimediff (k_current k) (k_ts_probe k) \<ge> 0
           then (let wait = (if k_probe_wait k < IKCP_PROBE_INIT then IKCP_PROBE_INIT else k_probe_wait k);
                     wait = wait + wait div 2;
                     wait = (if wait > IKCP_PROBE_LIMIT then IKCP_PROBE_LIMIT else wait)
                 in k\<lparr>k_probe_wait := wait, k_ts_probe := k_current k + wait, k_probe := k_probe k OR IKCP_ASK_SEND\<rparr>)
           else k
      else k\<lparr>k_ts_probe := 0, k_probe_wait := 0\<rparr>)"

text \<open>The template keeps the number and the time of the last acknowledgement, as the local variable does.\<close>

definition flush_probes :: "ikcpcb \<Rightarrow> ikcpseg \<Rightarrow> outgoing \<Rightarrow> kcp_fault + outgoing" where
  "flush_probes k seg out =
     rbind (if k_probe k AND IKCP_ASK_SEND \<noteq> 0 then put_header k (seg\<lparr>s_cmd := IKCP_CMD_WASK\<rparr>) out else Inr out) (\<lambda>out.
       if k_probe k AND IKCP_ASK_TELL \<noteq> 0 then put_header k (seg\<lparr>s_cmd := IKCP_CMD_WINS\<rparr>) out else Inr out)"

text \<open>Moves segments from the send queue to the send buffer, as far as the window allows.\<close>

fun window_loop :: "u32 \<Rightarrow> u32 \<Rightarrow> ikcpseg list \<Rightarrow> ikcpcb \<Rightarrow> ikcpcb" where
  "window_loop cwnd wnd [] k = k\<lparr>k_snd_queue := []\<rparr>"
| "window_loop cwnd wnd (s # q) k =
     (if itimediff (k_snd_nxt k) (k_snd_una k + cwnd) < 0
      then window_loop cwnd wnd q
             (k\<lparr>k_snd_buf := k_snd_buf k @
                  [s\<lparr>s_conv := k_conv k, s_cmd := IKCP_CMD_PUSH, s_wnd := wnd, s_ts := k_current k, s_sn := k_snd_nxt k,
                     s_una := k_rcv_nxt k, s_resendts := k_current k, s_rto := k_rx_rto k, s_fastack := 0, s_xmit := 0\<rparr>],
                k_nsnd_que := k_nsnd_que k - 1, k_nsnd_buf := k_nsnd_buf k + 1, k_snd_nxt := k_snd_nxt k + 1\<rparr>)
      else k\<lparr>k_snd_queue := s # q\<rparr>)"

text \<open>
  Whether a segment is to be sent (again), the segment with its new timer, the control block, and
  whether the reason was a number of later acknowledgements or a timeout.
\<close>

definition schedule_segment :: "u32 \<Rightarrow> u32 \<Rightarrow> ikcpseg \<Rightarrow> ikcpcb \<Rightarrow> bool \<times> ikcpseg \<times> ikcpcb \<times> bool \<times> bool" where
  "schedule_segment resent rtomin s k =
     (let current = k_current k
      in if s_xmit s = 0
         then (True, s\<lparr>s_xmit := s_xmit s + 1, s_rto := k_rx_rto k, s_resendts := current + k_rx_rto k + rtomin\<rparr>, k, False, False)
         else if itimediff current (s_resendts s) \<ge> 0
         then (let rto = s_rto s + (if k_nodelay k = 0 then k_rx_rto k else word_of_int (sint (k_rx_rto k) sdiv 2))
               in (True, s\<lparr>s_xmit := s_xmit s + 1, s_rto := rto, s_resendts := current + rto\<rparr>, k\<lparr>k_xmit := k_xmit k + 1\<rparr>, False, True))
         else if s_fastack s \<ge> resent
         then (True, s\<lparr>s_xmit := s_xmit s + 1, s_fastack := 0, s_resendts := current + s_rto s\<rparr>, k, True, False)
         else (False, s, k, False, False))"

definition put_segment :: "ikcpcb \<Rightarrow> ikcpseg \<Rightarrow> outgoing \<Rightarrow> kcp_fault + outgoing" where
  "put_segment k s out =
     rbind (put_bytes k (ikcp_encode_seg s) (make_room k (sint (IKCP_OVERHEAD + s_len s)) out)) (\<lambda>out.
       if s_len s > 0 then put_bytes k (take (unat (s_len s)) (s_data s)) out else Inr out)"

fun flush_data ::
  "u32 \<Rightarrow> u32 \<Rightarrow> u32 \<Rightarrow> ikcpseg list \<Rightarrow> ikcpcb \<times> bool \<times> bool \<times> outgoing
   \<Rightarrow> kcp_fault + ikcpseg list \<times> ikcpcb \<times> bool \<times> bool \<times> outgoing" where
  "flush_data resent rtomin wnd [] acc = Inr ([], acc)"
| "flush_data resent rtomin wnd (s # b) (k, change, lost, out) =
     (case schedule_segment resent rtomin s k of (needsend, s, k, c, l) \<Rightarrow>
        (let s = (if needsend then s\<lparr>s_ts := k_current k, s_wnd := wnd, s_una := k_rcv_nxt k\<rparr> else s)
         in rbind (if needsend then put_segment k s out else Inr out) (\<lambda>out.
              (let k = (if needsend \<and> s_xmit s \<ge> k_dead_link k then k\<lparr>k_state := - 1\<rparr> else k)
               in rbind (flush_data resent rtomin wnd b (k, change \<or> c, lost \<or> l, out)) (\<lambda>(b, acc). Inr (s # b, acc))))))"

definition shrink_window :: "u32 \<Rightarrow> u32 \<Rightarrow> bool \<Rightarrow> bool \<Rightarrow> ikcpcb \<Rightarrow> ikcpcb" where
  "shrink_window resent cwnd change lost k =
     (let at_least = (\<lambda>t. if t < IKCP_THRESH_MIN then IKCP_THRESH_MIN else t);
          k = (if change
               then (let t = at_least ((k_snd_nxt k - k_snd_una k) div 2)
                     in k\<lparr>k_ssthresh := t, k_cwnd := t + resent, k_incr := (t + resent) * k_mss k\<rparr>)
               else k);
          k = (if lost then k\<lparr>k_ssthresh := at_least (cwnd div 2), k_cwnd := 1, k_incr := k_mss k\<rparr> else k)
      in if k_cwnd k < 1 then k\<lparr>k_cwnd := 1, k_incr := k_mss k\<rparr> else k)"

text \<open>The local segment for control messages, before and after the acknowledgements.\<close>

definition control_segment :: "ikcpcb \<Rightarrow> ikcpseg" where
  "control_segment k =
     (ikcp_segment_new [])\<lparr>s_conv := k_conv k, s_cmd := IKCP_CMD_ACK, s_wnd := ikcp_wnd_unused k, s_una := k_rcv_nxt k\<rparr>"

definition last_ack :: "ikcpcb \<Rightarrow> ikcpseg" where
  "last_ack k =
     (if k_ackcount k = 0 then control_segment k
      else (let a = ikcp_ack_get k (k_ackcount k - 1) in (control_segment k)\<lparr>s_sn := fst a, s_ts := snd a\<rparr>))"

definition send_window :: "ikcpcb \<Rightarrow> u32" where
  "send_window k =
     (let cwnd = imin (k_snd_wnd k) (k_rmt_wnd k) in if k_nocwnd k = 0 then imin (k_cwnd k) cwnd else cwnd)"

definition ikcp_flush :: "ikcpcb \<Rightarrow> kcp_fault + ikcpcb \<times> bytes list" where
  "ikcp_flush k =
     (if k_updated k = 0 then Inr (k, [])
      else (let wnd = ikcp_wnd_unused k; seg = control_segment k; last = last_ack k
            in rbind (flush_acks k seg ([], [])) (\<lambda>out.
               (let k = probe_window (k\<lparr>k_ackcount := 0\<rparr>)
                in rbind (flush_probes k last out) (\<lambda>out.
                   (let k = k\<lparr>k_probe := 0\<rparr>;
                        cwnd = send_window k;
                        k = window_loop cwnd wnd (k_snd_queue k) k;
                        resent = (if k_fastresend k > 0 then word_of_int (k_fastresend k) else 0xFFFFFFFF);
                        rtomin = (if k_nodelay k = 0 then word_of_int (sint (k_rx_rto k) div 8) else 0)
                    in rbind (flush_data resent rtomin wnd (k_snd_buf k) (k, False, False, out)) (\<lambda>(b, k, change, lost, out).
                       Inr (shrink_window resent cwnd change lost (k\<lparr>k_snd_buf := b\<rparr>), snd (ikcp_output out)))))))))"

section \<open>Time\<close>

definition ikcp_update :: "ikcpcb \<Rightarrow> u32 \<Rightarrow> kcp_fault + ikcpcb \<times> bytes list" where
  "ikcp_update k current =
     (let k = k\<lparr>k_current := current\<rparr>;
          k = (if k_updated k = 0 then k\<lparr>k_updated := 1, k_ts_flush := current\<rparr> else k);
          far = itimediff current (k_ts_flush k) \<ge> 10000 \<or> itimediff current (k_ts_flush k) < - 10000;
          k = (if far then k\<lparr>k_ts_flush := current\<rparr> else k)
      in if itimediff current (k_ts_flush k) \<ge> 0
         then (let k = k\<lparr>k_ts_flush := k_ts_flush k + k_interval k\<rparr>;
                   k = (if itimediff current (k_ts_flush k) \<ge> 0 then k\<lparr>k_ts_flush := current + k_interval k\<rparr> else k)
               in ikcp_flush k)
         else Inr (k, []))"

text \<open>The smallest time until a segment is due; nothing if one is due now.\<close>

fun check_loop :: "u32 \<Rightarrow> ikcpseg list \<Rightarrow> int \<Rightarrow> int option" where
  "check_loop current [] tm = Some tm"
| "check_loop current (s # b) tm =
     (let diff = itimediff (s_resendts s) current
      in if diff \<le> 0 then None else check_loop current b (if diff < tm then diff else tm))"

definition ikcp_check :: "ikcpcb \<Rightarrow> u32 \<Rightarrow> u32" where
  "ikcp_check k current =
     (if k_updated k = 0 then current
      else (let far = itimediff current (k_ts_flush k) \<ge> 10000 \<or> itimediff current (k_ts_flush k) < - 10000;
                ts_flush = (if far then current else k_ts_flush k)
            in if itimediff current ts_flush \<ge> 0 then current
               else (case check_loop current (k_snd_buf k) 0x7FFFFFFF of
                       None \<Rightarrow> current
                     | Some tm_packet \<Rightarrow>
                         (let tm_flush = itimediff ts_flush current;
                              minimal = word_of_int (if tm_packet < tm_flush then tm_packet else tm_flush)
                          in current + (if minimal \<ge> k_interval k then k_interval k else minimal)))))"

section \<open>Configuration\<close>

definition ikcp_setmtu :: "ikcpcb \<Rightarrow> int \<Rightarrow> int \<times> ikcpcb" where
  "ikcp_setmtu k mtu =
     (if mtu < 50 \<or> mtu < sint IKCP_OVERHEAD then (- 1, k)
      else (0, k\<lparr>k_mtu := word_of_int mtu, k_mss := word_of_int mtu - IKCP_OVERHEAD, k_buffer := buffer_size (word_of_int mtu)\<rparr>))"

definition bound_interval :: "int \<Rightarrow> u32" where
  "bound_interval interval = word_of_int (if interval > 5000 then 5000 else if interval < 10 then 10 else interval)"

definition ikcp_interval :: "ikcpcb \<Rightarrow> int \<Rightarrow> ikcpcb" where
  "ikcp_interval k interval = k\<lparr>k_interval := bound_interval interval\<rparr>"

definition ikcp_nodelay :: "ikcpcb \<Rightarrow> int \<Rightarrow> int \<Rightarrow> int \<Rightarrow> int \<Rightarrow> ikcpcb" where
  "ikcp_nodelay k nodelay interval resend nc =
     (let k = (if nodelay \<ge> 0
               then k\<lparr>k_nodelay := word_of_int nodelay, k_rx_minrto := (if nodelay \<noteq> 0 then IKCP_RTO_NDL else IKCP_RTO_MIN)\<rparr>
               else k);
          k = (if interval \<ge> 0 then k\<lparr>k_interval := bound_interval interval\<rparr> else k);
          k = (if resend \<ge> 0 then k\<lparr>k_fastresend := resend\<rparr> else k)
      in if nc \<ge> 0 then k\<lparr>k_nocwnd := nc\<rparr> else k)"

definition ikcp_wndsize :: "ikcpcb \<Rightarrow> int \<Rightarrow> int \<Rightarrow> ikcpcb" where
  "ikcp_wndsize k sndwnd rcvwnd =
     (let k = (if sndwnd > 0 then k\<lparr>k_snd_wnd := word_of_int sndwnd\<rparr> else k)
      in if rcvwnd > 0 then k\<lparr>k_rcv_wnd := word_of_int rcvwnd\<rparr> else k)"

definition ikcp_waitsnd :: "ikcpcb \<Rightarrow> int" where
  "ikcp_waitsnd k = sint (k_nsnd_buf k + k_nsnd_que k)"

definition ikcp_getconv :: "bytes \<Rightarrow> u32" where
  "ikcp_getconv p = fst (ikcp_decode32u p)"

section \<open>The Lua binding\<close>

definition likcp_new :: "lua_value \<Rightarrow> ikcpcb" where
  "likcp_new conv = ikcp_create (word_of_int (c_int conv))"

text \<open>The first argument of a method is the object itself; as an integer it is zero.\<close>

definition likcp_wndsize :: "ikcpcb \<Rightarrow> lua_value list \<Rightarrow> ikcpcb" where
  "likcp_wndsize k args = ikcp_wndsize k (c_int (args ! 0)) (c_int (args ! 1))"

fun luaL_checkinteger :: "lua_value \<Rightarrow> kcp_fault + 64 word" where
  "luaL_checkinteger (LInt i) = Inr i"
| "luaL_checkinteger (LNum d) = (case double_to_int d of Some i \<Rightarrow> Inr i | None \<Rightarrow> Inl Bad_argument)"
| "luaL_checkinteger v = Inl Bad_argument"

definition likcp_nodelay :: "ikcpcb \<Rightarrow> lua_value list \<Rightarrow> kcp_fault + ikcpcb" where
  "likcp_nodelay k args =
     (let as_int = (\<lambda>i. sint (ucast i :: 32 word))
      in rbind (luaL_checkinteger (args ! 1)) (\<lambda>nodelay. rbind (luaL_checkinteger (args ! 2)) (\<lambda>interval.
         rbind (luaL_checkinteger (args ! 3)) (\<lambda>resend. rbind (luaL_checkinteger (args ! 4)) (\<lambda>nc.
           Inr (ikcp_nodelay k (as_int nodelay) (as_int interval) (as_int resend) (as_int nc)))))))"

text \<open>
  The callback is taken from the top of the stack, where a failed call leaves its message: after a
  failure the message is called instead, and the callback gets no more datagrams. The parameter
  tells for which datagrams the callback returns; the state is whether it is still on top, and the
  datagrams that it was called with.
\<close>

definition udp_output :: "(bytes \<Rightarrow> bool) \<Rightarrow> bytes \<Rightarrow> bool \<times> bytes list \<Rightarrow> bool \<times> bytes list" where
  "udp_output returns buf st = (case st of (callable, calls) \<Rightarrow> if callable then (returns buf, calls @ [buf]) else (False, calls))"

definition likcp_update :: "(bytes \<Rightarrow> bool) \<Rightarrow> ikcpcb \<Rightarrow> lua_value \<Rightarrow> kcp_fault + ikcpcb \<times> bytes list" where
  "likcp_update returns k now =
     rbind (ikcp_update k (word_of_int (c_int now))) (\<lambda>(k, ds). Inr (k, snd (fold (udp_output returns) ds (True, []))))"

definition likcp_input :: "ikcpcb \<Rightarrow> bytes \<Rightarrow> ikcpcb" where
  "likcp_input k data = snd (ikcp_input k data)"

definition likcp_send :: "ikcpcb \<Rightarrow> bytes \<Rightarrow> kcp_fault + ikcpcb" where
  "likcp_send k data = rbind (ikcp_send k data (sint (word_of_nat (length data) :: u32))) (\<lambda>(r, k). Inr k)"

text \<open>A size of more than \<open>RECV_BUFFER\<close> bytes is allocated, which fails for a negative one.\<close>

definition likcp_recv :: "ikcpcb \<Rightarrow> lua_value \<Rightarrow> kcp_fault + bytes option \<times> ikcpcb" where
  "likcp_recv k v =
     rbind (luaL_checkinteger v) (\<lambda>size.
     rbind (ikcp_recv k (sint (ucast size :: u32))) (\<lambda>(sz, bs, k).
       if sz < 0 then Inr (None, k)
       else if sint size < 0 \<and> sz > 0 then Inl Null_buffer
       else Inr (Some bs, k)))"

end
