(* ===== verification/Kcp_Endpoint.thy ===== *)
theory Kcp_Endpoint
  imports Kcp
begin

text \<open>
  One side of a connection of \<open>ikcp.c\<close>. The invariant relates a control block to the two streams of
  segments that it sends and receives, with the sequence numbers as indices. Every operation keeps
  it: what arrives is stored in its place, what is dropped from the send buffer has arrived at the
  other side, what is acknowledged has arrived here, and no buffer is overrun.
\<close>

section \<open>Sequence numbers\<close>

text \<open>A stream of fewer than \<open>2 ^ 31\<close> segments has no two with the same number, and differences tell their order.\<close>

definition seq_bound :: nat where "seq_bound = 2 ^ 31"

lemma unat_word_of_nat_32: "i < 2 ^ 32 \<Longrightarrow> unat (word_of_nat i :: u32) = i"
  by (simp add: unat_of_nat)

lemma word_of_nat_inj_32: "i < 2 ^ 32 \<Longrightarrow> j < 2 ^ 32 \<Longrightarrow> (word_of_nat i :: u32) = word_of_nat j \<longleftrightarrow> i = j"
  by (metis unat_word_of_nat_32)

lemma seq_inj: "i < seq_bound \<Longrightarrow> j < seq_bound \<Longrightarrow> (word_of_nat i :: u32) = word_of_nat j \<longleftrightarrow> i = j"
  by (rule word_of_nat_inj_32) (simp_all add: seq_bound_def)

lemma itimediff_seq: "i < seq_bound \<Longrightarrow> j < seq_bound \<Longrightarrow> itimediff (word_of_nat i) (word_of_nat j) = int i - int j"
proof -
  assume b: "i < seq_bound" "j < seq_bound"
  have w: "(word_of_nat i - word_of_nat j :: u32) = word_of_int (int i - int j)" by simp
  have "signed_take_bit 31 (int i - int j) = int i - int j"
    using b by (intro signed_take_bit_int_eq_self) (simp_all add: seq_bound_def)
  moreover have "sint (word_of_int d :: u32) = signed_take_bit 31 d" for d by (simp add: signed_of_int)
  ultimately show ?thesis unfolding itimediff_def w by metis
qed

section \<open>Views of a control block\<close>

text \<open>
  The parts of the state that the protocol rests on: the configuration, the receiving side, the
  pending acknowledgements, and the sending side. The operations leave most of them alone.
\<close>

definition config :: "ikcpcb \<Rightarrow> u32 \<times> u32 \<times> u32 \<times> nat \<times> u32 \<times> int" where
  "config k = (k_conv k, k_mtu k, k_mss k, k_buffer k, k_rcv_wnd k, k_stream k)"

definition receiving :: "ikcpcb \<Rightarrow> u32 \<times> ikcpseg list \<times> ikcpseg list \<times> u32" where
  "receiving k = (k_rcv_nxt k, k_rcv_queue k, k_rcv_buf k, k_nrcv_que k)"

definition acks :: "ikcpcb \<Rightarrow> (u32 \<times> u32) list \<times> nat \<times> nat" where
  "acks k = (k_acklist k, k_ackcount k, k_ackblock k)"

definition sending :: "ikcpcb \<Rightarrow> u32 \<times> ikcpseg list \<times> ikcpseg list" where
  "sending k = (k_snd_nxt k, k_snd_queue k, k_snd_buf k)"

lemmas view_defs = config_def receiving_def acks_def sending_def

lemma view_fields:
  "config k = config k' \<Longrightarrow> k_conv k = k_conv k' \<and> k_mtu k = k_mtu k' \<and> k_mss k = k_mss k' \<and> k_buffer k = k_buffer k' \<and> k_rcv_wnd k = k_rcv_wnd k' \<and> k_stream k = k_stream k'"
  "receiving k = receiving k' \<Longrightarrow> k_rcv_nxt k = k_rcv_nxt k' \<and> k_rcv_queue k = k_rcv_queue k' \<and> k_rcv_buf k = k_rcv_buf k' \<and> k_nrcv_que k = k_nrcv_que k'"
  "acks k = acks k' \<Longrightarrow> k_acklist k = k_acklist k' \<and> k_ackcount k = k_ackcount k' \<and> k_ackblock k = k_ackblock k'"
  "sending k = sending k' \<Longrightarrow> k_snd_nxt k = k_snd_nxt k' \<and> k_snd_queue k = k_snd_queue k' \<and> k_snd_buf k = k_snd_buf k'"
  by (simp_all only: view_defs prod.inject)

named_theorems frame

lemma update_ack_frame [frame]:
  "config (ikcp_update_ack k r) = config k" "receiving (ikcp_update_ack k r) = receiving k"
  "acks (ikcp_update_ack k r) = acks k" "sending (ikcp_update_ack k r) = sending k"
  by (simp_all add: ikcp_update_ack_def Let_def view_defs)

lemma shrink_buf_frame [frame]:
  "config (ikcp_shrink_buf k) = config k" "receiving (ikcp_shrink_buf k) = receiving k"
  "acks (ikcp_shrink_buf k) = acks k" "sending (ikcp_shrink_buf k) = sending k"
  by (simp_all add: ikcp_shrink_buf_def view_defs split: list.split)

lemma grow_window_frame [frame]:
  "config (grow_window una k) = config k" "receiving (grow_window una k) = receiving k"
  "acks (grow_window una k) = acks k" "sending (grow_window una k) = sending k"
  by (simp_all add: grow_window_def Let_def view_defs)

lemma shrink_window_frame [frame]:
  "config (shrink_window r w c l k) = config k" "receiving (shrink_window r w c l k) = receiving k"
  "acks (shrink_window r w c l k) = acks k" "sending (shrink_window r w c l k) = sending k"
  by (simp_all add: shrink_window_def Let_def view_defs)

lemma probe_window_frame [frame]:
  "config (probe_window k) = config k" "receiving (probe_window k) = receiving k"
  "acks (probe_window k) = acks k" "sending (probe_window k) = sending k"
  by (simp_all add: probe_window_def Let_def view_defs)

lemma una_loop_frame [frame]:
  "config (una_loop una b k) = config k" "receiving (una_loop una b k) = receiving k" "acks (una_loop una b k) = acks k"
  "k_snd_nxt (una_loop una b k) = k_snd_nxt k" "k_snd_queue (una_loop una b k) = k_snd_queue k"
  "k_snd_buf (una_loop una b k) = dropWhile (\<lambda>s. itimediff una (s_sn s) > 0) b"
  by (induction una b k rule: una_loop.induct) (simp_all add: view_defs)

lemma parse_ack_frame [frame]:
  "config (ikcp_parse_ack k sn) = config k" "receiving (ikcp_parse_ack k sn) = receiving k" "acks (ikcp_parse_ack k sn) = acks k"
  "k_snd_nxt (ikcp_parse_ack k sn) = k_snd_nxt k" "k_snd_queue (ikcp_parse_ack k sn) = k_snd_queue k"
  by (simp_all add: ikcp_parse_ack_def view_defs split: prod.split bool.split)

lemma parse_fastack_frame [frame]:
  "config (ikcp_parse_fastack k sn) = config k" "receiving (ikcp_parse_fastack k sn) = receiving k" "acks (ikcp_parse_fastack k sn) = acks k"
  "k_snd_nxt (ikcp_parse_fastack k sn) = k_snd_nxt k" "k_snd_queue (ikcp_parse_fastack k sn) = k_snd_queue k"
  by (simp_all add: ikcp_parse_fastack_def view_defs)

lemma ack_push_frame [frame]:
  "config (ikcp_ack_push k sn ts) = config k" "receiving (ikcp_ack_push k sn ts) = receiving k" "sending (ikcp_ack_push k sn ts) = sending k"
  by (simp_all add: ikcp_ack_push_def Let_def view_defs)

lemma move_loop_frame [frame]:
  "config (move_loop b k) = config k" "acks (move_loop b k) = acks k" "sending (move_loop b k) = sending k"
  by (induction b k rule: move_loop.induct) (simp_all add: view_defs)

lemma move_available_frame [frame]:
  "config (move_available k) = config k" "acks (move_available k) = acks k" "sending (move_available k) = sending k"
  by (simp_all add: move_available_def frame)

lemma parse_data_frame [frame]:
  "config (ikcp_parse_data k s) = config k" "acks (ikcp_parse_data k s) = acks k" "sending (ikcp_parse_data k s) = sending k"
  by (simp_all add: ikcp_parse_data_def frame split: option.split) (simp_all add: view_defs)

lemma list_all2_mem:
  assumes "list_all2 R xs ys"
  shows "y \<in> set ys \<Longrightarrow> \<exists>x \<in> set xs. R x y" "x \<in> set xs \<Longrightarrow> \<exists>y \<in> set ys. R x y"
  using assms by (induction xs ys rule: list_all2_induct) auto

section \<open>The receiving side\<close>

text \<open>
  A stream is the list of the payloads of one direction: fragment number and bytes. A segment
  carries the element whose index is its sequence number.
\<close>

type_synonym payload = "u32 \<times> bytes"

definition sized :: "ikcpseg \<Rightarrow> bool" where
  "sized s \<longleftrightarrow> s_len s = word_of_nat (length (s_data s)) \<and> length (s_data s) < 2 ^ 31"

definition carries :: "payload list \<Rightarrow> nat \<Rightarrow> ikcpseg \<Rightarrow> bool" where
  "carries S i s \<longleftrightarrow> i < length S \<and> s_sn s = word_of_nat i \<and> S ! i = (s_frg s, s_data s) \<and> sized s"

text \<open>
  The first \<open>c\<close> segments are consumed, those before \<open>m\<close> are in the queue, and the buffer holds
  later ones in increasing order. The predicate has the buffer as an argument for the loop over it.
\<close>

definition receiver_with :: "payload list \<Rightarrow> nat \<Rightarrow> nat \<Rightarrow> ikcpseg list \<Rightarrow> ikcpcb \<Rightarrow> bool" where
  "receiver_with S c m b k \<longleftrightarrow>
     c \<le> m \<and> m \<le> length S \<and> k_rcv_nxt k = word_of_nat m \<and> list_all2 (carries S) [c..<m] (k_rcv_queue k)
     \<and> k_nrcv_que k = word_of_nat (m - c) \<and> m - c \<le> unat (k_rcv_wnd k)
     \<and> (\<exists>js. sorted_wrt (<) js \<and> (\<forall>j \<in> set js. m \<le> j) \<and> list_all2 (carries S) js b)"

definition receiver :: "payload list \<Rightarrow> nat \<Rightarrow> nat \<Rightarrow> ikcpcb \<Rightarrow> bool" where
  "receiver S c m k \<longleftrightarrow> receiver_with S c m (k_rcv_buf k) k"

definition arrived :: "payload list \<Rightarrow> nat \<Rightarrow> ikcpseg list \<Rightarrow> nat \<Rightarrow> bool" where
  "arrived S m b i \<longleftrightarrow> i < m \<or> (\<exists>s \<in> set b. carries S i s)"

lemma receiver_cong: "config k = config k' \<Longrightarrow> receiving k = receiving k' \<Longrightarrow> receiver S c m k = receiver S c m k'"
  by (drule view_fields, drule view_fields) (simp add: receiver_def receiver_with_def)

lemma carries_index:
  assumes "carries S i s" "s_sn s = word_of_nat j" "j \<le> length S" "length S < seq_bound"
  shows "i = j"
proof -
  have "(word_of_nat i :: u32) = word_of_nat j" using assms(1,2) unfolding carries_def by metis
  moreover have "i < seq_bound" "j < seq_bound" using assms by (auto simp: carries_def)
  ultimately show ?thesis using seq_inj by blast
qed

lemma carries_sn: "carries S i s \<Longrightarrow> s_sn s = word_of_nat i \<and> i < length S"
  by (simp add: carries_def)

lemma move_loop_ok:
  assumes "receiver_with S c m b k" "length S < seq_bound"
  shows "\<exists>m' \<ge> m. receiver S c m' (move_loop b k) \<and> (\<forall>i. arrived S m b i \<longrightarrow> arrived S m' (k_rcv_buf (move_loop b k)) i)"
  using assms(1)
proof (induction b k arbitrary: m rule: move_loop.induct)
  case (1 k)
  then show ?case by (intro exI [of _ m]) (simp add: receiver_def receiver_with_def)
next
  case (2 s b k)
  show ?case
  proof (cases "s_sn s = k_rcv_nxt k \<and> k_nrcv_que k < k_rcv_wnd k")
    case False
    then have "move_loop (s # b) k = k\<lparr>k_rcv_buf := s # b\<rparr>" by auto
    moreover have "receiver S c m (k\<lparr>k_rcv_buf := s # b\<rparr>)" using 2(2) by (simp add: receiver_def receiver_with_def)
    ultimately show ?thesis by (intro exI [of _ m]) simp
  next
    case True
    obtain js where js: "sorted_wrt (<) js" "\<forall>j \<in> set js. m \<le> j" "list_all2 (carries S) js (s # b)"
      using 2(2) by (auto simp: receiver_with_def)
    then obtain j es where j: "js = j # es" "carries S j s" "list_all2 (carries S) es b" by (cases js) auto
    have r: "c \<le> m" "m \<le> length S" "k_rcv_nxt k = word_of_nat m" "list_all2 (carries S) [c..<m] (k_rcv_queue k)"
        "k_nrcv_que k = word_of_nat (m - c)"
      using 2(2) by (auto simp: receiver_with_def)
    have "s_sn s = word_of_nat m" using True r(3) by metis
    then have jm: "j = m" using carries_index j(2) r(2) assms(2) by blast
    have small: "m - c < 2 ^ 32" using r(2) assms(2) by (simp add: seq_bound_def)
    have "unat (k_nrcv_que k) < unat (k_rcv_wnd k)" using True by (simp add: word_less_nat_alt)
    then have room: "m - c < unat (k_rcv_wnd k)" using unat_word_of_nat_32 [OF small] r(5) by simp
    let ?k = "k\<lparr>k_nrcv_buf := k_nrcv_buf k - 1, k_rcv_queue := k_rcv_queue k @ [s], k_nrcv_que := k_nrcv_que k + 1,
                k_rcv_nxt := k_rcv_nxt k + 1\<rparr>"
    have ml: "m < length S" using j(2) jm by (simp add: carries_def)
    have "receiver_with S c (Suc m) b ?k"
      unfolding receiver_with_def
    proof (intro conjI)
      show "\<exists>js. sorted_wrt (<) js \<and> (\<forall>j \<in> set js. Suc m \<le> j) \<and> list_all2 (carries S) js b"
        using js(1) j jm by (intro exI [of _ es]) (auto simp: Suc_le_eq)
      show "list_all2 (carries S) [c..<Suc m] (k_rcv_queue ?k)"
        using r(1,4) j(2) jm by (simp add: list_all2_appendI)
      show "k_nrcv_que ?k = word_of_nat (Suc m - c)" using r(1,5) by (simp add: Suc_diff_le)
    qed (use r ml room in simp_all)
    from 2(1) [OF True this] obtain m' where m': "Suc m \<le> m'" "receiver S c m' (move_loop b ?k)"
        "\<forall>i. arrived S (Suc m) b i \<longrightarrow> arrived S m' (k_rcv_buf (move_loop b ?k)) i" by blast
    have one: "i = m" if "carries S i s" for i
      using carries_index [OF that _ _ assms(2), of m] carries_sn [OF j(2)] jm by simp
    have "arrived S (Suc m) b i" if "arrived S m (s # b) i" for i
      using that one by (auto simp: arrived_def)
    then show ?thesis using m' True by (intro exI [of _ m']) auto
  qed
qed

lemma move_available_ok:
  assumes "receiver S c m k" "length S < seq_bound"
  shows "\<exists>m' \<ge> m. receiver S c m' (move_available k)
     \<and> (\<forall>i. arrived S m (k_rcv_buf k) i \<longrightarrow> arrived S m' (k_rcv_buf (move_available k)) i)"
  using move_loop_ok [of S c m "k_rcv_buf k" k] assms by (simp add: receiver_def move_available_def)

text \<open>The insertion from the back keeps the order.\<close>

lemma insert_segment_ok:
  assumes "list_all2 (carries S) ds r" "sorted_wrt (>) ds" "carries S i n" "length S < seq_bound"
  shows "case insert_segment n r of
      None \<Rightarrow> i \<in> set ds
    | Some r' \<Rightarrow> \<exists>ds'. list_all2 (carries S) ds' r' \<and> sorted_wrt (>) ds' \<and> set ds' = insert i (set ds)"
  using assms(1,2)
proof (induction r arbitrary: ds rule: list.induct)
  case Nil
  have "ds = []" using list_all2_lengthD [OF Nil.prems(1)] by simp
  then show ?case using assms(3) by (auto intro!: exI [of _ "[i]"])
next
  case (Cons s r)
  then obtain d es where d: "ds = d # es" "carries S d s" "list_all2 (carries S) es r" "sorted_wrt (>) es" "\<forall>e \<in> set es. e < d"
    by (cases ds) auto
  have b: "i < seq_bound" "d < seq_bound" using assms(3,4) d(2) by (auto simp: carries_def)
  note sn = carries_sn [OF d(2)] carries_sn [OF assms(3)]
  have eq: "s_sn s = s_sn n \<longleftrightarrow> d = i" unfolding sn [THEN conjunct1] by (rule seq_inj [OF b(2,1)])
  have lt: "itimediff (s_sn n) (s_sn s) > 0 \<longleftrightarrow> d < i" unfolding sn [THEN conjunct1] itimediff_seq [OF b] by linarith
  consider "d = i" | "d < i" | "i < d" by linarith
  then show ?case
  proof cases
    case 1
    then show ?thesis using eq d(1) by simp
  next
    case 2
    then have "\<forall>e \<in> set es. e < i" using d(5) by auto
    then show ?thesis using 2 eq lt d assms(3) by (auto intro!: exI [of _ "i # d # es"])
  next
    case 3
    then have step: "insert_segment n (s # r) = map_option (Cons s) (insert_segment n r)" using eq lt by auto
    show ?thesis
    proof (cases "insert_segment n r")
      case None
      then show ?thesis using Cons.IH [OF d(3,4)] step d(1) by simp
    next
      case (Some r')
      then obtain es' where es': "list_all2 (carries S) es' r'" "sorted_wrt (>) es'" "set es' = insert i (set es)"
        using Cons.IH [OF d(3,4)] by auto
      then have "list_all2 (carries S) (d # es') (s # r') \<and> sorted_wrt (>) (d # es') \<and> set (d # es') = insert i (set ds)"
        using d 3 by auto
      then show ?thesis using step Some by (auto intro!: exI [of _ "d # es'"])
    qed
  qed
qed

lemma parse_data_ok:
  assumes r: "receiver S c m k" and n: "carries S i n" and b: "length S < seq_bound"
    and w: "itimediff (s_sn n) (k_rcv_nxt k + k_rcv_wnd k) < 0"
  shows "\<exists>m' \<ge> m. receiver S c m' (ikcp_parse_data k n)
     \<and> (\<forall>j. arrived S m (k_rcv_buf k) j \<or> j = i \<longrightarrow> arrived S m' (k_rcv_buf (ikcp_parse_data k n)) j)"
proof (cases "itimediff (s_sn n) (k_rcv_nxt k) < 0")
  note rw = r [unfolded receiver_def receiver_with_def]
  have im: "i < seq_bound" "m < seq_bound" using n b rw by (auto simp: carries_def)
  have rel: "itimediff (s_sn n) (k_rcv_nxt k) = int i - int m"
    using itimediff_seq [OF im] carries_sn [OF n] rw by metis
  case True
  then have "arrived S m (k_rcv_buf k) i" using rel by (simp add: arrived_def)
  then show ?thesis using r True by (intro exI [of _ m]) (auto simp: ikcp_parse_data_def)
next
  case False
  note rw = r [unfolded receiver_def receiver_with_def]
  have im: "i < seq_bound" "m < seq_bound" using n b rw by (auto simp: carries_def)
  have "m \<le> i" using itimediff_seq [OF im] carries_sn [OF n] rw False by (metis diff_ge_0_iff_ge not_less of_nat_le_iff)
  obtain js where js: "sorted_wrt (<) js" "\<forall>j \<in> set js. m \<le> j" "list_all2 (carries S) js (k_rcv_buf k)" using rw by blast
  have "list_all2 (carries S) (rev js) (rev (k_rcv_buf k))" "sorted_wrt (>) (rev js)" using js by (simp_all add: sorted_wrt_rev)
  from insert_segment_ok [OF this n b] have ins: "case insert_segment n (rev (k_rcv_buf k)) of None \<Rightarrow> i \<in> set js
      | Some r' \<Rightarrow> \<exists>ds'. list_all2 (carries S) ds' r' \<and> sorted_wrt (>) ds' \<and> set ds' = insert i (set js)" by (simp only: set_rev)
  let ?k = "case insert_segment n (rev (k_rcv_buf k)) of
      Some r \<Rightarrow> k\<lparr>k_rcv_buf := rev r, k_nrcv_buf := k_nrcv_buf k + 1\<rparr> | None \<Rightarrow> k"
  have "receiver S c m ?k \<and> (\<forall>j. arrived S m (k_rcv_buf k) j \<or> j = i \<longrightarrow> arrived S m (k_rcv_buf ?k) j)"
  proof (cases "insert_segment n (rev (k_rcv_buf k))")
    case None
    then have "i \<in> set js" using ins by simp
    then have "\<exists>s \<in> set (k_rcv_buf k). carries S i s" using list_all2_mem(2) [OF js(3)] by blast
    then show ?thesis using r None by (auto simp: arrived_def)
  next
    case (Some r')
    then obtain ds where ds: "list_all2 (carries S) ds r'" "sorted_wrt (>) ds" "set ds = insert i (set js)" using ins by auto
    have "sorted_wrt (<) (rev ds)" "\<forall>j \<in> set (rev ds). m \<le> j" "list_all2 (carries S) (rev ds) (rev r')"
      using ds js(2) \<open>m \<le> i\<close> by (auto simp: sorted_wrt_rev)
    then have rec: "receiver S c m ?k" using rw Some by (auto simp: receiver_def receiver_with_def)
    have "j < m \<or> (\<exists>s \<in> set r'. carries S j s)" if "j \<in> set ds" for j
      using list_all2_mem(2) [OF ds(1) that] by blast
    moreover have "j \<in> set js" if s: "s \<in> set (k_rcv_buf k)" "carries S j s" for j s
    proof -
      obtain t where t: "t \<in> set js" "carries S t s" using list_all2_mem(1) [OF js(3) s(1)] by blast
      have "j = t" using carries_index [OF s(2) _ _ b, of t] carries_sn [OF t(2)] by simp
      then show ?thesis using t(1) by simp
    qed
    ultimately show ?thesis using rec Some ds(3) by (auto simp: arrived_def)
  qed
  moreover have "ikcp_parse_data k n = move_available ?k" using w False by (simp add: ikcp_parse_data_def)
  ultimately show ?thesis using move_available_ok [of S c m ?k, OF _ b] by fastforce
qed

text \<open>The list of pending acknowledgements.\<close>

definition acks_ok :: "ikcpcb \<Rightarrow> bool" where
  "acks_ok k \<longleftrightarrow> k_ackcount k \<le> k_ackblock k \<and> length (k_acklist k) = k_ackblock k"

definition pending :: "ikcpcb \<Rightarrow> (u32 \<times> u32) list" where
  "pending k = take (k_ackcount k) (k_acklist k)"

lemma acks_cong: "acks k = acks k' \<Longrightarrow> acks_ok k = acks_ok k' \<and> pending k = pending k'"
  by (drule view_fields) (simp add: acks_ok_def pending_def)

lemma ack_block_ge: "0 < b \<Longrightarrow> n \<le> ack_block n b"
  by (induction n b rule: ack_block.induct) (subst ack_block.simps, auto)

lemma ack_push_ok:
  assumes "acks_ok k"
  shows "acks_ok (ikcp_ack_push k sn ts) \<and> pending (ikcp_ack_push k sn ts) = pending k @ [(sn, ts)]"
proof (cases "k_ackblock k < Suc (k_ackcount k)")
  case True
  then have e: "k_ackblock k = k_ackcount k" "length (k_acklist k) = k_ackcount k" using assms by (simp_all add: acks_ok_def)
  obtain m where m: "ack_block (Suc (k_ackcount k)) 8 = Suc (k_ackcount k) + m"
    using le_Suc_ex [OF ack_block_ge [of 8 "Suc (k_ackcount k)"]] by auto
  show ?thesis using True e m
    by (simp add: acks_ok_def pending_def ikcp_ack_push_def Let_def list_update_append)
next
  case False
  then have "k_ackcount k < length (k_acklist k)" using assms by (simp add: acks_ok_def)
  then show ?thesis using False assms
    by (simp add: acks_ok_def pending_def ikcp_ack_push_def Let_def take_Suc_conv_app_nth)
qed

section \<open>The sending side\<close>

text \<open>
  The first \<open>n\<close> elements of the stream got their number; the others wait in the queue. A segment
  leaves the send buffer only when it has arrived, which the predicate \<open>X\<close> tells.
\<close>

definition sent_ok :: "u32 \<Rightarrow> payload list \<Rightarrow> nat \<Rightarrow> ikcpseg \<Rightarrow> bool" where
  "sent_ok conv S n s \<longleftrightarrow> s_conv s = conv \<and> s_cmd s = IKCP_CMD_PUSH \<and> (\<exists>i < n. carries S i s)"

definition buffered :: "u32 \<Rightarrow> payload list \<Rightarrow> nat \<Rightarrow> (nat \<Rightarrow> bool) \<Rightarrow> ikcpseg list \<Rightarrow> bool" where
  "buffered conv S n X b \<longleftrightarrow> (\<forall>s \<in> set b. sent_ok conv S n s) \<and> (\<forall>i < n. X i \<or> (\<exists>s \<in> set b. carries S i s))"

definition sender :: "payload list \<Rightarrow> nat \<Rightarrow> (nat \<Rightarrow> bool) \<Rightarrow> ikcpcb \<Rightarrow> bool" where
  "sender S n X k \<longleftrightarrow>
     n \<le> length S \<and> k_snd_nxt k = word_of_nat n \<and> map (\<lambda>s. (s_frg s, s_data s)) (k_snd_queue k) = drop n S
     \<and> (\<forall>s \<in> set (k_snd_queue k). sized s) \<and> buffered (k_conv k) S n X (k_snd_buf k)"

lemma sender_cong: "config k = config k' \<Longrightarrow> sending k = sending k' \<Longrightarrow> sender S n X k = sender S n X k'"
  by (drule view_fields, drule view_fields) (simp add: sender_def)

lemma sender_buffered: "sender S n X k \<Longrightarrow> buffered (k_conv k) S n X (k_snd_buf k)"
  by (simp add: sender_def)

lemma carries_update [simp]:
  "carries S i (s\<lparr>s_fastack := a\<rparr>) = carries S i s" "carries S i (s\<lparr>s_xmit := a\<rparr>) = carries S i s"
  "carries S i (s\<lparr>s_rto := a\<rparr>) = carries S i s" "carries S i (s\<lparr>s_resendts := a\<rparr>) = carries S i s"
  "carries S i (s\<lparr>s_ts := a\<rparr>) = carries S i s" "carries S i (s\<lparr>s_wnd := a\<rparr>) = carries S i s" "carries S i (s\<lparr>s_una := a\<rparr>) = carries S i s"
  "carries S i (s\<lparr>s_conv := a\<rparr>) = carries S i s" "carries S i (s\<lparr>s_cmd := a\<rparr>) = carries S i s"
  by (simp_all add: carries_def sized_def)

lemma buffered_remove:
  assumes "buffered conv S n X b" "set b' \<subseteq> set b" "\<And>s i. s \<in> set b \<Longrightarrow> s \<notin> set b' \<Longrightarrow> carries S i s \<Longrightarrow> X i"
  shows "buffered conv S n X b'"
  using assms unfolding buffered_def by blast

lemma buffered_mono: "buffered conv S n X b \<Longrightarrow> (\<And>i. X i \<Longrightarrow> Y i) \<Longrightarrow> buffered conv S n Y b"
  unfolding buffered_def by blast

lemma sender_mono: "sender S n X k \<Longrightarrow> (\<And>i. X i \<Longrightarrow> Y i) \<Longrightarrow> sender S n Y k"
  using buffered_mono unfolding sender_def by blast

lemma remove_acked_set:
  "remove_acked sn b = (r, b') \<Longrightarrow> set b' \<subseteq> set b \<and> (\<forall>s \<in> set b. s \<notin> set b' \<longrightarrow> s_sn s = sn)"
  by (induction sn b arbitrary: r b' rule: remove_acked.induct) (auto split: if_splits prod.splits)

lemma parse_ack_ok:
  assumes "sender S n X k" "i < length S" "X i" "length S < seq_bound"
  shows "sender S n X (ikcp_parse_ack k (word_of_nat i))"
proof -
  obtain r b where b: "remove_acked (word_of_nat i) (k_snd_buf k) = (r, b)" by fastforce
  have "k_snd_buf (ikcp_parse_ack k (word_of_nat i)) \<in> {k_snd_buf k, b}"
    using b by (simp add: ikcp_parse_ack_def split: bool.split)
  moreover have gone: "X j" if "s \<in> set (k_snd_buf k)" "s \<notin> set b" "carries S j s" for s j
    using remove_acked_set [OF b] carries_index [OF that(3), of i] that assms(2-4) by auto
  have "buffered (k_conv k) S n X b"
    by (rule buffered_remove [OF sender_buffered [OF assms(1)] remove_acked_set [OF b, THEN conjunct1] gone])
  ultimately have "buffered (k_conv k) S n X (k_snd_buf (ikcp_parse_ack k (word_of_nat i)))" using assms(1) by (auto simp: sender_def)
  moreover have "k_conv (ikcp_parse_ack k (word_of_nat i)) = k_conv k" using view_fields(1) [OF parse_ack_frame(1)] by blast
  ultimately show ?thesis using assms(1) by (simp add: sender_def frame)
qed

lemma parse_una_ok:
  assumes "sender S n X k" "u \<le> length S" "\<And>j. j < u \<Longrightarrow> X j" "length S < seq_bound"
  shows "sender S n X (ikcp_parse_una k (word_of_nat u))"
proof -
  let ?P = "\<lambda>s. itimediff (word_of_nat u) (s_sn s) > 0"
  have gone: "X j" if "s \<in> set (k_snd_buf k)" "s \<notin> set (dropWhile ?P (k_snd_buf k))" "carries S j s" for s j
  proof -
    have "s \<in> set (takeWhile ?P (k_snd_buf k))" using that(1,2) by (metis Un_iff set_append takeWhile_dropWhile_id)
    then have "?P s" by (rule set_takeWhileD [THEN conjunct2])
    then have "itimediff (word_of_nat u) (word_of_nat j) > 0" using carries_sn [OF that(3)] by simp
    moreover have "itimediff (word_of_nat u) (word_of_nat j) = int u - int j"
      using carries_sn [OF that(3)] assms(2,4) by (intro itimediff_seq) auto
    ultimately show ?thesis using assms(3) by simp
  qed
  have "set (dropWhile ?P (k_snd_buf k)) \<subseteq> set (k_snd_buf k)" by (meson set_dropWhileD subsetI)
  then have "buffered (k_conv k) S n X (dropWhile ?P (k_snd_buf k))"
    by (rule buffered_remove [OF sender_buffered [OF assms(1)] _ gone])
  moreover have "k_conv (ikcp_parse_una k (word_of_nat u)) = k_conv k"
    using view_fields(1) [OF una_loop_frame(1)] by (simp add: ikcp_parse_una_def)
  ultimately show ?thesis using assms(1) by (simp add: sender_def ikcp_parse_una_def frame)
qed

lemma fastack_loop_same: "list_all2 (\<lambda>s t. \<exists>a. t = s\<lparr>s_fastack := a\<rparr>) b (fastack_loop sn b)"
proof (induction sn b rule: fastack_loop.induct)
  case (2 sn s b)
  have same: "\<exists>a. s = s\<lparr>s_fastack := a\<rparr>" for s :: ikcpseg by (intro exI [of _ "s_fastack s"]) simp
  then have "list_all2 (\<lambda>s t. \<exists>a. t = s\<lparr>s_fastack := a\<rparr>) b b" by (simp add: list_all2_same)
  then show ?case using 2 same by auto
qed simp

text \<open>A change of the timers and counters of the buffered segments changes nothing else.\<close>

lemma buffered_same:
  assumes "buffered conv S n X b" "list_all2 R b b'"
    "\<And>s t. R s t \<Longrightarrow> s_conv t = s_conv s \<and> s_cmd t = s_cmd s \<and> (\<forall>i. carries S i t = carries S i s)"
  shows "buffered conv S n X b'"
proof -
  have a: "\<exists>s \<in> set b. R s t" if "t \<in> set b'" for t using list_all2_mem(1) [OF assms(2) that] .
  have c: "\<exists>t \<in> set b'. R s t" if "s \<in> set b" for s using list_all2_mem(2) [OF assms(2) that] .
  have "sent_ok conv S n t" if "t \<in> set b'" for t
    using a [OF that] assms(1,3) unfolding buffered_def sent_ok_def by metis
  moreover have "X i \<or> (\<exists>t \<in> set b'. carries S i t)" if "i < n" for i
    using assms(1,3) c that unfolding buffered_def by metis
  ultimately show ?thesis unfolding buffered_def by blast
qed

lemma parse_fastack_ok:
  assumes "sender S n X k"
  shows "sender S n X (ikcp_parse_fastack k sn)"
proof -
  have "buffered (k_conv k) S n X (fastack_loop sn (k_snd_buf k))"
    using assms by (intro buffered_same [OF _ fastack_loop_same]) (auto simp: sender_def)
  then have "buffered (k_conv k) S n X (k_snd_buf (ikcp_parse_fastack k sn))"
    using assms by (simp add: ikcp_parse_fastack_def sender_def)
  moreover have "k_conv (ikcp_parse_fastack k sn) = k_conv k" using view_fields(1) [OF parse_fastack_frame(1)] by blast
  ultimately show ?thesis using assms by (simp add: sender_def frame)
qed

section \<open>Datagrams\<close>

definition wire :: "ikcpseg \<Rightarrow> bytes" where
  "wire s = ikcp_encode_seg s @ s_data s"

definition datagram :: "(ikcpseg \<Rightarrow> bool) \<Rightarrow> bytes \<Rightarrow> bool" where
  "datagram P d \<longleftrightarrow> (\<exists>segs. d = concat (map wire segs) \<and> (\<forall>s \<in> set segs. P s))"

lemma decode_encode:
  "ikcp_decode32u (ikcp_encode32u w @ r) = (w, r)" "ikcp_decode16u (ikcp_encode16u v @ r) = (v, r)" "ikcp_decode8u (ikcp_encode8u b @ r) = (b, r)"
  by (simp_all add: ikcp_decode32u_def ikcp_encode32u_def ikcp_decode16u_def ikcp_encode16u_def ikcp_decode8u_def ikcp_encode8u_def
      le_val_word32 le_val_word16 del: le_bytes.simps)

lemma decode_header_wire:
  "decode_header (wire s @ rest) =
     (s_conv s, ucast (s_cmd s), ucast (s_frg s), ucast (s_wnd s), s_ts s, s_sn s, s_una s, s_len s, s_data s @ rest)"
  by (simp add: decode_header_def wire_def ikcp_encode_seg_def decode_encode)

lemma length_encode_seg [simp]: "length (ikcp_encode_seg s) = 24"
  by (simp add: ikcp_encode_seg_def ikcp_encode32u_def ikcp_encode16u_def ikcp_encode8u_def)

definition command :: "u32 \<Rightarrow> bool" where
  "command c \<longleftrightarrow> c \<in> {IKCP_CMD_PUSH, IKCP_CMD_ACK, IKCP_CMD_WASK, IKCP_CMD_WINS}"

lemma command_byte: "command c \<Longrightarrow> ucast (ucast c :: byte) = c \<and> is_command (ucast c)"
  by (auto simp: command_def is_command_def kcp_constants)

definition absorb :: "ikcpseg \<Rightarrow> ikcpcb \<times> bool \<times> u32 \<Rightarrow> ikcpcb \<times> bool \<times> u32" where
  "absorb s acc =
     input_segment (s_conv s) (ucast (s_cmd s)) (ucast (s_frg s)) (ucast (s_wnd s)) (s_ts s) (s_sn s) (s_una s) (s_len s) (s_data s) acc"

lemma sized_unat: "sized s \<Longrightarrow> unat (s_len s) = length (s_data s)"
  using unat_word_of_nat_32 [of "length (s_data s)"] by (simp add: sized_def)

lemma input_loop_wire:
  assumes "s_conv s = k_conv (fst acc)" "command (s_cmd s)" "sized s"
  shows "input_loop (wire s @ rest) acc = input_loop rest (absorb s acc)"
proof -
  have l: "\<not> length (wire s @ rest) < 24" by (simp add: wire_def)
  have cut: "take (unat (s_len s)) (s_data s @ rest) = take (unat (s_len s)) (s_data s)" using sized_unat [OF assms(3)] by simp
  have "input_segment (s_conv s) (ucast (s_cmd s)) (ucast (s_frg s)) (ucast (s_wnd s)) (s_ts s) (s_sn s) (s_una s) (s_len s)
      (s_data s @ rest) acc = absorb s acc"
    unfolding absorb_def input_segment_def cut ..
  then show ?thesis
    unfolding input_loop.simps [of "wire s @ rest" acc] if_not_P [OF l] decode_header_wire
    using assms(1) command_byte [OF assms(2)] sized_unat [OF assms(3)] by simp
qed

section \<open>An endpoint\<close>

text \<open>
  An endpoint that sends the stream \<open>S\<close>, of which \<open>X\<close> has arrived at the other side, and receives
  the stream \<open>R\<close>. It acknowledges only what has arrived.
\<close>

definition endpoint :: "payload list \<Rightarrow> nat \<Rightarrow> (nat \<Rightarrow> bool) \<Rightarrow> payload list \<Rightarrow> nat \<Rightarrow> nat \<Rightarrow> ikcpcb \<Rightarrow> bool" where
  "endpoint S n X R c m k \<longleftrightarrow>
     sender S n X k \<and> receiver R c m k \<and> acks_ok k
     \<and> (\<forall>a \<in> set (pending k). \<exists>i < length R. fst a = word_of_nat i \<and> arrived R m (k_rcv_buf k) i)"

text \<open>What an endpoint may find in a datagram.\<close>

definition incoming :: "u32 \<Rightarrow> payload list \<Rightarrow> (nat \<Rightarrow> bool) \<Rightarrow> payload list \<Rightarrow> ikcpseg \<Rightarrow> bool" where
  "incoming conv S X R s \<longleftrightarrow>
     s_conv s = conv \<and> sized s \<and> (\<exists>u \<le> length S. s_una s = word_of_nat u \<and> (\<forall>j < u. X j))
     \<and> (s_cmd s = IKCP_CMD_PUSH \<and> (\<exists>i. carries R i s) \<or> s_cmd s = IKCP_CMD_ACK \<and> (\<exists>i < length S. s_sn s = word_of_nat i \<and> X i)
        \<or> s_cmd s = IKCP_CMD_WASK \<or> s_cmd s = IKCP_CMD_WINS)"

definition small_frags :: "payload list \<Rightarrow> bool" where
  "small_frags R \<longleftrightarrow> (\<forall>p \<in> set R. unat (fst p) < 256)"

lemma incoming_command: "incoming conv S X R s \<Longrightarrow> command (s_cmd s)"
  by (auto simp: incoming_def command_def)

lemma endpoint_frame:
  assumes "endpoint S0 n0 X0 R c m k" "sender S n X k'" "config k' = config k" "receiving k' = receiving k" "acks k' = acks k"
  shows "endpoint S n X R c m k'"
  using assms(1,2) receiver_cong [OF assms(3,4)] acks_cong [OF assms(5)] view_fields(2) [OF assms(4)] by (simp add: endpoint_def)

lemma endpointD: "endpoint S n X R c m k \<Longrightarrow> sender S n X k" "endpoint S n X R c m k \<Longrightarrow> receiver R c m k"
  by (simp_all add: endpoint_def)

lemma byte_frag: "unat (f :: u32) < 256 \<Longrightarrow> ucast (ucast f :: byte) = f"
proof -
  assume "unat f < 256"
  then have "unat (ucast (ucast f :: byte) :: u32) = unat f" by (simp add: unsigned_ucast_eq unsigned_take_bit_eq take_bit_nat_eq_self)
  then show ?thesis by (simp only: word_unat_eq_iff)
qed

text \<open>The part of the input that every segment has: the window, and everything before \<open>una\<close> has arrived.\<close>

definition note_una :: "u32 \<Rightarrow> 16 word \<Rightarrow> ikcpcb \<Rightarrow> ikcpcb" where
  "note_una una wnd k = ikcp_shrink_buf (ikcp_parse_una (k\<lparr>k_rmt_wnd := ucast wnd\<rparr>) una)"

lemma note_una_frame:
  "config (note_una una wnd k) = config k" "receiving (note_una una wnd k) = receiving k" "acks (note_una una wnd k) = acks k"
  unfolding note_una_def ikcp_parse_una_def frame by (simp_all add: view_defs)

lemma note_una_ok:
  assumes "endpoint S n X R c m k" "u \<le> length S" "\<And>j. j < u \<Longrightarrow> X j" "length S < seq_bound"
  shows "endpoint S n X R c m (note_una (word_of_nat u) wnd k)"
proof -
  let ?k = "k\<lparr>k_rmt_wnd := ucast wnd\<rparr>"
  have "sender S n X ?k" using endpointD(1) [OF assms(1)] by (simp add: sender_def)
  then have "sender S n X (ikcp_parse_una ?k (word_of_nat u))" by (rule parse_una_ok [OF _ assms(2-4)])
  then have "sender S n X (note_una (word_of_nat u) wnd k)"
    unfolding note_una_def using sender_cong [OF shrink_buf_frame(1,4)] by blast
  from endpoint_frame [OF assms(1) this note_una_frame] show ?thesis .
qed

lemma note_ack_ok:
  assumes "endpoint S n X R c m k" "i < length S" "X i" "length S < seq_bound"
  shows "endpoint S n X R c m (ikcp_shrink_buf (ikcp_parse_ack (if b then ikcp_update_ack k r else k) (word_of_nat i)))"
proof -
  let ?k = "if b then ikcp_update_ack k r else k"
  have f: "config ?k = config k" "receiving ?k = receiving k" "acks ?k = acks k" "sending ?k = sending k" by (simp_all add: frame)
  have "sender S n X ?k" using endpointD(1) [OF assms(1)] sender_cong [OF f(1,4)] by blast
  then have "sender S n X (ikcp_parse_ack ?k (word_of_nat i))" using parse_ack_ok [of S n X ?k i] assms(2-4) by blast
  then have s: "sender S n X (ikcp_shrink_buf (ikcp_parse_ack ?k (word_of_nat i)))" using sender_cong [OF shrink_buf_frame(1,4)] by blast
  show ?thesis by (rule endpoint_frame [OF assms(1) s]) (simp_all only: frame f)
qed

definition taken :: "ikcpseg \<Rightarrow> ikcpseg" where
  "taken s = (ikcp_segment_new (take (unat (s_len s)) (s_data s)))
     \<lparr>s_conv := s_conv s, s_cmd := ucast (ucast (s_cmd s) :: byte), s_frg := ucast (ucast (s_frg s) :: byte),
      s_wnd := ucast (ucast (s_wnd s) :: 16 word), s_ts := s_ts s, s_sn := s_sn s, s_una := s_una s, s_len := s_len s\<rparr>"

lemma taken_carries:
  assumes "carries R i s" "small_frags R"
  shows "carries R i (taken s)"
proof -
  have "s_frg s = fst (R ! i)" "R ! i \<in> set R" "sized s" using assms(1) nth_mem by (force simp: carries_def)+
  then have "ucast (ucast (s_frg s) :: byte) = s_frg s" "unat (s_len s) = length (s_data s)"
    using assms(2) byte_frag sized_unat by (auto simp: small_frags_def)
  then show ?thesis using assms(1) by (simp add: carries_def taken_def sized_def ikcp_segment_new_def)
qed

text \<open>The segment with data is acknowledged and stored, in this order.\<close>

definition store :: "ikcpseg \<Rightarrow> ikcpcb \<Rightarrow> ikcpcb" where
  "store s k =
     (if itimediff (s_sn s) (k_rcv_nxt k + k_rcv_wnd k) < 0
      then (let k = ikcp_ack_push k (s_sn s) (s_ts s)
            in if itimediff (s_sn s) (k_rcv_nxt k) \<ge> 0 then ikcp_parse_data k (taken s) else k)
      else k)"

lemma store_frame: "config (store s k) = config k" "sending (store s k) = sending k"
  by (simp_all add: store_def Let_def frame)

lemma store_ok:
  assumes e: "endpoint S n X R c m k" and s: "carries R i s" "small_frags R" and b: "length R < seq_bound"
  shows "\<exists>m' \<ge> m. endpoint S n X R c m' (store s k) \<and> (\<forall>j. arrived R m (k_rcv_buf k) j \<longrightarrow> arrived R m' (k_rcv_buf (store s k)) j)"
proof (cases "itimediff (s_sn s) (k_rcv_nxt k + k_rcv_wnd k) < 0")
  case False
  then have "store s k = k" by (simp add: store_def)
  then show ?thesis using e by auto
next
  case True
  let ?k = "ikcp_ack_push k (s_sn s) (s_ts s)"
  note f = view_fields(1) [OF ack_push_frame(1) [of k "s_sn s" "s_ts s"]] view_fields(2) [OF ack_push_frame(2) [of k "s_sn s" "s_ts s"]]
  have r: "receiver R c m ?k" using endpointD(2) [OF e] receiver_cong [OF ack_push_frame(1,2)] by blast
  have sn: "s_sn (taken s) = s_sn s" by (simp add: taken_def)
  have w: "itimediff (s_sn (taken s)) (k_rcv_nxt ?k + k_rcv_wnd ?k) < 0" using True f sn by simp
  from parse_data_ok [OF r taken_carries [OF s] b w] obtain m' where m': "m \<le> m'" "receiver R c m' (ikcp_parse_data ?k (taken s))"
      "\<forall>j. arrived R m (k_rcv_buf ?k) j \<or> j = i \<longrightarrow> arrived R m' (k_rcv_buf (ikcp_parse_data ?k (taken s))) j" by blast
  have st: "store s k = ikcp_parse_data ?k (taken s)"
    using True f sn by (simp add: store_def Let_def ikcp_parse_data_def)
  have a: "acks_ok (store s k)" "pending (store s k) = pending k @ [(s_sn s, s_ts s)]"
    using ack_push_ok [of k "s_sn s" "s_ts s"] e acks_cong [OF parse_data_frame(2) [of ?k "taken s"]] st by (auto simp: endpoint_def)
  have x: "sender S n X (store s k)" using endpointD(1) [OF e] sender_cong [OF store_frame] by blast
  have y: "\<exists>j < length R. fst p = word_of_nat j \<and> arrived R m' (k_rcv_buf (store s k)) j" if p: "p \<in> set (pending (store s k))" for p
  proof (cases "p \<in> set (pending k)")
    case True
    then obtain j where "j < length R" "fst p = word_of_nat j" "arrived R m (k_rcv_buf k) j" using e unfolding endpoint_def by blast
    then show ?thesis using m'(3) f st by auto
  next
    case False
    then have "p = (s_sn s, s_ts s)" using p a(2) by auto
    then show ?thesis using carries_sn [OF s(1)] m'(3) st by auto
  qed
  have "endpoint S n X R c m' (store s k)" unfolding endpoint_def using x a(1) y m'(2) st by auto
  then show ?thesis using m'(1,3) f st by auto
qed

lemma absorb_unfold:
  assumes "command (s_cmd s)"
  shows "absorb s (k, flag, maxack) =
     (let k = note_una (s_una s) (ucast (s_wnd s)) k
      in if s_cmd s = IKCP_CMD_ACK
         then (ikcp_shrink_buf (ikcp_parse_ack (if itimediff (k_current k) (s_ts s) \<ge> 0
                  then ikcp_update_ack k (itimediff (k_current k) (s_ts s)) else k) (s_sn s)),
               True, if \<not> flag \<or> itimediff (s_sn s) maxack > 0 then s_sn s else maxack)
         else if s_cmd s = IKCP_CMD_PUSH then (store s k, flag, maxack)
         else if s_cmd s = IKCP_CMD_WASK then (k\<lparr>k_probe := k_probe k OR IKCP_ASK_TELL\<rparr>, flag, maxack)
         else (k, flag, maxack))"
  using command_byte [OF assms]
  by (simp add: absorb_def input_segment_def note_una_def store_def taken_def Let_def)

lemma absorb_ok:
  assumes e: "endpoint S n X R c m k" and s: "incoming (k_conv k) S X R s" and b: "length S < seq_bound" "length R < seq_bound" "small_frags R"
    and a: "absorb s (k, f, x) = (k', f', x')"
  shows "\<exists>m' \<ge> m. endpoint S n X R c m' k' \<and> config k' = config k \<and> (\<forall>j. arrived R m (k_rcv_buf k) j \<longrightarrow> arrived R m' (k_rcv_buf k') j)"
proof -
  obtain u where u: "u \<le> length S" "s_una s = word_of_nat u" "\<forall>j < u. X j" using s by (auto simp: incoming_def)
  let ?k = "note_una (s_una s) (ucast (s_wnd s)) k"
  have e1: "endpoint S n X R c m ?k" unfolding u(2) using note_una_ok [OF e u(1) _ b(1)] u(3) by blast
  note fr = note_una_frame [of "s_una s" "ucast (s_wnd s)" k]
  have buf: "k_rcv_buf ?k = k_rcv_buf k" using view_fields(2) [OF fr(2)] by blast
  note ab = a [unfolded absorb_unfold [OF incoming_command [OF s]] Let_def]
  consider (push) i where "s_cmd s = IKCP_CMD_PUSH" "carries R i s"
    | (ack) i where "s_cmd s = IKCP_CMD_ACK" "i < length S" "s_sn s = word_of_nat i" "X i"
    | (wask) "s_cmd s = IKCP_CMD_WASK" | (wins) "s_cmd s = IKCP_CMD_WINS"
    using s unfolding incoming_def by blast
  then show ?thesis
  proof cases
    case push
    have "k' = store s ?k" using ab push(1) by (simp add: kcp_constants)
    then show ?thesis using store_ok [OF e1 push(2) b(3,2)] store_frame(1) [of s ?k] fr(1) buf by auto
  next
    case ack
    let ?b = "itimediff (k_current ?k) (s_ts s) \<ge> 0" and ?r = "itimediff (k_current ?k) (s_ts s)"
    let ?j = "if ?b then ikcp_update_ack ?k ?r else ?k"
    have k': "k' = ikcp_shrink_buf (ikcp_parse_ack ?j (word_of_nat i))" using ab ack(1,3) by simp
    have "config k' = config ?k" "receiving k' = receiving ?k" unfolding k' by (simp_all add: frame)
    then show ?thesis using note_ack_ok [OF e1 ack(2,4) b(1), of ?b ?r] k' fr(1) buf view_fields(2) [of k' ?k] by (intro exI [of _ m]) auto
  next
    case wask
    have k': "k' = ?k\<lparr>k_probe := k_probe ?k OR IKCP_ASK_TELL\<rparr>" using ab wask by (simp add: kcp_constants)
    have f1: "config k' = config ?k" "receiving k' = receiving ?k" "acks k' = acks ?k" "sending k' = sending ?k" unfolding k' by (simp_all add: view_defs)
    have "endpoint S n X R c m k'" using endpoint_frame [OF e1 _ f1(1-3)] endpointD(1) [OF e1] sender_cong [OF f1(1,4)] by blast
    then show ?thesis using f1(1) fr(1) buf view_fields(2) [OF f1(2)] by (intro exI [of _ m]) auto
  next
    case wins
    have "k' = ?k" using ab wins by (simp add: kcp_constants)
    then show ?thesis using e1 fr(1) buf by (intro exI [of _ m]) auto
  qed
qed

lemma input_loop_ok:
  assumes "endpoint S n X R c m k" "\<forall>s \<in> set segs. incoming (k_conv k) S X R s"
    and b: "length S < seq_bound" "length R < seq_bound" "small_frags R"
  shows "\<exists>m' \<ge> m. \<exists>k' f' x'. input_loop (concat (map wire segs)) (k, f, x) = (0, k', f', x') \<and> endpoint S n X R c m' k' \<and> config k' = config k
     \<and> (\<forall>j. arrived R m (k_rcv_buf k) j \<longrightarrow> arrived R m' (k_rcv_buf k') j)"
  using assms(1,2)
proof (induction segs arbitrary: k f x m rule: list.induct)
  case Nil
  then show ?case by (auto simp: input_loop.simps)
next
  case (Cons s segs)
  obtain k1 f1 x1 where a: "absorb s (k, f, x) = (k1, f1, x1)" by (cases "absorb s (k, f, x)")
  have s: "incoming (k_conv k) S X R s" using Cons.prems(2) by simp
  obtain m1 where m1: "m \<le> m1" "endpoint S n X R c m1 k1" "config k1 = config k"
      "\<forall>j. arrived R m (k_rcv_buf k) j \<longrightarrow> arrived R m1 (k_rcv_buf k1) j"
    using absorb_ok [OF Cons.prems(1) s b a] by blast
  have "k_conv k1 = k_conv k" using view_fields(1) [OF m1(3)] by blast
  then have "\<forall>s \<in> set segs. incoming (k_conv k1) S X R s" using Cons.prems(2) by simp
  from Cons.IH [OF m1(2) this, of f1 x1] obtain m' k' f' x' where m': "m1 \<le> m'"
      "input_loop (concat (map wire segs)) (k1, f1, x1) = (0, k', f', x')" "endpoint S n X R c m' k'" "config k' = config k1"
      "\<forall>j. arrived R m1 (k_rcv_buf k1) j \<longrightarrow> arrived R m' (k_rcv_buf k') j" by blast
  have "input_loop (concat (map wire (s # segs))) (k, f, x) = input_loop (concat (map wire segs)) (k1, f1, x1)"
    using input_loop_wire [of s "(k, f, x)" "concat (map wire segs)"] s incoming_command [OF s] a by (simp add: incoming_def)
  then show ?case using m' m1 by (intro exI [of _ m']) auto
qed

text \<open>A datagram of the other side is processed and keeps everything.\<close>

lemma ikcp_input_ok:
  assumes e: "endpoint S n X R c m k" and d: "datagram (incoming (k_conv k) S X R) d"
    and b: "length S < seq_bound" "length R < seq_bound" "small_frags R"
  shows "\<exists>m' \<ge> m. endpoint S n X R c m' (snd (ikcp_input k d)) \<and> config (snd (ikcp_input k d)) = config k
     \<and> (\<forall>j. arrived R m (k_rcv_buf k) j \<longrightarrow> arrived R m' (k_rcv_buf (snd (ikcp_input k d))) j)"
proof (cases "sint (word_of_nat (length d) :: u32) < sint IKCP_OVERHEAD")
  case True
  then show ?thesis using e by (intro exI [of _ m]) (simp add: ikcp_input_def)
next
  case False
  obtain segs where segs: "d = concat (map wire segs)" "\<forall>s \<in> set segs. incoming (k_conv k) S X R s" using d by (auto simp: datagram_def)
  obtain m' g f x where g: "m \<le> m'" "input_loop d (k, False, 0) = (0, g, f, x)" "endpoint S n X R c m' g" "config g = config k"
      "\<forall>j. arrived R m (k_rcv_buf k) j \<longrightarrow> arrived R m' (k_rcv_buf g) j"
    using input_loop_ok [OF e segs(2) b, of False 0] segs(1) by blast
  let ?g = "if f then ikcp_parse_fastack g x else g"
  have k': "snd (ikcp_input k d) = grow_window (k_snd_una k) ?g" using False g(2) by (simp add: ikcp_input_def)
  have f: "config (snd (ikcp_input k d)) = config g" "receiving (snd (ikcp_input k d)) = receiving g" "acks (snd (ikcp_input k d)) = acks g"
    unfolding k' by (simp_all add: frame)
  have "sender S n X ?g" using endpointD(1) [OF g(3)] parse_fastack_ok by simp
  then have "sender S n X (snd (ikcp_input k d))" unfolding k' using sender_cong [OF grow_window_frame(1,4)] by blast
  from endpoint_frame [OF g(3) this f] show ?thesis using g(1,4,5) f(1) view_fields(2) [OF f(2)] by (intro exI [of _ m']) simp
qed

section \<open>Flushing\<close>

text \<open>
  The configuration: message mode, the payload of a segment leaves room for the header, and the
  output buffer is large enough for three datagrams.
\<close>

definition config_ok :: "ikcpcb \<Rightarrow> bool" where
  "config_ok k \<longleftrightarrow>
     k_stream k = 0 \<and> 50 \<le> unat (k_mtu k) \<and> unat (k_mtu k) \<le> 2 ^ 24 \<and> k_mss k = k_mtu k - 24 \<and> k_buffer k = 3 * (unat (k_mtu k) + 24)"

lemma config_ok_cong: "config k = config k' \<Longrightarrow> config_ok k = config_ok k'"
  by (drule view_fields) (simp add: config_ok_def)

lemma config_ok_mss: "config_ok k \<Longrightarrow> unat (k_mss k) = unat (k_mtu k) - 24"
  by (auto simp: config_ok_def unat_sub word_le_nat_alt)

lemma sint_small: "unat (w :: u32) < 2 ^ 31 \<Longrightarrow> sint w = int (unat w)"
  using itimediff_seq [of "unat w" 0] by (simp add: itimediff_def seq_bound_def)

text \<open>What is in the output buffer fits into a datagram.\<close>

definition out_ok :: "(ikcpseg \<Rightarrow> bool) \<Rightarrow> ikcpcb \<Rightarrow> outgoing \<Rightarrow> bool" where
  "out_ok P k out \<longleftrightarrow> datagram P (fst out) \<and> (\<forall>d \<in> set (snd out). datagram P d) \<and> length (fst out) \<le> unat (k_mtu k)"

lemma datagram_Nil [simp]: "datagram P []"
  by (auto simp: datagram_def intro!: exI [of _ "[]"])

lemma datagram_snoc: "datagram P d \<Longrightarrow> P s \<Longrightarrow> datagram P (d @ wire s)"
proof -
  assume "datagram P d" "P s"
  then obtain segs where "d = concat (map wire segs)" "\<forall>s \<in> set segs. P s" by (auto simp: datagram_def)
  then show ?thesis unfolding datagram_def using \<open>P s\<close> by (intro exI [of _ "segs @ [s]"]) auto
qed

lemma put_wire_ok:
  assumes c: "config_ok k" and op: "out_ok P k out" and s: "P s" "length (s_data s) \<le> unat (k_mss k)"
    and need: "need = int (24 + length (s_data s))"
  shows "let out' = make_room k need out
     in length (fst out') + length (wire s) \<le> k_buffer k \<and> out_ok P k (fst out' @ wire s, snd out')"
proof -
  have m: "unat (k_mtu k) < 2 ^ 31" "50 \<le> unat (k_mtu k)" "k_buffer k = 3 * (unat (k_mtu k) + 24)" using c by (simp_all add: config_ok_def)
  have w: "length (wire s) = 24 + length (s_data s)" "24 + length (s_data s) \<le> unat (k_mtu k)"
    using s(2) config_ok_mss [OF c] m(2) by (simp_all add: wire_def)
  show ?thesis
  proof (cases "int (length (fst out)) + need > sint (k_mtu k)")
    case True
    have "datagram P (wire s)" using datagram_snoc [of P "[]" s] s(1) by simp
    then show ?thesis using True op w m(3)
      by (auto simp: make_room_def ikcp_output_def out_ok_def Let_def split: prod.split)
  next
    case False
    then have "length (fst out) + (24 + length (s_data s)) \<le> unat (k_mtu k)" using sint_small [OF m(1)] need by linarith
    then show ?thesis using False op w m(3) datagram_snoc [of P "fst out" s] s(1) by (auto simp: make_room_def out_ok_def Let_def)
  qed
qed

lemma out_ok_cong: "config k = config k' \<Longrightarrow> out_ok P k out = out_ok P k' out"
  by (drule view_fields) (simp add: out_ok_def)

lemma put_header_ok:
  assumes "config_ok k" "out_ok P k out" "P s" "s_data s = []"
  shows "\<exists>out'. put_header k s out = Inr out' \<and> out_ok P k out'"
  using put_wire_ok [where need = 24, OF assms(1-3)] assms(4)
  by (simp add: put_header_def put_bytes_def wire_def kcp_constants Let_def)

lemma put_segment_ok:
  assumes "config_ok k" "out_ok P k out" "P s" "sized s" "length (s_data s) \<le> unat (k_mss k)"
  shows "\<exists>out'. put_segment k s out = Inr out' \<and> out_ok P k out'"
proof -
  have "length (s_data s) \<le> 2 ^ 24" using assms(1,5) config_ok_mss [OF assms(1)] unfolding config_ok_def by linarith
  moreover have "IKCP_OVERHEAD + s_len s = word_of_nat (24 + length (s_data s))" using assms(4) by (simp add: sized_def kcp_constants)
  ultimately have u: "unat (IKCP_OVERHEAD + s_len s) = 24 + length (s_data s)" "24 + length (s_data s) < 2 ^ 31"
    using unat_word_of_nat_32 [of "24 + length (s_data s)"] by simp_all
  then have need: "sint (IKCP_OVERHEAD + s_len s) = int (24 + length (s_data s))"
    using sint_small [of "IKCP_OVERHEAD + s_len s"] by metis
  let ?out = "make_room k (sint (IKCP_OVERHEAD + s_len s)) out"
  have put: "length (fst ?out) + length (wire s) \<le> k_buffer k" "out_ok P k (fst ?out @ wire s, snd ?out)"
    using put_wire_ok [OF assms(1-3,5) need] by (simp_all add: Let_def)
  have len: "unat (s_len s) = length (s_data s)" using sized_unat [OF assms(4)] .
  have "s_len s > 0 \<longleftrightarrow> s_data s \<noteq> []" using len by (simp add: word_less_nat_alt)
  then show ?thesis using put len by (auto simp: put_segment_def put_bytes_def wire_def)
qed

text \<open>What an endpoint may send, as the other side sees it.\<close>

abbreviation outgoing_ok :: "ikcpcb \<Rightarrow> payload list \<Rightarrow> nat \<Rightarrow> payload list \<Rightarrow> ikcpseg \<Rightarrow> bool" where
  "outgoing_ok k R m S \<equiv> incoming (k_conv k) R (arrived R m (k_rcv_buf k)) S"

lemma control_ok:
  assumes "receiver R c m k" "s_conv s = k_conv k" "s_una s = k_rcv_nxt k" "s_data s = []" "s_len s = 0"
    "s_cmd s = IKCP_CMD_ACK \<and> (\<exists>i < length R. s_sn s = word_of_nat i \<and> arrived R m (k_rcv_buf k) i)
     \<or> s_cmd s = IKCP_CMD_WASK \<or> s_cmd s = IKCP_CMD_WINS"
  shows "outgoing_ok k R m S s"
proof -
  have "m \<le> length R" "s_una s = word_of_nat m" using assms(1,3) by (simp_all add: receiver_def receiver_with_def)
  moreover have "\<forall>j < m. arrived R m (k_rcv_buf k) j" by (simp add: arrived_def)
  ultimately show ?thesis using assms(2,4,5,6) by (auto simp: incoming_def sized_def)
qed

lemma flush_acks_ok:
  assumes "endpoint S n X R c m k" "config_ok k"
    and seg: "s_conv seg = k_conv k" "s_una seg = k_rcv_nxt k" "s_data seg = []" "s_len seg = 0" "s_cmd seg = IKCP_CMD_ACK"
  shows "\<exists>out. flush_acks k seg ([], []) = Inr out \<and> out_ok (outgoing_ok k R m S) k out"
  unfolding flush_acks_def
proof (rule rfold_total)
  show "out_ok (outgoing_ok k R m S) k ([], [])" by (simp add: out_ok_def)
  fix i out
  assume i: "i \<in> set [0..<k_ackcount k]" and out: "out_ok (outgoing_ok k R m S) k out"
  let ?s = "seg\<lparr>s_sn := fst (ikcp_ack_get k i), s_ts := snd (ikcp_ack_get k i)\<rparr>"
  have l: "acks_ok k" using assms(1) by (simp add: endpoint_def)
  then have "ikcp_ack_get k i = pending k ! i" "i < length (pending k)" using i by (auto simp: ikcp_ack_get_def pending_def acks_ok_def)
  then have "ikcp_ack_get k i \<in> set (pending k)" by simp
  then have "\<exists>j < length R. s_sn ?s = word_of_nat j \<and> arrived R m (k_rcv_buf k) j" using assms(1) by (auto simp: endpoint_def)
  then have "outgoing_ok k R m S ?s" using seg by (intro control_ok [OF endpointD(2) [OF assms(1)]]) auto
  then show "\<exists>out'. put_header k ?s out = Inr out' \<and> out_ok (outgoing_ok k R m S) k out'" using put_header_ok [OF assms(2) out] seg(3) by simp
qed

lemma flush_probes_ok:
  assumes "receiver R c m k" "config_ok k" "out_ok (outgoing_ok k R m S) k out"
    and seg: "s_conv seg = k_conv k" "s_una seg = k_rcv_nxt k" "s_data seg = []" "s_len seg = 0"
  shows "\<exists>out'. flush_probes k seg out = Inr out' \<and> out_ok (outgoing_ok k R m S) k out'"
proof -
  let ?I = "\<lambda>out. out_ok (outgoing_ok k R m S) k out"
  have put: "\<exists>out'. put_header k (seg\<lparr>s_cmd := x\<rparr>) out = Inr out' \<and> ?I out'" if "x \<in> {IKCP_CMD_WASK, IKCP_CMD_WINS}" "?I out" for x out
    using put_header_ok [OF assms(2) that(2) control_ok [OF assms(1)], of "seg\<lparr>s_cmd := x\<rparr>"] seg that(1) by simp
  obtain out1 where "(if k_probe k AND IKCP_ASK_SEND \<noteq> 0 then put_header k (seg\<lparr>s_cmd := IKCP_CMD_WASK\<rparr>) out else Inr out) = Inr out1" "?I out1"
    using put [of IKCP_CMD_WASK out] assms(3) by (cases "k_probe k AND IKCP_ASK_SEND \<noteq> 0") auto
  moreover have "\<exists>out'. (if k_probe k AND IKCP_ASK_TELL \<noteq> 0 then put_header k (seg\<lparr>s_cmd := IKCP_CMD_WINS\<rparr>) out1 else Inr out1) = Inr out' \<and> ?I out'"
    using put [of IKCP_CMD_WINS out1] \<open>?I out1\<close> by (cases "k_probe k AND IKCP_ASK_TELL \<noteq> 0") auto
  ultimately show ?thesis by (simp only: flush_probes_def rbind_simps)
qed

lemma window_loop_frame:
  "config (window_loop w v q k) = config k" "receiving (window_loop w v q k) = receiving k" "acks (window_loop w v q k) = acks k"
  by (induction w v q k rule: window_loop.induct) (simp_all add: view_defs)

lemma window_loop_ok:
  assumes "n \<le> length S" "k_snd_nxt k = word_of_nat n" "map (\<lambda>s. (s_frg s, s_data s)) q = drop n S" "\<forall>s \<in> set q. sized s"
    "buffered (k_conv k) S n X (k_snd_buf k)"
  shows "\<exists>n' \<ge> n. sender S n' X (window_loop w v q k)"
  using assms
proof (induction w v q k arbitrary: n rule: window_loop.induct)
  case (1 w v k)
  then show ?case by (intro exI [of _ n]) (simp add: sender_def)
next
  case (2 w v s q k)
  show ?case
  proof (cases "itimediff (k_snd_nxt k) (k_snd_una k + w) < 0")
    case False
    then have "window_loop w v (s # q) k = k\<lparr>k_snd_queue := s # q\<rparr>" by simp
    moreover have "sender S n X (k\<lparr>k_snd_queue := s # q\<rparr>)" using 2(2-6) by (simp add: sender_def)
    ultimately show ?thesis by (intro exI [of _ n]) simp
  next
    case True
    let ?t = "s\<lparr>s_conv := k_conv k, s_cmd := IKCP_CMD_PUSH, s_wnd := v, s_ts := k_current k, s_sn := k_snd_nxt k,
                s_una := k_rcv_nxt k, s_resendts := k_current k, s_rto := k_rx_rto k, s_fastack := 0, s_xmit := 0\<rparr>"
    let ?k = "k\<lparr>k_snd_buf := k_snd_buf k @ [?t], k_nsnd_que := k_nsnd_que k - 1, k_nsnd_buf := k_nsnd_buf k + 1, k_snd_nxt := k_snd_nxt k + 1\<rparr>"
    have eq: "drop n S = (s_frg s, s_data s) # map (\<lambda>s. (s_frg s, s_data s)) q" using 2(4) by simp
    have n: "n < length S" using eq by (cases "n < length S") auto
    have d: "S ! n = (s_frg s, s_data s)" "map (\<lambda>s. (s_frg s, s_data s)) q = drop (Suc n) S"
      using eq Cons_nth_drop_Suc [OF n] by simp_all
    have t: "carries S n ?t" using n d(1) 2(3,5) by (simp add: carries_def sized_def)
    have old: "sent_ok (k_conv k) S (Suc n) x" if "x \<in> set (k_snd_buf k)" for x
      using 2(6) that less_SucI unfolding buffered_def sent_ok_def by blast
    have "sent_ok (k_conv k) S (Suc n) ?t" using t by (auto simp: sent_ok_def)
    moreover have "X i \<or> (\<exists>x \<in> set (k_snd_buf k @ [?t]). carries S i x)" if "i < Suc n" for i
    proof (cases "i = n")
      case True
      then show ?thesis using t by auto
    next
      case False
      then have "i < n" using that by simp
      then show ?thesis using 2(6) unfolding buffered_def by auto
    qed
    ultimately have "buffered (k_conv k) S (Suc n) X (k_snd_buf k @ [?t])" unfolding buffered_def using old by auto
    then have "\<exists>n' \<ge> Suc n. sender S n' X (window_loop w v q ?k)" using n d(2) 2(3,5) by (intro 2(1) [OF True]) simp_all
    moreover have "window_loop w v (s # q) k = window_loop w v q ?k" using True by simp
    ultimately show ?thesis using Suc_leD by metis
  qed
qed

text \<open>Scheduling a segment changes its timers only.\<close>

definition same_segment :: "ikcpseg \<Rightarrow> ikcpseg \<Rightarrow> bool" where
  "same_segment s t \<longleftrightarrow> s_conv t = s_conv s \<and> s_cmd t = s_cmd s \<and> s_frg t = s_frg s \<and> s_sn t = s_sn s \<and> s_len t = s_len s \<and> s_data t = s_data s"

lemma same_segment_carries: "same_segment s t \<Longrightarrow> s_conv t = s_conv s \<and> s_cmd t = s_cmd s \<and> (\<forall>i. carries S i t = carries S i s)"
  by (simp add: same_segment_def carries_def sized_def)

lemma schedule_same:
  assumes "schedule_segment r tm s k = (ns, t, k', c, l)"
  shows "same_segment s t" "config k' = config k" "receiving k' = receiving k" "acks k' = acks k" "sending k' = sending k"
  using assms by (auto simp: schedule_segment_def Let_def same_segment_def view_defs split: if_splits)

lemma flush_data_ok:
  assumes "config_ok k" "receiver R c m k" "out_ok (outgoing_ok k R m S) k out"
    "\<forall>s \<in> set b. sent_ok (k_conv k) S n s \<and> length (s_data s) \<le> unat (k_mss k)"
  shows "\<exists>b' k' ch' lo' out'. flush_data r tm wnd b (k, ch, lo, out) = Inr (b', k', ch', lo', out') \<and> list_all2 same_segment b b'
     \<and> config k' = config k \<and> receiving k' = receiving k \<and> acks k' = acks k \<and> sending k' = sending k \<and> out_ok (outgoing_ok k R m S) k' out'"
  using assms
proof (induction b arbitrary: k ch lo out rule: list.induct)
  case (Cons s b)
  obtain ns t k1 c1 l1 where sc: "schedule_segment r tm s k = (ns, t, k1, c1, l1)" by (metis prod_cases5)
  note f = schedule_same [OF sc]
  define u where "u = (if ns then t\<lparr>s_ts := k_current k1, s_wnd := wnd, s_una := k_rcv_nxt k1\<rparr> else t)"
  have su: "same_segment s u" using f(1) by (simp add: u_def same_segment_def)
  have cf: "k_conv k1 = k_conv k" "k_mss k1 = k_mss k" "k_rcv_nxt k1 = k_rcv_nxt k" "k_rcv_buf k1 = k_rcv_buf k"
    using view_fields(1) [OF f(2)] view_fields(2) [OF f(3)] by simp_all
  have s: "sent_ok (k_conv k) S n s" "length (s_data s) \<le> unat (k_mss k)" using Cons.prems(4) by simp_all
  then obtain i where i: "carries S i u" "s_conv u = k_conv k" "s_cmd u = IKCP_CMD_PUSH"
    using same_segment_carries [OF su, of S] by (auto simp: sent_ok_def)
  have P: "outgoing_ok k R m S u" if ns
  proof -
    have "m \<le> length R" "s_una u = word_of_nat m" using Cons.prems(2) cf that by (simp_all add: receiver_def receiver_with_def u_def)
    moreover have "\<forall>j < m. arrived R m (k_rcv_buf k) j" by (simp add: arrived_def)
    ultimately show ?thesis using i by (auto simp: incoming_def carries_def)
  qed
  have c1: "config_ok k1" "out_ok (outgoing_ok k R m S) k1 out" using Cons.prems(1,3) config_ok_cong [OF f(2)] out_ok_cong [OF f(2)] by simp_all
  have "sized u" "length (s_data u) \<le> unat (k_mss k1)" using i(1) s(2) su cf by (auto simp: carries_def same_segment_def)
  then obtain out1 where o1: "(if ns then put_segment k1 u out else Inr out) = Inr out1" "out_ok (outgoing_ok k R m S) k1 out1"
    using put_segment_ok [OF c1, of u] P c1(2) by (cases ns) auto
  define k2 where "k2 = (if ns \<and> s_xmit u \<ge> k_dead_link k1 then k1\<lparr>k_state := - 1\<rparr> else k1)"
  have f2: "config k2 = config k" "receiving k2 = receiving k" "acks k2 = acks k" "sending k2 = sending k"
    using f by (simp_all add: k2_def view_defs)
  have e2: "k_conv k2 = k_conv k" "k_mss k2 = k_mss k" "k_rcv_buf k2 = k_rcv_buf k" using view_fields(1) [OF f2(1)] view_fields(2) [OF f2(2)] by simp_all
  have o2: "out_ok (outgoing_ok k R m S) k2 out1" using o1(2) out_ok_cong [of k2 k1] f2(1) f(2) by simp
  have "config_ok k2" "receiver R c m k2" "out_ok (outgoing_ok k2 R m S) k2 out1"
    using Cons.prems(1,2) config_ok_cong [OF f2(1)] receiver_cong [OF f2(1,2)] o2 e2 by simp_all
  from Cons.IH [OF this, of "ch \<or> c1" "lo \<or> l1"] obtain b' k' ch' lo' out' where r: "flush_data r tm wnd b (k2, ch \<or> c1, lo \<or> l1, out1) = Inr (b', k', ch', lo', out')"
      "list_all2 same_segment b b'" "config k' = config k2" "receiving k' = receiving k2" "acks k' = acks k2" "sending k' = sending k2"
      "out_ok (outgoing_ok k2 R m S) k' out'"
    using Cons.prems(4) e2 by auto
  have "flush_data r tm wnd (s # b) (k, ch, lo, out) = Inr (u # b', k', ch', lo', out')"
    using sc o1(1) r(1) by (cases ns) (simp_all add: Let_def u_def k2_def)
  then show ?case using r(2-7) su f2 e2 by auto
qed simp

lemma sent_small:
  assumes "sent_ok conv S n s" "\<forall>p \<in> set S. length (snd p) \<le> M"
  shows "length (s_data s) \<le> M"
proof -
  obtain i where "i < length S" "S ! i = (s_frg s, s_data s)" using assms(1) by (auto simp: sent_ok_def carries_def)
  then have "(s_frg s, s_data s) \<in> set S" by (metis nth_mem)
  then show ?thesis using assms(2) by force
qed

lemma control_segment_fields [simp]:
  "s_conv (control_segment k) = k_conv k" "s_una (control_segment k) = k_rcv_nxt k" "s_data (control_segment k) = []"
  "s_len (control_segment k) = 0" "s_cmd (control_segment k) = IKCP_CMD_ACK"
  "s_conv (last_ack k) = k_conv k" "s_una (last_ack k) = k_rcv_nxt k" "s_data (last_ack k) = []" "s_len (last_ack k) = 0"
  by (simp_all add: control_segment_def last_ack_def ikcp_segment_new_def Let_def)

lemma flush_control_ok:
  assumes e: "endpoint S n X R c m k" and co: "config_ok k" and k1: "k1 = probe_window (k\<lparr>k_ackcount := 0\<rparr>)"
  shows "\<exists>out1 out2. flush_acks k (control_segment k) ([], []) = Inr out1 \<and> flush_probes k1 (last_ack k) out1 = Inr out2
     \<and> out_ok (outgoing_ok k R m S) k out2"
proof -
  obtain out1 where o1: "flush_acks k (control_segment k) ([], []) = Inr out1" "out_ok (outgoing_ok k R m S) k out1"
    using flush_acks_ok [OF e co, of "control_segment k"] by auto
  have f1: "config k1 = config k" "receiving k1 = receiving k" unfolding k1 by (simp_all add: frame) (simp_all add: view_defs)
  have eq1: "k_conv k1 = k_conv k" "k_rcv_nxt k1 = k_rcv_nxt k" "k_rcv_buf k1 = k_rcv_buf k"
    using view_fields(1) [OF f1(1)] view_fields(2) [OF f1(2)] by simp_all
  have "receiver R c m k1" "config_ok k1" "out_ok (outgoing_ok k1 R m S) k1 out1"
    using endpointD(2) [OF e] receiver_cong [OF f1(1,2)] co config_ok_cong [OF f1(1)] o1(2) out_ok_cong [OF f1(1)] eq1 by simp_all
  from flush_probes_ok [OF this, of "last_ack k"] obtain out2
    where "flush_probes k1 (last_ack k) out1 = Inr out2" "out_ok (outgoing_ok k R m S) k1 out2" using eq1 by auto
  then show ?thesis using o1(1) out_ok_cong [OF f1(1)] by blast
qed

lemma flush_payload_ok:
  assumes e: "endpoint S n X R c m k" and co: "config_ok k" and sz: "\<forall>p \<in> set S. length (snd p) \<le> unat (k_mss k)"
    and out: "out_ok (outgoing_ok k R m S) k out" and g: "g = window_loop w wnd (k_snd_queue k) k"
  shows "\<exists>b k' ch lo out' n'. flush_data r tm wnd (k_snd_buf g) (g, False, False, out) = Inr (b, k', ch, lo, out')
     \<and> endpoint S n' X R c m (k'\<lparr>k_snd_buf := b\<rparr>) \<and> config (k'\<lparr>k_snd_buf := b\<rparr>) = config k \<and> receiving (k'\<lparr>k_snd_buf := b\<rparr>) = receiving k
     \<and> out_ok (outgoing_ok k R m S) k out'"
proof -
  obtain n' where n': "sender S n' X g"
    using endpointD(1) [OF e] window_loop_ok [of n S k "k_snd_queue k" X w wnd] unfolding g sender_def [of S n X k] by blast
  have f: "config g = config k" "receiving g = receiving k" "acks g = acks k" unfolding g by (rule window_loop_frame)+
  have eq: "k_conv g = k_conv k" "k_mss g = k_mss k" "k_rcv_buf g = k_rcv_buf k" using view_fields(1) [OF f(1)] view_fields(2) [OF f(2)] by simp_all
  have "\<forall>s \<in> set (k_snd_buf g). sent_ok (k_conv g) S n' s \<and> length (s_data s) \<le> unat (k_mss g)"
    using n' sent_small [of _ S n' _ "unat (k_mss k)"] sz eq by (auto simp: sender_def buffered_def)
  moreover have "config_ok g" "receiver R c m g" "out_ok (outgoing_ok g R m S) g out"
    using co config_ok_cong [OF f(1)] endpointD(2) [OF e] receiver_cong [OF f(1,2)] out out_ok_cong [OF f(1)] eq by simp_all
  ultimately obtain b k' ch lo out' where d: "flush_data r tm wnd (k_snd_buf g) (g, False, False, out) = Inr (b, k', ch, lo, out')"
      "list_all2 same_segment (k_snd_buf g) b" "config k' = config g" "receiving k' = receiving g" "acks k' = acks g" "sending k' = sending g"
      "out_ok (outgoing_ok k R m S) k' out'"
    using flush_data_ok [of g R c m S out "k_snd_buf g" n' r tm wnd False False] eq by auto
  let ?k = "k'\<lparr>k_snd_buf := b\<rparr>"
  have f': "config ?k = config k" "receiving ?k = receiving k" "acks ?k = acks k" using d(3-5) f by (simp_all add: view_defs)
  have "buffered (k_conv g) S n' X b" using buffered_same [OF sender_buffered [OF n'] d(2)] same_segment_carries by blast
  then have "sender S n' X ?k" using n' view_fields(1) [OF d(3)] view_fields(4) [OF d(6)] by (simp add: sender_def)
  from endpoint_frame [OF e this f'] have "endpoint S n' X R c m ?k" .
  moreover have "out_ok (outgoing_ok k R m S) k out'" using d(7) out_ok_cong [of k' k] d(3) f(1) by simp
  ultimately show ?thesis using d(1) f'(1,2) by blast
qed

lemma ikcp_flush_ok:
  assumes e: "endpoint S n X R c m k" and co: "config_ok k" and sz: "\<forall>p \<in> set S. length (snd p) \<le> unat (k_mss k)"
  shows "\<exists>k' ds n'. ikcp_flush k = Inr (k', ds) \<and> endpoint S n' X R c m k' \<and> config k' = config k \<and> receiving k' = receiving k
     \<and> (\<forall>d \<in> set ds. datagram (outgoing_ok k R m S) d)"
proof (cases "k_updated k = 0")
  case True
  then show ?thesis using e by (auto simp: ikcp_flush_def)
next
  case False
  define k1 where "k1 = probe_window (k\<lparr>k_ackcount := 0\<rparr>)"
  define k2 where "k2 = k1\<lparr>k_probe := 0\<rparr>"
  define g where "g = window_loop (send_window k2) (ikcp_wnd_unused k) (k_snd_queue k2) k2"
  define r where "r = (if k_fastresend g > 0 then word_of_int (k_fastresend g) else 0xFFFFFFFF :: u32)"
  define tm where "tm = (if k_nodelay g = 0 then word_of_int (sint (k_rx_rto g) div 8) else 0 :: u32)"
  obtain out1 out2 where o1: "flush_acks k (control_segment k) ([], []) = Inr out1" "flush_probes k1 (last_ack k) out1 = Inr out2"
      "out_ok (outgoing_ok k R m S) k out2"
    using flush_control_ok [OF e co k1_def] by blast
  have f: "config k2 = config k" "receiving k2 = receiving k" "acks k2 = acks (k\<lparr>k_ackcount := 0\<rparr>)" "sending k2 = sending k"
    using probe_window_frame [of "k\<lparr>k_ackcount := 0\<rparr>"] by (simp_all add: k2_def k1_def view_defs)
  have e0: "endpoint S n X R c m (k\<lparr>k_ackcount := 0\<rparr>)"
    using e by (simp add: endpoint_def sender_def receiver_def receiver_with_def acks_ok_def pending_def)
  have "sender S n X k2" using endpointD(1) [OF e] sender_cong [OF f(1,4)] by blast
  then have e2: "endpoint S n X R c m k2" using f by (intro endpoint_frame [OF e0]) (simp_all add: view_defs)
  have eq: "k_conv k2 = k_conv k" "k_mss k2 = k_mss k" "k_rcv_buf k2 = k_rcv_buf k" using view_fields(1) [OF f(1)] view_fields(2) [OF f(2)] by simp_all
  have "config_ok k2" "\<forall>p \<in> set S. length (snd p) \<le> unat (k_mss k2)" "out_ok (outgoing_ok k2 R m S) k2 out2"
    using co config_ok_cong [OF f(1)] sz o1(3) out_ok_cong [OF f(1)] eq by simp_all
  from flush_payload_ok [OF e2 this g_def, of r tm] obtain b k' ch lo out' n' where d:
      "flush_data r tm (ikcp_wnd_unused k) (k_snd_buf g) (g, False, False, out2) = Inr (b, k', ch, lo, out')"
      "endpoint S n' X R c m (k'\<lparr>k_snd_buf := b\<rparr>)" "config (k'\<lparr>k_snd_buf := b\<rparr>) = config k2"
      "receiving (k'\<lparr>k_snd_buf := b\<rparr>) = receiving k2" "out_ok (outgoing_ok k R m S) k2 out'"
    using eq by auto
  let ?h = "shrink_window r (send_window k2) ch lo (k'\<lparr>k_snd_buf := b\<rparr>)"
  have "sender S n' X ?h" using endpointD(1) [OF d(2)] sender_cong [OF shrink_window_frame(1,4)] by blast
  from endpoint_frame [OF d(2) this shrink_window_frame(1-3)] have "endpoint S n' X R c m ?h" .
  moreover have "config ?h = config k" "receiving ?h = receiving k" using d(3,4) f(1,2) by (simp_all only: shrink_window_frame)
  moreover have "ikcp_flush k = Inr (?h, snd (ikcp_output out'))"
    unfolding ikcp_flush_def Let_def if_not_P [OF False] o1(1,2) rbind_simps k1_def [symmetric] k2_def [symmetric] g_def [symmetric]
      r_def [symmetric] tm_def [symmetric] d(1) by simp
  moreover have "\<forall>d \<in> set (snd (ikcp_output out')). datagram (outgoing_ok k R m S) d"
    using d(5) by (auto simp: ikcp_output_def out_ok_def split: prod.splits if_splits)
  ultimately show ?thesis by blast
qed

lemma ikcp_update_cases:
  obtains g where "config g = config k" "receiving g = receiving k" "acks g = acks k" "sending g = sending k"
    "ikcp_update k t = ikcp_flush g \<or> ikcp_update k t = Inr (g, [])"
proof -
  let ?same = "\<lambda>g. config g = config k \<and> receiving g = receiving k \<and> acks g = acks k \<and> sending g = sending k"
  define k1 where "k1 = (if k_updated (k\<lparr>k_current := t\<rparr>) = 0 then k\<lparr>k_current := t, k_updated := 1, k_ts_flush := t\<rparr> else k\<lparr>k_current := t\<rparr>)"
  define k2 where "k2 = (if itimediff t (k_ts_flush k1) \<ge> 10000 \<or> itimediff t (k_ts_flush k1) < - 10000 then k1\<lparr>k_ts_flush := t\<rparr> else k1)"
  define k3 where "k3 = k2\<lparr>k_ts_flush := k_ts_flush k2 + k_interval k2\<rparr>"
  define k4 where "k4 = (if itimediff t (k_ts_flush k3) \<ge> 0 then k3\<lparr>k_ts_flush := t + k_interval k3\<rparr> else k3)"
  have "?same k1" by (simp add: k1_def view_defs)
  then have s2: "?same k2" by (simp add: k2_def view_defs)
  then have "?same k3" by (simp add: k3_def view_defs)
  then have s4: "?same k4" by (simp add: k4_def view_defs)
  have "ikcp_update k t = (if itimediff t (k_ts_flush k2) \<ge> 0 then ikcp_flush k4 else Inr (k2, []))"
    unfolding ikcp_update_def Let_def k4_def k3_def k2_def k1_def by simp
  then show ?thesis using that s2 s4 by (cases "itimediff t (k_ts_flush k2) \<ge> 0") auto
qed

lemma ikcp_update_ok:
  assumes e: "endpoint S n X R c m k" and co: "config_ok k" and sz: "\<forall>p \<in> set S. length (snd p) \<le> unat (k_mss k)"
  shows "\<exists>k' ds n'. ikcp_update k t = Inr (k', ds) \<and> endpoint S n' X R c m k' \<and> config k' = config k \<and> receiving k' = receiving k
     \<and> (\<forall>d \<in> set ds. datagram (outgoing_ok k R m S) d)"
proof (rule ikcp_update_cases [of k t])
  fix g assume f: "config g = config k" "receiving g = receiving k" "acks g = acks k" "sending g = sending k"
    and u: "ikcp_update k t = ikcp_flush g \<or> ikcp_update k t = Inr (g, [])"
  have "sender S n X g" using endpointD(1) [OF e] sender_cong [OF f(1,4)] by blast
  then have g: "endpoint S n X R c m g" by (rule endpoint_frame [OF e _ f(1-3)])
  have "config_ok g" "\<forall>p \<in> set S. length (snd p) \<le> unat (k_mss g)" using co config_ok_cong [OF f(1)] sz view_fields(1) [OF f(1)] by simp_all
  from ikcp_flush_ok [OF g this] show ?thesis
    using u g f(1,2) view_fields(1) [OF f(1)] view_fields(2) [OF f(2)] by (elim disjE) auto
qed

section \<open>Messages\<close>

text \<open>The fragments of a message are numbered downwards to zero.\<close>

definition counted :: "payload list \<Rightarrow> bool" where
  "counted fs \<longleftrightarrow> fs \<noteq> [] \<and> length fs \<le> 255 \<and> (\<forall>i < length fs. fst (fs ! i) = word_of_nat (length fs - 1 - i))"

definition frags :: "u32 \<Rightarrow> bytes \<Rightarrow> payload list \<Rightarrow> bool" where
  "frags mss msg fs \<longleftrightarrow>
     counted fs \<and> concat (map snd fs) = msg \<and> length fs = fragment_count mss (int (length msg))
     \<and> (\<forall>p \<in> set fs. length (snd p) \<le> unat mss)"

lemma counted_small: "counted fs \<Longrightarrow> p \<in> set fs \<Longrightarrow> unat (fst p) < 256"
proof -
  assume c: "counted fs" "p \<in> set fs"
  then obtain i where "i < length fs" "fst p = word_of_nat (length fs - 1 - i)" by (auto simp: counted_def in_set_conv_nth)
  moreover have "length fs - 1 - i < 256" using c(1) unfolding counted_def by linarith
  ultimately show ?thesis using unat_word_of_nat_32 [of "length fs - 1 - i"] by simp
qed

lemma counted_tl: "counted (p # q # fs) \<Longrightarrow> counted (q # fs)"
  unfolding counted_def
proof (intro conjI allI impI)
  assume c: "p # q # fs \<noteq> [] \<and> length (p # q # fs) \<le> 255 \<and>
    (\<forall>i < length (p # q # fs). fst ((p # q # fs) ! i) = word_of_nat (length (p # q # fs) - 1 - i))"
  show "fst ((q # fs) ! i) = word_of_nat (length (q # fs) - 1 - i)" if "i < length (q # fs)" for i
    using c [THEN conjunct2, THEN conjunct2, rule_format, of "Suc i"] that by simp
qed auto

lemma counted_hd: "counted (p # fs) \<Longrightarrow> fst p = word_of_nat (length fs)" "counted (p # fs) \<Longrightarrow> fst p = 0 \<longleftrightarrow> fs = []"
proof -
  assume c: "counted (p # fs)"
  then show h: "fst p = word_of_nat (length fs)" by (auto simp: counted_def dest: spec [of _ 0])
  have "length fs < 2 ^ 32" using c by (simp add: counted_def)
  then show "fst p = 0 \<longleftrightarrow> fs = []" using h word_of_nat_inj_32 [of "length fs" 0] by simp
qed

lemma peek_merge: "fst (merge_fragments q) = peek_length q"
  by (induction q) (auto split: prod.split)

text \<open>Merging takes exactly the fragments of the first message.\<close>

lemma merge_counted:
  assumes "counted fs" "list_all2 (\<lambda>p s. s_frg s = fst p \<and> s_data s = snd p \<and> sized s) fs q"
  shows "\<exists>l. merge_fragments (q @ r) = (l, concat (map snd fs), length fs, r)"
  using assms
proof (induction fs arbitrary: q rule: list.induct)
  case Nil
  then show ?case by (simp add: counted_def)
next
  case (Cons p fs)
  obtain s q' where q: "q = s # q'" "s_frg s = fst p" "s_data s = snd p" "sized s"
      "list_all2 (\<lambda>p s. s_frg s = fst p \<and> s_data s = snd p \<and> sized s) fs q'"
    using Cons.prems(2) by (cases q) auto
  note zero = counted_hd(2) [OF Cons.prems(1)]
  have data: "take (unat (s_len s)) (s_data s) = snd p" using sized_unat [OF q(4)] q(3) by simp
  show ?case
  proof (cases fs)
    case Nil
    then show ?thesis using q zero data by simp
  next
    case (Cons p' fs')
    then have "counted fs" using Cons.prems(1) counted_tl by simp
    from Cons.IH [OF this q(5)] obtain l where "merge_fragments (q' @ r) = (l, concat (map snd fs), length fs, r)" by blast
    then show ?thesis using q zero data Cons by simp
  qed
qed

definition next_message :: "payload list \<Rightarrow> nat \<Rightarrow> payload list \<Rightarrow> bool" where
  "next_message R c fs \<longleftrightarrow> counted fs \<and> (\<exists>rest. drop c R = fs @ rest)"

lemma queue_split:
  assumes r: "receiver R c m k" and f: "next_message R c fs" "c + length fs \<le> m"
  shows "list_all2 (\<lambda>p s. s_frg s = fst p \<and> s_data s = snd p \<and> sized s) fs (take (length fs) (k_rcv_queue k))"
    "list_all2 (carries R) [c + length fs..<m] (drop (length fs) (k_rcv_queue k))"
proof -
  have q: "list_all2 (carries R) [c..<m] (k_rcv_queue k)" using r by (simp add: receiver_def receiver_with_def)
  have "drop (length fs) [c..<m] = [c + length fs..<m]" by simp
  then show "list_all2 (carries R) [c + length fs..<m] (drop (length fs) (k_rcv_queue k))" using list_all2_dropI [OF q, of "length fs"] by simp
  show "list_all2 (\<lambda>p s. s_frg s = fst p \<and> s_data s = snd p \<and> sized s) fs (take (length fs) (k_rcv_queue k))"
  proof (rule list_all2_all_nthI)
    have "length (k_rcv_queue k) = m - c" using list_all2_lengthD [OF q] by simp
    then show "length fs = length (take (length fs) (k_rcv_queue k))" using f(2) by simp
    fix i assume i: "i < length fs"
    then have "i < length [c..<m]" using f(2) by simp
    then have ca: "carries R (c + i) (k_rcv_queue k ! i)" using list_all2_nthD [OF q, of i] by simp
    obtain rest where rest: "drop c R = fs @ rest" using f(1) by (auto simp: next_message_def)
    have "c \<le> length R" using carries_sn [OF ca] by simp
    then have "R ! (c + i) = drop c R ! i" by simp
    then have "R ! (c + i) = fs ! i" unfolding rest using i by (simp add: nth_append)
    then show "s_frg (take (length fs) (k_rcv_queue k) ! i) = fst (fs ! i) \<and> s_data (take (length fs) (k_rcv_queue k) ! i) = snd (fs ! i)
        \<and> sized (take (length fs) (k_rcv_queue k) ! i)"
      using i ca by (simp add: carries_def)
  qed
qed

text \<open>A message of which a fragment is missing cannot be received.\<close>

lemma peek_incomplete:
  assumes r: "receiver R c m k" and f: "next_message R c fs" and m: "m < c + length fs" and b: "length R < seq_bound"
  shows "k_rcv_queue k = [] \<or> ikcp_peeksize k < 0"
proof (cases "k_rcv_queue k")
  case (Cons s q)
  have rw: "c \<le> m" "m \<le> length R" "list_all2 (carries R) [c..<m] (s # q)" "k_nrcv_que k = word_of_nat (m - c)"
    using r Cons by (simp_all add: receiver_def receiver_with_def)
  then have cm: "c < m" by (cases "c < m") auto
  then have "carries R c s" using rw(3) upt_conv_Cons [OF cm] by simp
  then have frg: "s_frg s = fst (R ! c)" by (simp add: carries_def)
  obtain rest where rest: "drop c R = fs @ rest" "counted fs" using f by (auto simp: next_message_def)
  obtain p gs where p: "fs = p # gs" using rest(2) by (cases fs) (auto simp: counted_def)
  have "R ! c = p" using rest(1) p cm rw(2) Cons_nth_drop_Suc [of c R] by simp
  then have frg: "s_frg s = word_of_nat (length gs)" using frg counted_hd(1) rest(2) p by simp
  have l: "length gs < 256" using rest(2) p by (simp add: counted_def)
  have "s_frg s + 1 = word_of_nat (Suc (length gs))" using frg by simp
  then have u: "unat (s_frg s + 1) = Suc (length gs)" using unat_word_of_nat_32 [of "Suc (length gs)"] l by (simp add: add.commute)
  have mc: "m - c < Suc (length gs)" using m p by simp
  have "unat (k_nrcv_que k) = m - c" unfolding rw(4) by (rule unat_word_of_nat_32) (use mc l in simp)
  then have "k_nrcv_que k < s_frg s + 1" unfolding word_less_nat_alt u using mc by simp
  moreover have "s_frg s \<noteq> 0" using frg m p cm l word_of_nat_inj_32 [of "length gs" 0] by auto
  ultimately show ?thesis using Cons by (simp add: ikcp_peeksize_def)
qed simp

lemma ikcp_recv_ok:
  assumes r: "receiver R c m k" and b: "length R < seq_bound" and nx: "k_rcv_queue k = [] \<or> (\<exists>fs. next_message R c fs)"
  shows "\<exists>z bs k'. ikcp_recv k len = Inr (z, bs, k') \<and> config k' = config k \<and> acks k' = acks k \<and> sending k' = sending k
     \<and> (z < 0 \<and> k' = k
        \<or> z \<ge> 0 \<and> (\<exists>fs. \<exists>m' \<ge> m. next_message R c fs \<and> bs = concat (map snd fs) \<and> receiver R (if len < 0 then c else c + length fs) m' k'
             \<and> (\<forall>j. arrived R m (k_rcv_buf k) j \<longrightarrow> arrived R m' (k_rcv_buf k') j)))"
proof (cases "k_rcv_queue k = [] \<or> ikcp_peeksize k < 0 \<or> ikcp_peeksize k > \<bar>len\<bar>")
  case True
  then show ?thesis by (auto simp: ikcp_recv_def)
next
  case False
  then obtain fs where f: "next_message R c fs" using nx by blast
  then have cm: "c + length fs \<le> m" using peek_incomplete [OF r f _ b] False by fastforce
  let ?q = "drop (length fs) (k_rcv_queue k)"
  note split = queue_split [OF r f cm]
  obtain l where l: "merge_fragments (k_rcv_queue k) = (l, concat (map snd fs), length fs, ?q)"
    using merge_counted [OF _ split(1), of ?q] f by (auto simp: next_message_def)
  have peek: "ikcp_peeksize k = sint l"
    using peek_merge [of "k_rcv_queue k"] l False by (auto simp: ikcp_peeksize_def split: list.splits if_splits)
  define k1 where "k1 = (if len < 0 then k else k\<lparr>k_rcv_queue := ?q, k_nrcv_que := k_nrcv_que k - word_of_nat (length fs)\<rparr>)"
  define k2 where "k2 = move_available k1"
  define k3 where "k3 = (if k_nrcv_que k2 < k_rcv_wnd k2 \<and> k_nrcv_que k \<ge> k_rcv_wnd k then k2\<lparr>k_probe := k_probe k2 OR IKCP_ASK_TELL\<rparr> else k2)"
  let ?c = "if len < 0 then c else c + length fs"
  have "k_nrcv_que k - word_of_nat (length fs) = word_of_nat (m - (c + length fs))"
    using r cm by (simp add: receiver_def receiver_with_def of_nat_diff)
  then have "receiver R ?c m k1" using r cm split(2) by (auto simp: k1_def receiver_def receiver_with_def)
  then obtain m' where m': "m \<le> m'" "receiver R ?c m' k2"
      "\<forall>j. arrived R m (k_rcv_buf k1) j \<longrightarrow> arrived R m' (k_rcv_buf k2) j"
    using move_available_ok [OF _ b] k2_def by blast
  have f3: "config k3 = config k2" "receiving k3 = receiving k2" "acks k3 = acks k2" "sending k3 = sending k2"
    by (simp_all add: k3_def view_defs)
  have f1: "config k1 = config k" "acks k1 = acks k" "sending k1 = sending k" "k_rcv_buf k1 = k_rcv_buf k" by (simp_all add: k1_def view_defs)
  have f: "config k3 = config k" "acks k3 = acks k" "sending k3 = sending k"
    using f3 f1 by (simp_all add: k2_def frame)
  have "ikcp_recv k len = Inr (sint l, concat (map snd fs), k3)"
    using False peek unfolding ikcp_recv_def l by (simp add: Let_def k3_def k2_def k1_def)
  moreover have "receiver R ?c m' k3" using m'(2) receiver_cong [OF f3(1,2)] by blast
  moreover have "sint l \<ge> 0" using False peek by simp
  moreover have "\<forall>j. arrived R m (k_rcv_buf k) j \<longrightarrow> arrived R m' (k_rcv_buf k3) j"
    using m'(3) f1(4) view_fields(2) [OF f3(2)] by simp
  ultimately show ?thesis using \<open>next_message R c fs\<close> m'(1) f by blast
qed

text \<open>Splitting a message into fragments.\<close>

text \<open>A message whose fragments are all in the queue is returned.\<close>

lemma peek_counted:
  assumes "counted fs" "list_all2 (\<lambda>p s. s_frg s = fst p \<and> s_data s = snd p \<and> sized s) fs q"
  shows "peek_length (q @ r) = word_of_nat (length (concat (map snd fs)))"
  using assms
proof (induction fs arbitrary: q rule: list.induct)
  case Nil
  then show ?case by (simp add: counted_def)
next
  case (Cons p fs)
  obtain s q' where q: "q = s # q'" "s_frg s = fst p" "s_data s = snd p" "sized s"
    "list_all2 (\<lambda>p s. s_frg s = fst p \<and> s_data s = snd p \<and> sized s) fs q'" using Cons.prems(2) by (auto simp: list_all2_Cons1)
  show ?case
  proof (cases "fs = []")
    case True
    then show ?thesis using q counted_hd(2) [OF Cons.prems(1)] by (simp add: sized_def)
  next
    case False
    have "counted fs" using Cons.prems(1) False by (fastforce simp: counted_def)
    then show ?thesis using Cons.IH q counted_hd(2) [OF Cons.prems(1)] False by (simp add: sized_def)
  qed
qed

lemma ikcp_recv_message:
  assumes r: "receiver R c m k" and f: "next_message R c fs" "c + length fs \<le> m" and b: "length R < seq_bound"
    and l: "length (concat (map snd fs)) < 2 ^ 31" "int (length (concat (map snd fs))) \<le> \<bar>len\<bar>"
  shows "\<exists>k'. ikcp_recv k len = Inr (int (length (concat (map snd fs))), concat (map snd fs), k')"
proof -
  let ?q = "drop (length fs) (k_rcv_queue k)" and ?n = "length (concat (map snd fs))"
  note split = queue_split [OF r f]
  have c: "counted fs" using f(1) by (simp add: next_message_def)
  then obtain p fs' where fs: "fs = p # fs'" by (cases fs) (auto simp: counted_def)
  have "take (length fs) (k_rcv_queue k) \<noteq> []" using split(1) fs by auto
  then obtain s q where s: "k_rcv_queue k = s # q" by (cases "k_rcv_queue k") auto
  then have sp: "s_frg s = fst p" "s_data s = snd p" "sized s" using split(1) fs by simp_all
  have sn: "sint (word_of_nat ?n :: u32) = int ?n" using l(1) sint_small [of "word_of_nat ?n"] unat_word_of_nat_32 [of ?n] by simp
  have peek: "peek_length (k_rcv_queue k) = word_of_nat ?n" using peek_counted [OF c split(1), of ?q] by simp
  obtain w where w: "merge_fragments (k_rcv_queue k) = (w, concat (map snd fs), length fs, ?q)"
    using merge_counted [OF c split(1), of ?q] by auto
  then have "w = word_of_nat ?n" using peek_merge [of "k_rcv_queue k"] peek by simp
  moreover have "ikcp_peeksize k = int ?n"
  proof (cases "fs' = []")
    case True
    then show ?thesis using s sp counted_hd(2) c fs sn by (simp add: ikcp_peeksize_def sized_def)
  next
    case False
    have mc: "m - c < 2 ^ 32" "length fs' + 1 \<le> m - c" using r b f(2) fs by (auto simp: receiver_def receiver_with_def seq_bound_def)
    have "k_nrcv_que k = word_of_nat (m - c)" using r unfolding receiver_def receiver_with_def by (elim conjE)
    moreover have "s_frg s + 1 = word_of_nat (length fs' + 1)" using sp(1) counted_hd(1) c fs by simp
    ultimately have "\<not> k_nrcv_que k < s_frg s + 1" unfolding word_less_nat_alt
      using unat_word_of_nat_32 [OF mc(1)] unat_word_of_nat_32 [OF le_less_trans [OF mc(2,1)]] mc(2) by (simp only: not_less)
    then show ?thesis using s sp(1) counted_hd(2) c fs False peek sn by (simp add: ikcp_peeksize_def)
  qed
  ultimately show ?thesis using s w l(2) sn unfolding ikcp_recv_def w by (simp add: Let_def)
qed

lemma fragment_count_ok:
  assumes "config_ok k" "L < 2 ^ 31"
  shows "0 < fragment_count (k_mss k) (int L)" "L \<le> fragment_count (k_mss k) (int L) * unat (k_mss k)"
proof -
  let ?M = "unat (k_mss k)"
  have "50 \<le> unat (k_mtu k)" "unat (k_mtu k) \<le> 16777216" using assms(1) by (simp_all add: config_ok_def)
  then have M: "0 < ?M" "?M < 2 ^ 30" using config_ok_mss [OF assms(1)] by simp_all
  have s: "int L \<le> sint (k_mss k) \<longleftrightarrow> L \<le> ?M" using sint_small [of "k_mss k"] M(2) of_nat_le_iff [of L ?M, where 'a = int] by simp
  have "0 < fragment_count (k_mss k) (int L) \<and> L \<le> fragment_count (k_mss k) (int L) * ?M"
  proof (cases "L \<le> ?M")
    case True
    then show ?thesis using s by (simp add: fragment_count_def)
  next
    case False
    have "(word_of_int (int L) + k_mss k - 1 :: u32) = word_of_nat (L + ?M - 1)" using M(1) by (simp add: of_nat_diff)
    moreover have "L + ?M - 1 < 2 ^ 32" using assms(2) M(2) by simp
    ultimately have "unat (word_of_int (int L) + k_mss k - 1 :: u32) = L + ?M - 1" using unat_word_of_nat_32 by metis
    then have c: "fragment_count (k_mss k) (int L) = (L + ?M - 1) div ?M" using False s by (simp add: fragment_count_def unat_div_distrib)
    have "L + ?M - 1 < ((L + ?M - 1) div ?M + 1) * ?M" using M(1) by (metis dividend_less_div_times add.commute mult.commute mult_Suc Suc_eq_plus1)
    then have "L \<le> (L + ?M - 1) div ?M * ?M" using M(1) by (simp add: algebra_simps)
    then show ?thesis unfolding c using False M(1) by (cases "(L + ?M - 1) div ?M") auto
  qed
  then show "0 < fragment_count (k_mss k) (int L)" "L \<le> fragment_count (k_mss k) (int L) * ?M" by blast+
qed

lemma min_if: "(if int a > int b then int b else int a) = int (min a b)"
  by simp

lemma fragment_loop_ok:
  assumes "k_stream k = 0" "unat (k_mss k) < 2 ^ 31" "length buffer \<le> n * unat (k_mss k)"
  shows "\<exists>segs x. fragment_loop n buffer (int (length buffer)) k = k\<lparr>k_snd_queue := k_snd_queue k @ segs, k_nsnd_que := x\<rparr> \<and> length segs = n
     \<and> concat (map s_data segs) = buffer \<and> (\<forall>i < n. s_frg (segs ! i) = word_of_nat (n - 1 - i))
     \<and> (\<forall>s \<in> set segs. sized s \<and> length (s_data s) \<le> unat (k_mss k))"
  using assms
proof (induction n arbitrary: buffer k)
  case 0
  then show ?case by (intro exI [of _ "[]"] exI [of _ "k_nsnd_que k"]) simp
next
  case (Suc n)
  let ?M = "unat (k_mss k)" and ?z = "min (length buffer) (unat (k_mss k))"
  let ?s = "(ikcp_segment_new (take ?z buffer))\<lparr>s_len := word_of_nat ?z, s_frg := word_of_nat n\<rparr>"
  let ?k = "k\<lparr>k_snd_queue := k_snd_queue k @ [?s], k_nsnd_que := k_nsnd_que k + 1\<rparr>"
  have M: "sint (k_mss k) = int ?M" using Suc.prems(2) by (rule sint_small)
  have "(if int (length buffer) > sint (k_mss k) then sint (k_mss k) else int (length buffer)) = int ?z"
    unfolding M using min_if [where a = "length buffer" and b = ?M] .
  then have step: "fragment_loop (Suc n) buffer (int (length buffer)) k = fragment_loop n (drop ?z buffer) (int (length (drop ?z buffer))) ?k"
    using Suc.prems(1) by (simp add: Let_def of_nat_diff)
  have "length (drop ?z buffer) \<le> n * unat (k_mss ?k)" using Suc.prems(3) by (auto simp: min_def)
  from Suc.IH [OF _ _ this] Suc.prems(1,2) obtain segs x where x:
      "fragment_loop n (drop ?z buffer) (int (length (drop ?z buffer))) ?k = ?k\<lparr>k_snd_queue := k_snd_queue ?k @ segs, k_nsnd_que := x\<rparr>"
      "length segs = n" "concat (map s_data segs) = drop ?z buffer" "\<forall>i < n. s_frg (segs ! i) = word_of_nat (n - 1 - i)"
      "\<forall>s \<in> set segs. sized s \<and> length (s_data s) \<le> ?M" by auto
  have "s_frg ((?s # segs) ! i) = word_of_nat (Suc n - 1 - i)" if "i < Suc n" for i
    using x(4) that by (cases i) (simp_all add: ikcp_segment_new_def)
  moreover have "concat (map s_data (?s # segs)) = buffer" using x(3) by (simp add: ikcp_segment_new_def)
  moreover have "sized ?s" "length (s_data ?s) \<le> ?M" using Suc.prems(2) by (simp_all add: sized_def ikcp_segment_new_def min_absorb1)
  moreover have "fragment_loop (Suc n) buffer (int (length buffer)) k = k\<lparr>k_snd_queue := k_snd_queue k @ ?s # segs, k_nsnd_que := x\<rparr>"
    unfolding step x(1) by simp
  ultimately show ?case using x(2,5) by (intro exI [of _ "?s # segs"] exI [of _ x]) simp
qed

lemma ikcp_send_ok:
  assumes e: "endpoint S n X R c m k" and co: "config_ok k" and l: "length msg < 2 ^ 31"
  shows "\<exists>r k'. ikcp_send k msg (int (length msg)) = Inr (r, k') \<and> config k' = config k \<and> receiving k' = receiving k
     \<and> (if r = 0 then \<exists>fs. frags (k_mss k) msg fs \<and> endpoint (S @ fs) n X R c m k' else k' = k)"
proof -
  have st: "k_stream k = 0" "k_mss k \<noteq> 0" "unat (k_mss k) < 2 ^ 31"
    using co config_ok_mss [OF co] by (auto simp: config_ok_def)
  let ?n = "fragment_count (k_mss k) (int (length msg))"
  note fc = fragment_count_ok [OF co l]
  show ?thesis
  proof (cases "?n > 255")
    case True
    then show ?thesis using st by (simp add: ikcp_send_def Let_def)
  next
    case False
    from fragment_loop_ok [OF st(1,3) fc(2)] obtain segs x where x:
        "fragment_loop ?n msg (int (length msg)) k = k\<lparr>k_snd_queue := k_snd_queue k @ segs, k_nsnd_que := x\<rparr>" "length segs = ?n"
        "concat (map s_data segs) = msg" "\<forall>i < ?n. s_frg (segs ! i) = word_of_nat (?n - 1 - i)"
        "\<forall>s \<in> set segs. sized s \<and> length (s_data s) \<le> unat (k_mss k)" by blast
    let ?k = "k\<lparr>k_snd_queue := k_snd_queue k @ segs, k_nsnd_que := x\<rparr>" and ?fs = "map (\<lambda>s. (s_frg s, s_data s)) segs"
    have "ikcp_send k msg (int (length msg)) = Inr (0, ?k)" using False st x(1) fc(1) by (simp add: ikcp_send_def Let_def)
    moreover have "frags (k_mss k) msg ?fs"
      using x(2-5) False fc(1) by (auto simp: frags_def counted_def comp_def)
    moreover have "sender (S @ ?fs) n X ?k"
    proof -
      note s = endpointD(1) [OF e, unfolded sender_def]
      have grow: "carries S i s \<Longrightarrow> carries (S @ ?fs) i s" for i s by (simp add: carries_def nth_append)
      have "buffered (k_conv k) (S @ ?fs) n X (k_snd_buf k)" using s grow unfolding buffered_def sent_ok_def by blast
      then show ?thesis using s x(5) by (auto simp: sender_def)
    qed
    moreover have "config ?k = config k" "receiving ?k = receiving k" "acks ?k = acks k" by (simp_all add: view_defs)
    ultimately show ?thesis using endpoint_frame [OF e, of "S @ ?fs" n X ?k] by auto
  qed
qed

section \<open>What every call keeps\<close>

text \<open>
  Independently of the streams: the configuration is constant, and the receive buffer is settled.
  Its first segment is the next expected one only while the receive queue fills the window.
\<close>

definition settled :: "ikcpcb \<Rightarrow> bool" where
  "settled k \<longleftrightarrow> (case k_rcv_buf k of [] \<Rightarrow> True | s # b \<Rightarrow> s_sn s = k_rcv_nxt k \<longrightarrow> \<not> k_nrcv_que k < k_rcv_wnd k)"

definition keeps :: "ikcpcb \<Rightarrow> ikcpcb \<Rightarrow> bool" where
  "keeps k k' \<longleftrightarrow> config k' = config k \<and> (settled k \<longrightarrow> settled k')"

lemma keeps_refl: "keeps k k"
  by (simp add: keeps_def)

lemma keeps_trans: "keeps k k' \<Longrightarrow> keeps k' k'' \<Longrightarrow> keeps k k''"
  by (simp add: keeps_def)

lemma keepsI: "config k' = config k \<Longrightarrow> receiving k' = receiving k \<Longrightarrow> keeps k k'"
  by (frule view_fields(1), drule view_fields(2)) (simp add: keeps_def settled_def split: list.split)

lemma move_loop_settled: "settled (move_loop b k)"
  by (induction b k rule: move_loop.induct) (simp_all add: settled_def)

lemma move_available_keeps: "keeps k (move_available k)"
  by (simp add: keeps_def frame move_loop_settled move_available_def)

lemma parse_data_keeps: "keeps k (ikcp_parse_data k s)"
  by (simp add: ikcp_parse_data_def keeps_def frame move_loop_settled move_available_def split: option.split) (simp add: config_def)

lemma extend_last_view: "extend_last k buffer len = (k', buffer', len') \<Longrightarrow> config k' = config k \<and> receiving k' = receiving k"
  by (auto simp: extend_last_def Let_def view_defs split: if_splits)

lemma fragment_loop_view: "config (fragment_loop n buffer len k) = config k \<and> receiving (fragment_loop n buffer len k) = receiving k"
  by (induction n buffer len k rule: fragment_loop.induct) (simp_all add: Let_def view_defs)

lemma ikcp_send_keeps: "ikcp_send k buffer len = Inr (r, k') \<Longrightarrow> keeps k k'"
  by (rule keepsI) (auto simp: ikcp_send_def Let_def fragment_loop_view extend_last_view
      simp del: fragment_loop.simps split: if_splits prod.splits)

lemma ikcp_recv_keeps: "ikcp_recv k len = Inr (r, bs, k') \<Longrightarrow> keeps k k'"
proof (cases "k_rcv_queue k = [] \<or> ikcp_peeksize k < 0 \<or> ikcp_peeksize k > \<bar>len\<bar>")
  case False
  assume r: "ikcp_recv k len = Inr (r, bs, k')"
  obtain l x n q where m: "merge_fragments (k_rcv_queue k) = (l, x, n, q)" by (metis prod_cases4)
  define k1 where "k1 = (if len < 0 then k else k\<lparr>k_rcv_queue := q, k_nrcv_que := k_nrcv_que k - word_of_nat n\<rparr>)"
  define k2 where "k2 = move_available k1"
  define k3 where "k3 = (if k_nrcv_que k2 < k_rcv_wnd k2 \<and> k_nrcv_que k \<ge> k_rcv_wnd k then k2\<lparr>k_probe := k_probe k2 OR IKCP_ASK_TELL\<rparr> else k2)"
  have "ikcp_recv k len = (if sint l \<noteq> ikcp_peeksize k then Inl Kcp_assertion else Inr (sint l, x, k3))"
    using False unfolding ikcp_recv_def m by (simp add: Let_def k3_def k2_def k1_def)
  then have "k' = k3" using r by (simp split: if_splits)
  moreover have "keeps k2 k3" by (rule keepsI) (simp_all add: k3_def view_defs)
  moreover have "config k1 = config k" by (simp add: k1_def config_def)
  ultimately show ?thesis by (simp add: keeps_def k2_def frame move_available_def move_loop_settled)
qed (simp add: ikcp_recv_def keeps_refl split: if_splits)

lemma input_segment_keeps: "keeps (fst acc) (fst (input_segment conv cmd frg wnd ts sn una len data acc))"
proof (cases acc)
  case (fields k flag maxack)
  let ?k = "note_una una wnd k"
  have n: "keeps k ?k" by (rule keepsI) (simp_all add: note_una_frame)
  have a: "keeps ?k (ikcp_shrink_buf (ikcp_parse_ack (if itimediff (k_current ?k) ts \<ge> 0 then ikcp_update_ack ?k (itimediff (k_current ?k) ts) else ?k) sn))"
    by (rule keepsI) (simp_all add: frame)
  have p: "keeps ?k (ikcp_ack_push ?k sn ts)" by (rule keepsI) (simp_all add: frame)
  have w: "keeps ?k (?k\<lparr>k_probe := q\<rparr>)" for q by (rule keepsI) (simp_all add: view_defs)
  show ?thesis unfolding fields input_segment_def note_una_def [symmetric] Let_def
    using n keeps_trans [OF n a] keeps_trans [OF n p] keeps_trans [OF keeps_trans [OF n p] parse_data_keeps] keeps_trans [OF n w] by simp
qed

lemma input_loop_keeps: "keeps k (fst acc) \<Longrightarrow> keeps k (fst (snd (input_loop data acc)))"
proof (induction data acc rule: input_loop.induct)
  case (1 data acc)
  show ?case
    by (subst input_loop.simps) (auto simp: 1 keeps_trans [OF 1(2) input_segment_keeps] split: prod.split)
qed

lemma ikcp_input_keeps: "keeps k (snd (ikcp_input k d))"
proof -
  obtain r k1 f a where l: "input_loop d (k, False, 0) = (r, k1, f, a)" by (metis prod_cases4)
  have "keeps k k1" using input_loop_keeps [of k "(k, False, 0)" d] l by (simp add: keeps_refl)
  moreover have "keeps k1 (grow_window u (ikcp_parse_fastack k1 x))" "keeps k1 (grow_window u k1)" for u x
    by (rule keepsI; simp add: frame)+
  ultimately show ?thesis using keeps_trans l by (auto simp: ikcp_input_def keeps_refl)
qed

lemma flush_data_view:
  "flush_data r tm wnd b (k, ch, lo, out) = Inr (b', k', ch', lo', out') \<Longrightarrow> config k' = config k \<and> receiving k' = receiving k"
proof (induction b arbitrary: k ch lo out b')
  case (Cons s b)
  obtain ns t k1 c1 l1 where sc: "schedule_segment r tm s k = (ns, t, k1, c1, l1)" by (metis prod_cases5)
  define u where "u = (if ns then t\<lparr>s_ts := k_current k1, s_wnd := wnd, s_una := k_rcv_nxt k1\<rparr> else t)"
  define k2 where "k2 = (if ns \<and> s_xmit u \<ge> k_dead_link k1 then k1\<lparr>k_state := - 1\<rparr> else k1)"
  obtain out1 b1 where "flush_data r tm wnd b (k2, ch \<or> c1, lo \<or> l1, out1) = Inr (b1, k', ch', lo', out')"
    using Cons.prems sc by (auto simp: Let_def rbind_eq_Inr_iff u_def k2_def)
  from Cons.IH [OF this] show ?case using schedule_same(2,3) [OF sc] by (simp add: k2_def view_defs)
qed simp

lemma ikcp_flush_keeps: "ikcp_flush k = Inr (k', ds) \<Longrightarrow> keeps k k'"
proof (cases "k_updated k = 0")
  case False
  assume f: "ikcp_flush k = Inr (k', ds)"
  define k2 where "k2 = (probe_window (k\<lparr>k_ackcount := 0\<rparr>))\<lparr>k_probe := 0\<rparr>"
  define g where "g = window_loop (send_window k2) (ikcp_wnd_unused k) (k_snd_queue k2) k2"
  obtain r tm out b h ch lo out' where h: "flush_data r tm (ikcp_wnd_unused k) (k_snd_buf g) (g, False, False, out) = Inr (b, h, ch, lo, out')"
      "k' = shrink_window r (send_window k2) ch lo (h\<lparr>k_snd_buf := b\<rparr>)"
    using f False unfolding ikcp_flush_def Let_def k2_def [symmetric] g_def [symmetric] by (auto simp: rbind_eq_Inr_iff)
  have "config k2 = config k" "receiving k2 = receiving k"
    using probe_window_frame(1,2) [of "k\<lparr>k_ackcount := 0\<rparr>"] by (simp_all add: k2_def view_defs)
  moreover have "config (h\<lparr>k_snd_buf := b\<rparr>) = config h" "receiving (h\<lparr>k_snd_buf := b\<rparr>) = receiving h" by (simp_all add: view_defs)
  ultimately show ?thesis using flush_data_view [OF h(1)] window_loop_frame(1,2) [of "send_window k2" "ikcp_wnd_unused k" "k_snd_queue k2" k2]
    unfolding g_def h(2) by (intro keepsI) (simp_all add: shrink_window_frame)
qed (simp add: ikcp_flush_def keeps_refl)

lemma ikcp_update_keeps: "ikcp_update k t = Inr (k', ds) \<Longrightarrow> keeps k k'"
proof -
  assume u: "ikcp_update k t = Inr (k', ds)"
  obtain g where g: "config g = config k" "receiving g = receiving k" "ikcp_update k t = ikcp_flush g \<or> ikcp_update k t = Inr (g, [])"
    using ikcp_update_cases [of k t] by metis
  have "keeps g k'" using g(3) u ikcp_flush_keeps [of g k' ds] by (auto simp: keeps_refl)
  then show ?thesis using keeps_trans [OF keepsI [OF g(1,2)]] by blast
qed

end
