(* ===== verification/Kcp_Link.thy ===== *)
theory Kcp_Link
  imports Kcp_Endpoint "HOL-Library.Sublist"
begin

text \<open>
  Two control blocks of \<open>ikcp.c\<close> that exchange datagrams over a network which may lose, duplicate,
  delay and reorder them. The model of the network is the set of all datagrams a side has ever
  handed to its output callback: any of them may arrive at the other side, at any time and any
  number of times. Whatever the schedule of calls, what a side receives is a prefix of what the
  other side sent, message by message, and nothing is lost between the queues of the two sides.
\<close>

section \<open>The two sides and the network\<close>

record link =
  l_end :: "bool \<Rightarrow> ikcpcb"
  l_net :: "bool \<Rightarrow> bytes set"
  l_sent :: "bool \<Rightarrow> bytes list"
  l_got :: "bool \<Rightarrow> bytes list"

text \<open>The calls that configure a control block before its first use.\<close>

inductive configured :: "u32 \<Rightarrow> ikcpcb \<Rightarrow> bool" for conv where
  create: "configured conv (ikcp_create conv)"
| nodelay: "configured conv k \<Longrightarrow> configured conv (ikcp_nodelay k nd iv rs nc)"
| wndsize: "configured conv k \<Longrightarrow> configured conv (ikcp_wndsize k sw rw)"
| interval: "configured conv k \<Longrightarrow> configured conv (ikcp_interval k iv)"
| setmtu: "configured conv k \<Longrightarrow> mtu \<le> 2 ^ 24 \<Longrightarrow> configured conv (snd (ikcp_setmtu k mtu))"

text \<open>A call at side \<open>b\<close> replaces its control block and may add messages and datagrams.\<close>

definition link_put :: "link \<Rightarrow> bool \<Rightarrow> ikcpcb \<Rightarrow> bytes list \<Rightarrow> bytes list \<Rightarrow> bytes list \<Rightarrow> link" where
  "link_put s b k ms gs ds =
     s\<lparr>l_end := (l_end s)(b := k), l_net := (l_net s)(b := l_net s b \<union> set ds),
       l_sent := (l_sent s)(b := l_sent s b @ ms), l_got := (l_got s)(b := l_got s b @ gs)\<rparr>"

inductive link_step :: "link \<Rightarrow> link \<Rightarrow> bool" where
  send: "length msg < 2 ^ 31 \<Longrightarrow> ikcp_send (l_end s b) msg (int (length msg)) = Inr (r, k) \<Longrightarrow>
    link_step s (link_put s b k (if r = 0 then [msg] else []) [] [])"
| recv: "ikcp_recv (l_end s b) len = Inr (r, bs, k) \<Longrightarrow>
    link_step s (link_put s b k [] (if r \<ge> 0 \<and> len \<ge> 0 then [bs] else []) [])"
| update: "ikcp_update (l_end s b) t = Inr (k, ds) \<Longrightarrow> link_step s (link_put s b k [] [] ds)"
| flush: "ikcp_flush (l_end s b) = Inr (k, ds) \<Longrightarrow> link_step s (link_put s b k [] [] ds)"
| input: "d \<in> l_net s (\<not> b) \<Longrightarrow> link_step s (link_put s b (snd (ikcp_input (l_end s b) d)) [] [] [])"

inductive linked :: "u32 \<Rightarrow> link \<Rightarrow> bool" for conv where
  start: "(\<And>b. configured conv (e b)) \<Longrightarrow>
    linked conv \<lparr>l_end = e, l_net = (\<lambda>b. {}), l_sent = (\<lambda>b. []), l_got = (\<lambda>b. [])\<rparr>"
| step: "linked conv s \<Longrightarrow> link_step s t \<Longrightarrow> linked conv t"

text \<open>
  The number of segments a side has used. Sequence numbers are compared as signed differences of
  32-bit words, so the properties are stated for connections with fewer than \<open>2 ^ 31\<close> of them.
\<close>

definition segments :: "link \<Rightarrow> bool \<Rightarrow> nat" where
  "segments s b = sum_list (map (\<lambda>msg. fragment_count (k_mss (l_end s b)) (int (length msg))) (l_sent s b))"

definition in_range :: "link \<Rightarrow> bool" where
  "in_range s \<longleftrightarrow> segments s True < seq_bound \<and> segments s False < seq_bound"

lemma in_range_side: "in_range s \<Longrightarrow> segments s b < seq_bound"
  by (cases b) (simp_all add: in_range_def)

lemma link_put_simps [simp]:
  "l_end (link_put s b k ms gs ds) = (l_end s)(b := k)" "l_net (link_put s b k ms gs ds) = (l_net s)(b := l_net s b \<union> set ds)"
  "l_sent (link_put s b k ms gs ds) = (l_sent s)(b := l_sent s b @ ms)" "l_got (link_put s b k ms gs ds) = (l_got s)(b := l_got s b @ gs)"
  by (simp_all add: link_put_def)

lemma link_step_put:
  assumes "link_step s t"
  obtains b k ms gs ds where "t = link_put s b k ms gs ds" "keeps (l_end s b) k" "\<forall>msg \<in> set ms. length msg < 2 ^ 31"
  using assms
proof cases
  case (send msg b r k)
  from that [OF send(1) ikcp_send_keeps [OF send(3)]] send(2) show ?thesis by simp
next
  case (recv b len r bs k)
  from that [OF recv(1) ikcp_recv_keeps [OF recv(2)]] show ?thesis by simp
next
  case (update b tm k ds)
  from that [OF update(1) ikcp_update_keeps [OF update(2)]] show ?thesis by simp
next
  case (flush b k ds)
  from that [OF flush(1) ikcp_flush_keeps [OF flush(2)]] show ?thesis by simp
next
  case (input d b)
  from that [OF input(1) ikcp_input_keeps] show ?thesis by simp
qed

lemma in_range_step: "link_step s t \<Longrightarrow> in_range t \<Longrightarrow> in_range s"
proof -
  assume t: "link_step s t" "in_range t"
  then obtain b k ms gs ds where p: "t = link_put s b k ms gs ds" "config k = config (l_end s b)"
    using link_step_put unfolding keeps_def by metis
  then have "segments s x \<le> segments t x" for x using view_fields(1) [OF p(2)] by (simp add: segments_def)
  then show ?thesis using t(2) unfolding in_range_def by (meson le_less_trans)
qed

section \<open>Longer streams\<close>

lemma carries_append: "carries S i s \<Longrightarrow> carries (S @ T) i s"
  by (simp add: carries_def nth_append)

lemma arrived_append: "arrived S m b i \<Longrightarrow> arrived (S @ T) m b i"
  using carries_append [of S i _ T] unfolding arrived_def by blast

lemma receiver_append: "receiver S c m k \<Longrightarrow> receiver (S @ T) c m k"
proof -
  assume r: "receiver S c m k"
  then obtain js where j: "sorted_wrt (<) js" "\<forall>j \<in> set js. m \<le> j" "list_all2 (carries S) js (k_rcv_buf k)"
    by (auto simp: receiver_def receiver_with_def)
  have "list_all2 (carries S) xs ys \<Longrightarrow> list_all2 (carries (S @ T)) xs ys" for xs ys
    by (erule list_all2_mono) (rule carries_append)
  then show ?thesis using r j unfolding receiver_def receiver_with_def by auto
qed

lemma endpoint_append:
  assumes "endpoint S n X R c m k" "\<And>i. X i \<Longrightarrow> Y i"
  shows "endpoint S n Y (R @ T) c m k"
proof -
  have p: "\<forall>a \<in> set (pending k). \<exists>i < length R. fst a = word_of_nat i \<and> arrived R m (k_rcv_buf k) i"
    using assms(1) unfolding endpoint_def by (elim conjE)
  have "\<exists>i < length (R @ T). fst a = word_of_nat i \<and> arrived (R @ T) m (k_rcv_buf k) i" if "a \<in> set (pending k)" for a
    using bspec [OF p that] arrived_append by (metis length_append trans_less_add1)
  moreover have "sender S n Y k" using endpointD(1) [OF assms(1)] assms(2) by (rule sender_mono)
  moreover have "receiver (R @ T) c m k" using endpointD(2) [OF assms(1)] by (rule receiver_append)
  ultimately show ?thesis using assms(1) by (simp add: endpoint_def)
qed

lemma incoming_append:
  assumes "incoming conv S X R s" "\<And>i. X i \<Longrightarrow> Y i"
  shows "incoming conv (S @ T) Y (R @ U) s"
proof -
  obtain u where "u \<le> length S" "s_una s = word_of_nat u" "\<forall>j < u. X j" using assms(1) by (auto simp: incoming_def)
  then have "\<exists>u \<le> length (S @ T). s_una s = word_of_nat u \<and> (\<forall>j < u. Y j)" using assms(2) by (intro exI [of _ u]) simp
  moreover have "\<exists>i < length (S @ T). s_sn s = word_of_nat i \<and> Y i" if "\<exists>i < length S. s_sn s = word_of_nat i \<and> X i"
    using that assms(2) by (metis length_append trans_less_add1)
  ultimately show ?thesis using assms(1) carries_append [of R _ s U] unfolding incoming_def by blast
qed

lemma datagram_append:
  assumes "datagram (incoming conv S X R) d" "\<And>i. X i \<Longrightarrow> Y i"
  shows "datagram (incoming conv (S @ T) Y (R @ U)) d"
proof -
  have "incoming conv (S @ T) Y (R @ U) s" if "incoming conv S X R s" for s using incoming_append [OF that] assms(2) by blast
  then show ?thesis using assms(1) unfolding datagram_def by blast
qed

section \<open>The invariant\<close>

text \<open>
  For each side: \<open>bs b\<close> are the fragments of the messages it sent, \<open>n b\<close> of its segments have a
  number, \<open>m b\<close> segments of the other side have arrived in order, and \<open>c b\<close> of these are consumed.
\<close>

definition link_side :: "u32 \<Rightarrow> link \<Rightarrow> (bool \<Rightarrow> payload list list) \<Rightarrow> (bool \<Rightarrow> nat) \<Rightarrow> (bool \<Rightarrow> nat) \<Rightarrow> bool \<Rightarrow> bool" where
  "link_side conv s bs n m b \<longleftrightarrow>
     (let k = l_end s b; S = concat (bs b); R = concat (bs (\<not> b));
          X = arrived S (m (\<not> b)) (k_rcv_buf (l_end s (\<not> b)))
      in config_ok k \<and> k_conv k = conv \<and> list_all2 (frags (k_mss k)) (l_sent s b) (bs b)
         \<and> endpoint S (n b) X R (length (concat (take (length (l_got s b)) (bs (\<not> b))))) (m b) k
         \<and> prefix (l_got s b) (l_sent s (\<not> b))
         \<and> (\<forall>d \<in> l_net s b. datagram (incoming conv R (arrived R (m b) (k_rcv_buf k)) S) d))"

definition link_inv :: "u32 \<Rightarrow> link \<Rightarrow> bool" where
  "link_inv conv s \<longleftrightarrow> (\<exists>bs n m. \<forall>b. link_side conv s bs n m b)"

lemma link_sideD:
  assumes "link_side conv s bs n m b"
  shows "config_ok (l_end s b)" "k_conv (l_end s b) = conv" "list_all2 (frags (k_mss (l_end s b))) (l_sent s b) (bs b)"
    "endpoint (concat (bs b)) (n b) (arrived (concat (bs b)) (m (\<not> b)) (k_rcv_buf (l_end s (\<not> b)))) (concat (bs (\<not> b)))
       (length (concat (take (length (l_got s b)) (bs (\<not> b))))) (m b) (l_end s b)"
    "prefix (l_got s b) (l_sent s (\<not> b))"
    "d \<in> l_net s b \<Longrightarrow> datagram (incoming conv (concat (bs (\<not> b))) (arrived (concat (bs (\<not> b))) (m b) (k_rcv_buf (l_end s b))) (concat (bs b))) d"
  using assms by (simp_all add: link_side_def Let_def)

lemma frags_length: "list_all2 (frags mss) ms bs \<Longrightarrow> length (concat bs) = sum_list (map (\<lambda>msg. fragment_count mss (int (length msg))) ms)"
  by (induction ms bs rule: list_all2_induct) (simp_all add: frags_def)

lemma frags_concat: "list_all2 (frags mss) ms bs \<Longrightarrow> concat (map snd (concat bs)) = concat ms"
  by (induction ms bs rule: list_all2_induct) (simp_all add: frags_def)

lemma frags_mem: "list_all2 (frags mss) ms bs \<Longrightarrow> fs \<in> set bs \<Longrightarrow> \<exists>msg. frags mss msg fs"
  by (metis in_set_conv_nth list_all2_nthD2)

lemma frags_small: "list_all2 (frags mss) ms bs \<Longrightarrow> small_frags (concat bs)"
proof -
  assume a: "list_all2 (frags mss) ms bs"
  have "unat (fst p) < 256" if p: "fs \<in> set bs" "p \<in> set fs" for p fs
    using frags_mem [OF a p(1)] counted_small [OF _ p(2)] by (auto simp: frags_def)
  then show ?thesis by (auto simp: small_frags_def)
qed

lemma frags_fit: "list_all2 (frags mss) ms bs \<Longrightarrow> \<forall>p \<in> set (concat bs). length (snd p) \<le> unat mss"
proof -
  assume a: "list_all2 (frags mss) ms bs"
  have "length (snd p) \<le> unat mss" if p: "fs \<in> set bs" "p \<in> set fs" for p fs
    using frags_mem [OF a p(1)] p(2) by (auto simp: frags_def)
  then show ?thesis by auto
qed

lemma link_side_bound: "link_side conv s bs n m b \<Longrightarrow> in_range s \<Longrightarrow> length (concat (bs b)) < seq_bound"
  using frags_length [OF link_sideD(3)] in_range_side by (simp add: segments_def)

lemma link_update:
  assumes inv: "\<And>b. link_side conv s bs n m b" and k: "config k = config (l_end s b)"
    and e: "endpoint (concat (bs b @ fss)) n' (arrived (concat (bs b)) (m (\<not> b)) (k_rcv_buf (l_end s (\<not> b)))) (concat (bs (\<not> b)))
       (length (concat (take (length (l_got s b @ gs)) (bs (\<not> b))))) m' k"
    and f: "list_all2 (frags (k_mss (l_end s b))) ms fss"
    and a: "\<And>j. arrived (concat (bs (\<not> b))) (m b) (k_rcv_buf (l_end s b)) j \<Longrightarrow> arrived (concat (bs (\<not> b))) m' (k_rcv_buf k) j"
    and g: "prefix (l_got s b @ gs) (l_sent s (\<not> b))"
    and d: "\<And>d. d \<in> set ds \<Longrightarrow> datagram (incoming conv (concat (bs (\<not> b))) (arrived (concat (bs (\<not> b))) m' (k_rcv_buf k)) (concat (bs b @ fss))) d"
  shows "link_inv conv (link_put s b k ms gs ds)"
proof -
  let ?s = "link_put s b k ms gs ds" and ?bs = "bs(b := bs b @ fss)" and ?n = "n(b := n')" and ?m = "m(b := m')"
  note I = link_sideD [OF inv [of b]] and J = link_sideD [OF inv [of "\<not> b"]]
  have "link_side conv ?s ?bs ?n ?m b"
  proof -
    have "config_ok k" "k_conv k = conv" "k_mss k = k_mss (l_end s b)" using I(1,2) config_ok_cong [OF k] view_fields(1) [OF k] by auto
    moreover have "endpoint (concat (bs b @ fss)) n' (arrived (concat (bs b @ fss)) (m (\<not> b)) (k_rcv_buf (l_end s (\<not> b))))
       (concat (bs (\<not> b))) (length (concat (take (length (l_got s b @ gs)) (bs (\<not> b))))) m' k"
      using endpoint_append [OF e, where T = "[]" and Y = "arrived (concat (bs b @ fss)) (m (\<not> b)) (k_rcv_buf (l_end s (\<not> b)))"]
        arrived_append by simp
    moreover have "datagram (incoming conv (concat (bs (\<not> b))) (arrived (concat (bs (\<not> b))) m' (k_rcv_buf k)) (concat (bs b @ fss))) d"
      if "d \<in> l_net s b \<union> set ds" for d
      using that d datagram_append [OF I(6), where T = "[]" and U = "concat fss" and Y = "arrived (concat (bs (\<not> b))) m' (k_rcv_buf k)"] a
      by auto
    ultimately show ?thesis using I(3) f g by (simp add: link_side_def Let_def list_all2_appendI)
  qed
  moreover have "link_side conv ?s ?bs ?n ?m (\<not> b)"
  proof -
    have l: "length (l_got s (\<not> b)) \<le> length (bs b)"
      using prefix_length_le [OF J(5)] list_all2_lengthD [OF I(3)] by simp
    have "endpoint (concat (bs (\<not> b))) (n (\<not> b)) (arrived (concat (bs (\<not> b))) m' (k_rcv_buf k)) (concat (bs b) @ concat fss)
       (length (concat (take (length (l_got s (\<not> b))) (bs b)))) (m (\<not> b)) (l_end s (\<not> b))"
      using endpoint_append [OF J(4), where T = "concat fss" and Y = "arrived (concat (bs (\<not> b))) m' (k_rcv_buf k)"] a by simp
    moreover have "datagram (incoming conv (concat (bs b) @ concat fss) (arrived (concat (bs b) @ concat fss) (m (\<not> b)) (k_rcv_buf (l_end s (\<not> b)))) (concat (bs (\<not> b)))) d"
      if "d \<in> l_net s (\<not> b)" for d
      using datagram_append [OF J(6) [OF that], where T = "concat fss" and U = "[]"
          and Y = "arrived (concat (bs b) @ concat fss) (m (\<not> b)) (k_rcv_buf (l_end s (\<not> b)))"] arrived_append by simp
    ultimately show ?thesis using J(1,2,3,5) l by (simp add: link_side_def Let_def)
  qed
  ultimately have "link_side conv ?s ?bs ?n ?m x" for x by (cases b; cases x) simp_all
  then show ?thesis unfolding link_inv_def by blast
qed

section \<open>Every call keeps the invariant\<close>

lemma setmtu_config_ok:
  assumes "config_ok k" "mtu \<le> 2 ^ 24"
  shows "config_ok (snd (ikcp_setmtu k mtu))"
proof (cases "mtu < 50")
  case False
  define w :: u32 where "w = word_of_int mtu"
  have "uint w = mtu" using False assms(2) unfolding w_def by (subst uint_word_of_int_eq) (simp add: take_bit_int_eq_self)
  then have u: "50 \<le> unat w" "unat w \<le> 2 ^ 24" using False assms(2) unfolding unat_eq_nat_uint by simp_all
  have "unat w + unat (24 :: u32) < 2 ^ LENGTH(32)" using u(2) by simp
  then have a: "unat (w + 24) = unat w + 24" unfolding unat_add_lem by simp
  have "unat (w + 24) * unat (3 :: u32) < 2 ^ LENGTH(32)" unfolding a using u(2) by simp
  then have "unat ((w + 24) * 3) = unat (w + 24) * unat (3 :: u32)" by (rule unat_mult_lem [THEN iffD1])
  then have "unat ((w + 24) * 3) = 3 * (unat w + 24)" by (simp only: a mult.commute unat_numeral) simp
  then show ?thesis using assms(1) False u
    by (simp add: config_ok_def ikcp_setmtu_def buffer_size_def kcp_constants flip: w_def)
qed (use assms(1) in \<open>simp add: ikcp_setmtu_def\<close>)

lemma configured_ok:
  "configured conv k \<Longrightarrow> config_ok k \<and> k_conv k = conv \<and> sending k = (0, [], []) \<and> receiving k = (0, [], [], 0) \<and> acks k = ([], 0, 0)"
proof (induction rule: configured.induct)
  case create
  then show ?case by (simp add: config_ok_def view_defs ikcp_create_def buffer_size_def kcp_constants)
next
  case (nodelay k nd iv rs nc)
  then show ?case by (simp add: ikcp_nodelay_def Let_def config_ok_def view_defs)
next
  case (wndsize k sw rw)
  then show ?case by (simp add: ikcp_wndsize_def Let_def config_ok_def view_defs)
next
  case (interval k iv)
  then show ?case by (simp add: ikcp_interval_def config_ok_def view_defs)
next
  case (setmtu k mtu)
  then show ?case using setmtu_config_ok [of k mtu] by (simp add: ikcp_setmtu_def view_defs)
qed

lemma fresh_endpoint: "configured conv k \<Longrightarrow> endpoint [] 0 X [] 0 0 k"
  using configured_ok [of conv k]
  by (simp add: endpoint_def sender_def receiver_def receiver_with_def acks_ok_def pending_def buffered_def view_defs)

lemma next_message_unique:
  assumes "next_message R c fs" "next_message R c gs"
  shows "fs = gs"
proof -
  obtain p fs' r q gs' r' where f: "fs = p # fs'" "gs = q # gs'" "drop c R = fs @ r" "drop c R = gs @ r'"
    using assms by (cases fs; cases gs) (auto simp: next_message_def counted_def)
  have c: "counted (p # fs')" "counted (q # gs')" using assms f by (simp_all add: next_message_def)
  have "p = q" using f by simp
  then have "(word_of_nat (length fs') :: u32) = word_of_nat (length gs')" using counted_hd(1) c by metis
  moreover have "length fs' < 2 ^ 32" "length gs' < 2 ^ 32" using c by (simp_all add: counted_def)
  ultimately have "length fs = length gs" using word_of_nat_inj_32 f by simp
  then show ?thesis using f by simp
qed

lemma next_message_nth:
  assumes "list_all2 (frags mss) ms bs" "g < length bs"
  shows "next_message (concat bs) (length (concat (take g bs))) (bs ! g)"
proof -
  have "concat bs = concat (take g bs) @ bs ! g @ concat (drop (Suc g) bs)"
    using id_take_nth_drop [OF assms(2)] by (metis concat.simps(2) concat_append)
  then have "drop (length (concat (take g bs))) (concat bs) = bs ! g @ concat (drop (Suc g) bs)" by (metis append_eq_conv_conj)
  moreover have "counted (bs ! g)" using list_all2_nthD2 [OF assms] by (simp add: frags_def)
  ultimately show ?thesis by (auto simp: next_message_def)
qed

lemma link_next:
  assumes inv: "\<And>b. link_side conv s bs n m b" and q: "k_rcv_queue (l_end s b) \<noteq> []"
  shows "length (l_got s b) < length (bs (\<not> b))"
proof (rule ccontr)
  assume "\<not> ?thesis"
  then have "receiver (concat (bs (\<not> b))) (length (concat (bs (\<not> b)))) (m b) (l_end s b)"
    using endpointD(2) [OF link_sideD(4) [OF inv [of b]]] by simp
  then show False using q by (auto simp: receiver_def receiver_with_def)
qed

lemma link_send:
  assumes inv: "\<And>b. link_side conv s bs n m b" and msg: "length msg < 2 ^ 31" and r: "ikcp_send (l_end s b) msg (int (length msg)) = Inr (r, k)"
  shows "link_inv conv (link_put s b k (if r = 0 then [msg] else []) [] [])"
proof -
  note I = link_sideD [OF inv [of b]]
  have k: "config k = config (l_end s b)" "receiving k = receiving (l_end s b)"
    and e: "if r = 0 then \<exists>fs. frags (k_mss (l_end s b)) msg fs \<and> endpoint (concat (bs b) @ fs) (n b)
        (arrived (concat (bs b)) (m (\<not> b)) (k_rcv_buf (l_end s (\<not> b)))) (concat (bs (\<not> b)))
        (length (concat (take (length (l_got s b)) (bs (\<not> b))))) (m b) k else k = l_end s b"
    using ikcp_send_ok [OF I(4,1) msg] r by auto
  have b: "k_rcv_buf k = k_rcv_buf (l_end s b)" using view_fields(2) [OF k(2)] by simp
  show ?thesis
  proof (cases "r = 0")
    case True
    then obtain fs where "frags (k_mss (l_end s b)) msg fs" "endpoint (concat (bs b @ [fs])) (n b)
        (arrived (concat (bs b)) (m (\<not> b)) (k_rcv_buf (l_end s (\<not> b)))) (concat (bs (\<not> b)))
        (length (concat (take (length (l_got s b @ [])) (bs (\<not> b))))) (m b) k" using e by auto
    with link_update [OF inv k(1) this(2), of "[msg]" "[]"] True I(5) b show ?thesis by simp
  next
    case False
    then show ?thesis using link_update [OF inv k(1), of "[]" "n b" "[]" "m b" "[]" "[]"] e I(4,5) by simp
  qed
qed

lemma endpoint_receive:
  assumes e: "endpoint S n X R c m k" and k: "config k' = config k" "acks k' = acks k" "sending k' = sending k"
    and r: "receiver R c' m' k'" and a: "\<And>j. arrived R m (k_rcv_buf k) j \<Longrightarrow> arrived R m' (k_rcv_buf k') j"
  shows "endpoint S n X R c' m' k'"
proof -
  have p: "\<forall>a \<in> set (pending k). \<exists>i < length R. fst a = word_of_nat i \<and> arrived R m (k_rcv_buf k) i"
    using e unfolding endpoint_def by (elim conjE)
  have "\<exists>i < length R. fst x = word_of_nat i \<and> arrived R m' (k_rcv_buf k') i" if "x \<in> set (pending k)" for x
    using bspec [OF p that] a by blast
  moreover have "sender S n X k'" using endpointD(1) [OF e] sender_cong [OF k(1,3)] by simp
  ultimately show ?thesis using e r acks_cong [OF k(2)] by (simp add: endpoint_def)
qed

lemma link_recv:
  assumes inv: "\<And>b. link_side conv s bs n m b" and rg: "in_range s" and r: "ikcp_recv (l_end s b) len = Inr (r, x, k)"
  shows "link_inv conv (link_put s b k [] (if r \<ge> 0 \<and> len \<ge> 0 then [x] else []) [])"
proof -
  note I = link_sideD [OF inv [of b]] and J = link_sideD [OF inv [of "\<not> b"]]
  let ?g = "length (l_got s b)" and ?B = "bs (\<not> b)"
  let ?R = "concat ?B" and ?c = "length (concat (take ?g ?B))"
  have nx: "next_message ?R ?c (?B ! ?g)" if "?g < length ?B" using next_message_nth [OF J(3) that] .
  have nq: "k_rcv_queue (l_end s b) = [] \<or> (\<exists>fs. next_message ?R ?c fs)" using link_next [OF inv, of b] nx by blast
  note ok = ikcp_recv_ok [OF endpointD(2) [OF I(4)] link_side_bound [OF inv rg] nq, where len = len]
  obtain r' x' k' where r': "ikcp_recv (l_end s b) len = Inr (r', x', k')" "config k' = config (l_end s b)" "acks k' = acks (l_end s b)" "sending k' = sending (l_end s b)"
    "r' < 0 \<and> k' = l_end s b \<or> r' \<ge> 0 \<and> (\<exists>fs. \<exists>m' \<ge> m b. next_message ?R ?c fs \<and> x' = concat (map snd fs)
        \<and> receiver ?R (if len < 0 then ?c else ?c + length fs) m' k' \<and> (\<forall>j. arrived ?R (m b) (k_rcv_buf (l_end s b)) j \<longrightarrow> arrived ?R m' (k_rcv_buf k') j))"
    using ok by (elim exE conjE)
  have "r' = r" "x' = x" "k' = k" using r r'(1) by simp_all
  note k = r'(2,3,4) [unfolded this] and z = r'(5) [unfolded this]
  from z show ?thesis
  proof (elim disjE conjE exE)
    assume "r < 0" "k = l_end s b"
    then show ?thesis using link_update [OF inv k(1), of "[]" "n b" "[]" "m b" "[]" "[]"] I(4,5) by simp
  next
    fix fs m'
    assume r0: "r \<ge> 0" and f: "next_message ?R ?c fs" "x = concat (map snd fs)"
      and rc: "receiver ?R (if len < 0 then ?c else ?c + length fs) m' k"
      and a: "\<forall>j. arrived ?R (m b) (k_rcv_buf (l_end s b)) j \<longrightarrow> arrived ?R m' (k_rcv_buf k) j"
    note e = endpoint_receive [OF I(4) k rc mp [OF spec [OF a]]]
    have g: "?g < length ?B"
    proof (rule ccontr)
      assume "\<not> ?g < length ?B"
      then show False using f(1) by (auto simp: next_message_def counted_def)
    qed
    have fs: "fs = ?B ! ?g" using next_message_unique [OF f(1) nx [OF g]] .
    have x: "x = l_sent s (\<not> b) ! ?g" using list_all2_nthD2 [OF J(3) g] f(2) fs by (simp add: frags_def)
    have "?g < length (l_sent s (\<not> b))" using g list_all2_lengthD [OF J(3)] by simp
    then have p: "prefix (l_got s b @ [x]) (l_sent s (\<not> b))" using I(5) x append_one_prefix by blast
    have c: "?c + length fs = length (concat (take (length (l_got s b @ [x])) ?B))"
      using g fs by (simp add: take_Suc_conv_app_nth)
    show ?thesis
    proof (cases "len < 0")
      case True
      then show ?thesis using link_update [OF inv k(1), of "[]" "n b" "[]" m' "[]" "[]"] e a I(5) by simp
    next
      case False
      then show ?thesis using link_update [OF inv k(1), of "[]" "n b" "[x]" m' "[]" "[]"] e a p c r0 by simp
    qed
  qed
qed

lemma link_output:
  assumes inv: "\<And>b. link_side conv s bs n m b"
    and f: "\<exists>k' ds' n'. r = Inr (k', ds') \<and> endpoint (concat (bs b)) n' (arrived (concat (bs b)) (m (\<not> b)) (k_rcv_buf (l_end s (\<not> b))))
       (concat (bs (\<not> b))) (length (concat (take (length (l_got s b)) (bs (\<not> b))))) (m b) k' \<and> config k' = config (l_end s b)
       \<and> receiving k' = receiving (l_end s b) \<and> (\<forall>d \<in> set ds'. datagram (outgoing_ok (l_end s b) (concat (bs (\<not> b))) (m b) (concat (bs b))) d)"
    and r: "r = Inr (k, ds)"
  shows "link_inv conv (link_put s b k [] [] ds)"
proof -
  note I = link_sideD [OF inv [of b]]
  obtain n' where e: "endpoint (concat (bs b)) n' (arrived (concat (bs b)) (m (\<not> b)) (k_rcv_buf (l_end s (\<not> b))))
       (concat (bs (\<not> b))) (length (concat (take (length (l_got s b)) (bs (\<not> b))))) (m b) k" "config k = config (l_end s b)"
       "receiving k = receiving (l_end s b)" "\<forall>d \<in> set ds. datagram (outgoing_ok (l_end s b) (concat (bs (\<not> b))) (m b) (concat (bs b))) d"
    using f r by auto
  have "k_rcv_buf k = k_rcv_buf (l_end s b)" using view_fields(2) [OF e(3)] by simp
  then show ?thesis using link_update [OF inv e(2), of "[]" n' "[]" "m b" "[]" ds] e(1,4) I(2,5) by simp
qed

lemma link_input:
  assumes inv: "\<And>b. link_side conv s bs n m b" and rg: "in_range s" and d: "d \<in> l_net s (\<not> b)"
  shows "link_inv conv (link_put s b (snd (ikcp_input (l_end s b) d)) [] [] [])"
proof -
  note I = link_sideD [OF inv [of b]] and J = link_sideD [OF inv [of "\<not> b"]]
  have "datagram (incoming (k_conv (l_end s b)) (concat (bs b)) (arrived (concat (bs b)) (m (\<not> b)) (k_rcv_buf (l_end s (\<not> b)))) (concat (bs (\<not> b)))) d"
    using J(6) [OF d] I(2) by simp
  from ikcp_input_ok [OF I(4) this link_side_bound [OF inv rg] link_side_bound [OF inv rg] frags_small [OF J(3)]]
  obtain m' where "endpoint (concat (bs b)) (n b) (arrived (concat (bs b)) (m (\<not> b)) (k_rcv_buf (l_end s (\<not> b))))
       (concat (bs (\<not> b))) (length (concat (take (length (l_got s b)) (bs (\<not> b))))) m' (snd (ikcp_input (l_end s b) d))"
      "\<forall>j. arrived (concat (bs (\<not> b))) (m b) (k_rcv_buf (l_end s b)) j
         \<longrightarrow> arrived (concat (bs (\<not> b))) m' (k_rcv_buf (snd (ikcp_input (l_end s b) d))) j" by blast
  then show ?thesis using link_update [OF inv ikcp_input_keeps [unfolded keeps_def, THEN conjunct1], where b = b and fss = "[]" and n' = "n b" and gs = "[]" and m' = m' and ms = "[]" and ds = "[]"] I(5) by simp
qed

lemma link_inv_step: "link_inv conv s \<Longrightarrow> in_range s \<Longrightarrow> link_step s t \<Longrightarrow> link_inv conv t"
proof -
  assume "link_inv conv s" and rg: "in_range s" and t: "link_step s t"
  then obtain bs n m where inv: "\<And>b. link_side conv s bs n m b" by (auto simp: link_inv_def)
  from t show ?thesis
  proof cases
    case (send msg b r k)
    show ?thesis unfolding send(1) by (rule link_send [OF inv send(2,3)])
  next
    case (recv b len r x k)
    show ?thesis unfolding recv(1) by (rule link_recv [OF inv rg recv(2)])
  next
    case (update b tm k ds)
    note I = link_sideD [OF inv [of b]]
    show ?thesis unfolding update(1) by (rule link_output [OF inv ikcp_update_ok [OF I(4,1) frags_fit [OF I(3)]] update(2)])
  next
    case (flush b k ds)
    note I = link_sideD [OF inv [of b]]
    show ?thesis unfolding flush(1) by (rule link_output [OF inv ikcp_flush_ok [OF I(4,1) frags_fit [OF I(3)]] flush(2)])
  next
    case (input d b)
    show ?thesis unfolding input(1) by (rule link_input [OF inv rg input(2)])
  qed
qed

lemma linked_inv: "linked conv s \<Longrightarrow> in_range s \<Longrightarrow> link_inv conv s"
proof (induction rule: linked.induct)
  case (start e)
  have "link_side conv \<lparr>l_end = e, l_net = (\<lambda>b. {}), l_sent = (\<lambda>b. []), l_got = (\<lambda>b. [])\<rparr> (\<lambda>b. []) (\<lambda>b. 0) (\<lambda>b. 0) b" for b
    using configured_ok [OF start(1)] fresh_endpoint [OF start(1)] by (simp add: link_side_def)
  then show ?case unfolding link_inv_def by blast
next
  case (step s t)
  then show ?case using link_inv_step in_range_step by blast
qed

lemma linkedE:
  assumes "linked conv s" "in_range s"
  obtains bs n m where "\<And>b. link_side conv s bs n m b" "\<And>b. length (concat (bs b)) < seq_bound"
proof -
  obtain bs n m where inv: "\<And>b. link_side conv s bs n m b" using linked_inv [OF assms] by (auto simp: link_inv_def)
  from that [OF inv link_side_bound [OF inv assms(2)]] show ?thesis .
qed

section \<open>A sample connection\<close>

text \<open>
  A message of three bytes goes from one side to the other with the smallest datagrams, and its
  acknowledgement comes back. The congestion window is empty at first, so the segment leaves with
  the second flush. On the narrow connection the receiver accepts one segment at
  a time and the message has two.
\<close>

definition sample_end :: ikcpcb where "sample_end = snd (ikcp_setmtu (ikcp_create 7) 50)"
definition sample_sent :: ikcpcb where "sample_sent = snd (projr (ikcp_send sample_end [1, 2, 3] 3))"
definition sample_updated :: ikcpcb where "sample_updated = fst (projr (ikcp_update sample_sent 0))"
definition sample_flushed :: ikcpcb where "sample_flushed = fst (projr (ikcp_flush sample_updated))"
definition sample_push :: bytes where "sample_push = hd (snd (projr (ikcp_flush sample_updated)))"
definition sample_pushed :: ikcpcb where "sample_pushed = snd (ikcp_input sample_end sample_push)"
definition sample_answered :: ikcpcb where "sample_answered = fst (projr (ikcp_update sample_pushed 0))"
definition sample_ack :: bytes where "sample_ack = hd (snd (projr (ikcp_update sample_pushed 0)))"
definition sample_acked :: ikcpcb where "sample_acked = snd (ikcp_input sample_flushed sample_ack)"
definition sample_read :: ikcpcb where "sample_read = snd (snd (projr (ikcp_recv sample_answered 8)))"

definition sample_long :: ikcpcb where "sample_long = snd (projr (ikcp_send sample_end (replicate 27 0) 27))"

definition sample_start :: "ikcpcb \<Rightarrow> ikcpcb \<Rightarrow> link" where
  "sample_start x y = \<lparr>l_end = (\<lambda>b. if b then x else y), l_net = (\<lambda>b. {}), l_sent = (\<lambda>b. []), l_got = (\<lambda>b. [])\<rparr>"

definition sample_pending :: link where
  "sample_pending = link_put (link_put (link_put (sample_start sample_end sample_end) True sample_sent [[1, 2, 3]] [] [])
     True sample_updated [] [] []) True sample_flushed [] [] [sample_push]"

definition sample_drained :: link where
  "sample_drained = link_put (link_put (link_put sample_pending False sample_pushed [] [] []) False sample_answered [] [] [sample_ack])
     True sample_acked [] [] []"

definition sample_done :: link where
  "sample_done = link_put sample_drained False sample_read [] [[1, 2, 3]] []"

definition sample_narrow :: link where
  "sample_narrow = link_put (sample_start sample_end (ikcp_wndsize sample_end 0 1)) True sample_long [replicate 27 0] [] []"

lemma sample_calls:
  "ikcp_send sample_end [1, 2, 3] 3 = Inr (0, sample_sent)"
  "ikcp_update sample_sent 0 = Inr (sample_updated, [])"
  "ikcp_flush sample_updated = Inr (sample_flushed, [sample_push])"
  "ikcp_update sample_pushed 0 = Inr (sample_answered, [sample_ack])"
  "ikcp_recv sample_answered 8 = Inr (3, [1, 2, 3], sample_read)"
  "k_snd_queue sample_acked = []" "k_snd_buf sample_acked = []" "k_mss sample_acked = 26" "k_rcv_wnd sample_answered = 32"
  "ikcp_send sample_end (replicate 27 0) 27 = Inr (0, sample_long)" "k_mss sample_long = 26" "k_mss sample_flushed = 26"
  by code_simp+

lemma sample_configured: "configured 7 sample_end" "configured 7 (ikcp_wndsize sample_end 0 1)"
  by (auto simp: sample_end_def intro!: configured.intros)

lemma linked_start: "configured conv x \<Longrightarrow> configured conv y \<Longrightarrow> linked conv (sample_start x y)"
  unfolding sample_start_def by (rule linked.start) simp

lemma sample_pending_linked: "linked 7 sample_pending"
proof -
  note s0 = linked_start [OF sample_configured(1,1)]
  have s1: "linked 7 (link_put (sample_start sample_end sample_end) True sample_sent [[1, 2, 3]] [] [])"
    using linked.step [OF s0 link_step.send [of "[1, 2, 3]" _ True 0 sample_sent]] sample_calls(1) by (simp add: sample_start_def)
  have s2: "linked 7 (link_put (link_put (sample_start sample_end sample_end) True sample_sent [[1, 2, 3]] [] []) True sample_updated [] [] [])"
    by (rule linked.step [OF s1 link_step.update [of _ _ 0]]) (simp add: sample_calls)
  show ?thesis unfolding sample_pending_def
    by (rule linked.step [OF s2 link_step.flush]) (simp add: sample_calls)
qed

lemma sample_drained_linked: "linked 7 sample_drained"
proof -
  have s1: "linked 7 (link_put sample_pending False sample_pushed [] [] [])"
    using linked.step [OF sample_pending_linked link_step.input [of sample_push _ False]]
    by (simp add: sample_pending_def sample_pushed_def sample_start_def)
  have s2: "linked 7 (link_put (link_put sample_pending False sample_pushed [] [] []) False sample_answered [] [] [sample_ack])"
    by (rule linked.step [OF s1 link_step.update [of _ _ 0]]) (simp add: sample_calls)
  show ?thesis using linked.step [OF s2 link_step.input [of sample_ack _ True]]
    by (simp add: sample_drained_def sample_pending_def sample_acked_def)
qed

lemma sample_done_linked: "linked 7 sample_done"
  using linked.step [OF sample_drained_linked link_step.recv [of _ False 8 3 "[1, 2, 3]" sample_read]] sample_calls(5)
  by (simp add: sample_done_def sample_drained_def)

lemma sample_narrow_linked: "linked 7 sample_narrow"
  using linked.step [OF linked_start [OF sample_configured] link_step.send [of "replicate 27 0" _ True 0 sample_long]] sample_calls
  by (simp add: sample_narrow_def sample_start_def)

lemma sample_views:
  "l_end sample_drained True = sample_acked" "l_end sample_drained False = sample_answered" "l_end sample_done True = sample_acked"
  "l_sent sample_drained True = [[1, 2, 3]]" "l_sent sample_drained False = []" "l_got sample_drained False = []"
  "l_sent sample_done True = [[1, 2, 3]]" "l_sent sample_done False = []" "l_got sample_done False = [[1, 2, 3]]"
  "l_end sample_narrow True = sample_long" "l_sent sample_narrow True = [replicate 27 0]" "l_sent sample_narrow False = []"
  "l_end sample_pending True = sample_flushed" "l_sent sample_pending True = [[1, 2, 3]]" "l_sent sample_pending False = []"
  "l_got sample_narrow False = []" "k_rcv_wnd (l_end sample_narrow False) = 1"
  by (simp_all add: sample_done_def sample_drained_def sample_pending_def sample_start_def sample_narrow_def ikcp_wndsize_def)

lemma sample_in_range: "in_range sample_drained" "in_range sample_done" "in_range sample_narrow" "in_range sample_pending"
  by (simp_all add: in_range_def segments_def sample_views sample_calls fragment_count_def seq_bound_def)

section \<open>What the link promises\<close>

text \<open>When everything outstanding has arrived, the receive buffer holds a contiguous run.\<close>

lemma sorted_range:
  assumes "sorted_wrt (<) js" "set js = {m..<n :: nat}"
  shows "js = [m..<n]"
  using assms sorted_distinct_set_unique [of js "[m..<n]"] strict_sorted_iff by auto

lemma receiver_drained:
  assumes r: "receiver S c m k" and a: "\<And>i. i < length S \<Longrightarrow> arrived S m (k_rcv_buf k) i" and b: "length S < seq_bound"
  shows "list_all2 (carries S) [c..<length S] (k_rcv_queue k @ k_rcv_buf k)"
proof -
  obtain js where j: "sorted_wrt (<) js" "\<forall>j \<in> set js. m \<le> j" "list_all2 (carries S) js (k_rcv_buf k)"
    and q: "c \<le> m" "m \<le> length S" "list_all2 (carries S) [c..<m] (k_rcv_queue k)"
    using r by (auto simp: receiver_def receiver_with_def)
  have "i \<in> set js" if i: "m \<le> i" "i < length S" for i
  proof -
    obtain s where s: "s \<in> set (k_rcv_buf k)" "carries S i s" using a [OF i(2)] i(1) by (auto simp: arrived_def)
    then obtain j where "j \<in> set js" "carries S j s" using list_all2_mem(1) [OF j(3)] by blast
    then show ?thesis using carries_index [of S j s i] carries_sn [OF s(2)] b i(2) by simp
  qed
  moreover have "j < length S" if "j \<in> set js" for j using list_all2_mem(2) [OF j(3) that] carries_sn by blast
  ultimately have "set js = {m..<length S}" using j(2) by auto
  then have "js = [m..<length S]" using sorted_range [OF j(1)] by blast
  moreover have "[c..<length S] = [c..<m] @ [m..<length S]" using q upt_add_eq_append [of c m "length S - m"] by simp
  ultimately show ?thesis using q(3) j(3) by (simp add: list_all2_appendI)
qed

lemma settled_window:
  assumes r: "receiver S c m k" and st: "settled k" and b: "length S < seq_bound"
    and d: "list_all2 (carries S) [c..<length S] (k_rcv_queue k @ k_rcv_buf k)"
    and f: "next_message S c fs" "length fs \<le> unat (k_rcv_wnd k)"
  shows "c + length fs \<le> m"
proof (rule ccontr)
  assume "\<not> ?thesis"
  then have m: "m < c + length fs" by simp
  have q: "c \<le> m" "m \<le> length S" "list_all2 (carries S) [c..<m] (k_rcv_queue k)" "k_nrcv_que k = word_of_nat (m - c)" "k_rcv_nxt k = word_of_nat m"
    using r unfolding receiver_def receiver_with_def by blast+
  obtain rest where "drop c S = fs @ rest" using f(1) by (auto simp: next_message_def)
  then have "length S - c = length fs + length rest" by (metis length_append length_drop)
  then have "c + length fs \<le> length S" using m q(1) by linarith
  then have "[c..<length S] = [c..<m] @ m # [Suc m..<length S]" using q m upt_add_eq_append [of c m "length S - m"] by (simp add: upt_conv_Cons)
  then obtain s b' where "k_rcv_buf k = s # b'" "carries S m s"
    using d list_all2_lengthD [OF q(3)] by (auto simp: list_all2_append list_all2_Cons1)
  then have "\<not> k_nrcv_que k < k_rcv_wnd k" using st q(5) carries_sn by (auto simp: settled_def)
  moreover have "unat (k_nrcv_que k) = m - c" unfolding q(4) using q(2) b by (intro unat_word_of_nat_32) (simp add: seq_bound_def)
  ultimately show False using m f(2) q(1) by (simp add: word_less_nat_alt)
qed

lemma carries_data: "list_all2 (carries S) [c..<length S] q \<Longrightarrow> map s_data q = map snd (drop c S)"
proof -
  assume q: "list_all2 (carries S) [c..<length S] q"
  have "map s_data q ! i = map snd (drop c S) ! i" if "i < length q" for i
    using list_all2_nthD2 [OF q that] list_all2_lengthD [OF q] that by (auto simp: carries_def)
  then show ?thesis using list_all2_lengthD [OF q] by (auto intro: nth_equalityI)
qed

lemma sender_drained: "sender S n X k \<Longrightarrow> k_snd_queue k = [] \<Longrightarrow> k_snd_buf k = [] \<Longrightarrow> i < length S \<Longrightarrow> X i"
  by (auto simp: sender_def buffered_def)

text \<open>
  C3. Exactly-once, in-order delivery. In every state that the two sides can reach by sending,
  receiving, updating, flushing and feeding in any datagram the other side ever produced, however
  often and in whatever order, the messages one side has received are a prefix of those the other
  side has sent, provided fewer than \<open>2 ^ 31\<close> segments have been used.
\<close>

theorem kcp_delivery:
  assumes "linked conv s" "in_range s"
  shows "prefix (l_got s (\<not> b)) (l_sent s b)"
proof -
  obtain bs n m where "\<And>b. link_side conv s bs n m b" using linkedE [OF assms] by metis
  from link_sideD(5) [OF this [of "\<not> b"]] show ?thesis by simp
qed

theorem kcp_delivery_witness:
  "l_got sample_done False = [[1, 2, 3]] \<and> prefix (l_got sample_done False) (l_sent sample_done True)"
  using kcp_delivery [OF sample_done_linked sample_in_range(2), of True] by (simp add: sample_views)

text \<open>
  C4. Nothing is lost. When the sending side has neither queued nor unacknowledged segments, every
  byte it sent has been received or lies in the receive queue or the receive buffer of the other
  side, in order.
\<close>

theorem kcp_no_loss:
  assumes "linked conv s" "in_range s" "k_snd_queue (l_end s b) = []" "k_snd_buf (l_end s b) = []"
  shows "concat (l_sent s b) =
    concat (l_got s (\<not> b)) @ concat (map s_data (k_rcv_queue (l_end s (\<not> b)) @ k_rcv_buf (l_end s (\<not> b))))"
proof -
  obtain bs n m where inv: "\<And>b. link_side conv s bs n m b" and bd: "\<And>b. length (concat (bs b)) < seq_bound"
    using linkedE [OF assms(1,2)] by metis
  note I = link_sideD [OF inv [of b]] and J = link_sideD [OF inv [of "\<not> b"], simplified]
  let ?g = "length (l_got s (\<not> b))"
  have "list_all2 (carries (concat (bs b))) [length (concat (take ?g (bs b)))..<length (concat (bs b))]
      (k_rcv_queue (l_end s (\<not> b)) @ k_rcv_buf (l_end s (\<not> b)))"
    using receiver_drained [OF endpointD(2) [OF J(4)] _ bd] sender_drained [OF endpointD(1) [OF I(4)] assms(3,4)] by blast
  from carries_data [OF this] have "concat (map s_data (k_rcv_queue (l_end s (\<not> b)) @ k_rcv_buf (l_end s (\<not> b)))) =
      concat (map snd (concat (drop ?g (bs b))))"
    by (metis append_eq_conv_conj append_take_drop_id concat_append)
  also have "\<dots> = concat (drop ?g (l_sent s b))" by (rule frags_concat [OF list_all2_dropI [OF I(3)]])
  finally show ?thesis using J(5) by (auto simp: prefix_def)
qed

theorem kcp_no_loss_witness:
  "concat (l_sent sample_drained True) = concat (map s_data (k_rcv_queue sample_answered @ k_rcv_buf sample_answered))
   \<and> l_sent sample_drained True = [[1, 2, 3]]"
  using kcp_no_loss [OF sample_drained_linked sample_in_range(1), of True] by (simp add: sample_views sample_calls)

lemma linked_settled: "linked conv s \<Longrightarrow> settled (l_end s b) \<and> (\<forall>msg \<in> set (l_sent s b). length msg < 2 ^ 31)"
proof (induction rule: linked.induct)
  case (start e)
  have "receiving (e b) = (0, [], [], 0)" using configured_ok [OF start(1)] by blast
  then show ?case by (simp add: settled_def receiving_def)
next
  case (step s t)
  obtain x k ms gs ds where "t = link_put s x k ms gs ds" "keeps (l_end s x) k" "\<forall>msg \<in> set ms. length msg < 2 ^ 31"
    using link_step_put [OF step(2)] by metis
  then show ?case using step.IH by (auto simp: keeps_def)
qed

text \<open>
  C11. No fault. In every reachable state no call meets a failed assertion or writes past the end of
  the datagram buffer: sending, receiving, flushing and updating all return.
\<close>

theorem kcp_no_fault:
  assumes "linked conv s" "in_range s" "length msg < 2 ^ 31"
  shows "(\<exists>r k. ikcp_send (l_end s b) msg (int (length msg)) = Inr (r, k))
    \<and> (\<exists>r bs k. ikcp_recv (l_end s b) len = Inr (r, bs, k))
    \<and> (\<exists>k ds. ikcp_flush (l_end s b) = Inr (k, ds)) \<and> (\<exists>k ds. ikcp_update (l_end s b) t = Inr (k, ds))"
proof -
  obtain bs n m where inv: "\<And>b. link_side conv s bs n m b" and bd: "\<And>b. length (concat (bs b)) < seq_bound"
    using linkedE [OF assms(1,2)] by metis
  note I = link_sideD [OF inv [of b]] and J = link_sideD [OF inv [of "\<not> b"]]
  have "k_rcv_queue (l_end s b) = [] \<or> (\<exists>fs. next_message (concat (bs (\<not> b))) (length (concat (take (length (l_got s b)) (bs (\<not> b))))) fs)"
    using link_next [OF inv, of b] next_message_nth [OF J(3)] by blast
  note recv = ikcp_recv_ok [OF endpointD(2) [OF I(4)] bd this, of len]
  show ?thesis
    using ikcp_send_ok [OF I(4,1) assms(3)] recv ikcp_flush_ok [OF I(4,1) frags_fit [OF I(3)]] ikcp_update_ok [OF I(4,1) frags_fit [OF I(3)], of t]
    by (elim exE conjE) (intro conjI; blast)
qed

theorem kcp_no_fault_witness:
  "\<exists>k ds. ikcp_update (l_end sample_pending False) 40 = Inr (k, ds)"
  using kcp_no_fault [OF sample_pending_linked sample_in_range(4), of "[]" False 0 40] by simp

text \<open>
  C10. Progress. When the sending side has nothing outstanding and the next message has no more
  fragments than the receive window of the other side, a call of \<open>ikcp_recv\<close> with a large enough
  buffer returns exactly that message.
\<close>

theorem kcp_progress:
  assumes "linked conv s" "in_range s" "k_snd_queue (l_end s b) = []" "k_snd_buf (l_end s b) = []"
    and "length (l_got s (\<not> b)) < length (l_sent s b)" "msg = l_sent s b ! length (l_got s (\<not> b))"
    and "fragment_count (k_mss (l_end s b)) (int (length msg)) \<le> unat (k_rcv_wnd (l_end s (\<not> b)))" "int (length msg) \<le> len"
  shows "\<exists>k. ikcp_recv (l_end s (\<not> b)) len = Inr (int (length msg), msg, k)"
proof -
  obtain bs n m where inv: "\<And>b. link_side conv s bs n m b" and bd: "\<And>b. length (concat (bs b)) < seq_bound"
    using linkedE [OF assms(1,2)] by metis
  note I = link_sideD [OF inv [of b]] and J = link_sideD [OF inv [of "\<not> b"], simplified]
  let ?g = "length (l_got s (\<not> b))" and ?k = "l_end s (\<not> b)"
  let ?fs = "bs b ! ?g" and ?c = "length (concat (take ?g (bs b)))" and ?S = "concat (bs b)"
  have g: "?g < length (bs b)" using assms(5) list_all2_lengthD [OF I(3)] by simp
  then have f: "frags (k_mss (l_end s b)) msg ?fs" using list_all2_nthD2 [OF I(3)] assms(6) by simp
  note nx = next_message_nth [OF I(3) g] and rc = endpointD(2) [OF J(4)]
  note dr = receiver_drained [OF rc sender_drained [OF endpointD(1) [OF I(4)] assms(3,4)] bd]
  have "?c + length ?fs \<le> m (\<not> b)"
    using settled_window [OF rc _ bd dr nx] linked_settled [OF assms(1)] f assms(7) by (simp add: frags_def)
  moreover have "concat (map snd ?fs) = msg" using f by (simp add: frags_def)
  moreover have "length msg < 2 ^ 31" using linked_settled [OF assms(1), of b] assms(5,6) by simp
  ultimately show ?thesis using ikcp_recv_message [OF rc nx _ bd, of len] assms(8) by simp
qed

theorem kcp_progress_witness:
  "\<exists>k. ikcp_recv (l_end sample_drained False) 100 = Inr (3, [1, 2, 3], k)"
proof -
  have "\<exists>k. ikcp_recv (l_end sample_drained (\<not> True)) 100 = Inr (int (length [1, 2, 3 :: byte]), [1, 2, 3], k)"
    by (rule kcp_progress [OF sample_drained_linked sample_in_range(1)])
      (simp_all add: sample_views sample_calls fragment_count_def)
  then show ?thesis by simp
qed

text \<open>
  C17. A message that never arrives. When the next message has more fragments than the receive
  window of the other side, every call of \<open>ikcp_recv\<close> there fails and changes nothing, although
  \<open>ikcp_send\<close> accepted the message.
\<close>

theorem kcp_message_too_long:
  assumes "linked conv s" "in_range s" "length (l_got s (\<not> b)) < length (l_sent s b)"
    and "unat (k_rcv_wnd (l_end s (\<not> b))) < fragment_count (k_mss (l_end s b)) (int (length (l_sent s b ! length (l_got s (\<not> b)))))"
  shows "\<exists>r < 0. ikcp_recv (l_end s (\<not> b)) len = Inr (r, [], l_end s (\<not> b))"
proof -
  obtain bs n m where inv: "\<And>b. link_side conv s bs n m b" and bd: "\<And>b. length (concat (bs b)) < seq_bound"
    using linkedE [OF assms(1,2)] by metis
  note I = link_sideD [OF inv [of b]] and J = link_sideD [OF inv [of "\<not> b"], simplified]
  let ?g = "length (l_got s (\<not> b))" and ?k = "l_end s (\<not> b)"
  let ?fs = "bs b ! ?g" and ?c = "length (concat (take ?g (bs b)))"
  have g: "?g < length (bs b)" using assms(3) list_all2_lengthD [OF I(3)] by simp
  then have "unat (k_rcv_wnd ?k) < length ?fs" using list_all2_nthD2 [OF I(3)] assms(4) by (simp add: frags_def)
  moreover have "m (\<not> b) - ?c \<le> unat (k_rcv_wnd ?k)" using endpointD(2) [OF J(4)] by (simp add: receiver_def receiver_with_def)
  ultimately have "m (\<not> b) < ?c + length ?fs" by linarith
  from peek_incomplete [OF endpointD(2) [OF J(4)] next_message_nth [OF I(3) g] this bd]
  show ?thesis by (auto simp: ikcp_recv_def)
qed

theorem kcp_message_too_long_witness:
  "\<exists>r < 0. ikcp_recv (l_end sample_narrow False) 100 = Inr (r, [], l_end sample_narrow False)"
  using kcp_message_too_long [OF sample_narrow_linked sample_in_range(3), of True 100]
  by (simp add: sample_views sample_calls fragment_count_def)

end
